(* ===== verification/Prelude.thy ===== *)
theory Prelude
  imports Main "HOL-Library.List_Lexorder" "HOL-Library.Char_ord" "HOL-Library.Option_ord"
    "HOL-Library.Product_Lexorder" "HOL-Library.Word"
begin

text \<open>
  What every component of the development shares: the names of the machine types, the ordered
  map and the ordered set that stand for Rust's \<open>BTreeMap\<close> and \<open>BTreeSet\<close>, the operations of
  \<open>Option\<close> the code calls, and the two interfaces the components are written against:
  \<open>keyed_store\<close> (what a map promises to a ledger) and \<open>event_fold\<close> (what one step of a fold
  owes so that a whole log keeps an invariant).

  A \<open>BTreeMap\<close> is an association list in strictly ascending key order, so that iterating it
  visits the entries in the order the code does, and a \<open>BTreeSet\<close> a strictly ascending list.
\<close>

section \<open>Names of the machine types\<close>

type_synonym u32 = "32 word"
type_synonym u64 = "64 word"

text \<open>
  A position in a log (\<open>Seq\<close>) is only ever compared, so it is a natural number. A point in time
  is a whole number of nanoseconds since the epoch and a \<open>std::time::Duration\<close> a natural number
  of them. Identifiers are their text; Rust compares text byte by byte, as the lexicographic
  order on \<open>string\<close> does.
\<close>

type_synonym seq = nat
type_synonym instant = int
type_synonym duration = nat

type_synonym node_id = string
type_synonym task_id = string
type_synonym run_id = string
type_synonym session_id = string

named_theorems frame_simps \<open>an operation leaves a field it does not write as it was\<close>
named_theorems fold_simps \<open>what one event does to a ledger, by kind of event\<close>

section \<open>Options as the code reads them\<close>

definition is_some_and :: "'a option \<Rightarrow> ('a \<Rightarrow> bool) \<Rightarrow> bool" where
  "is_some_and x p = (case x of None \<Rightarrow> False | Some v \<Rightarrow> p v)"

definition is_none_or :: "'a option \<Rightarrow> ('a \<Rightarrow> bool) \<Rightarrow> bool" where
  "is_none_or x p = (case x of None \<Rightarrow> True | Some v \<Rightarrow> p v)"

definition or_else :: "'a option \<Rightarrow> 'a option \<Rightarrow> 'a option" where
  "or_else x y = (case x of None \<Rightarrow> y | Some v \<Rightarrow> Some v)"

definition unwrap_or :: "'a option \<Rightarrow> 'a \<Rightarrow> 'a" where
  "unwrap_or x d = (case x of None \<Rightarrow> d | Some v \<Rightarrow> v)"

definition filter_opt :: "('a \<Rightarrow> bool) \<Rightarrow> 'a option \<Rightarrow> 'a option" where
  "filter_opt p x = (case x of None \<Rightarrow> None | Some v \<Rightarrow> if p v then Some v else None)"

definition zip_opt :: "'a option \<Rightarrow> 'b option \<Rightarrow> ('a \<times> 'b) option" where
  "zip_opt x y = (case (x, y) of (Some a, Some b) \<Rightarrow> Some (a, b) | _ \<Rightarrow> None)"

definition last_opt :: "'a list \<Rightarrow> 'a option" where
  "last_opt xs = (if xs = [] then None else Some (last xs))"

lemma is_some_and_simps [simp]:
  "is_some_and None p = False" "is_some_and (Some v) p = p v"
  by (simp_all add: is_some_and_def)

lemma is_some_and_iff: "is_some_and x p \<longleftrightarrow> (\<exists>v. x = Some v \<and> p v)"
  by (cases x) simp_all

lemma is_none_or_simps [simp]:
  "is_none_or None p = True" "is_none_or (Some v) p = p v"
  by (simp_all add: is_none_or_def)

lemma or_else_simps [simp]:
  "or_else None y = y" "or_else (Some v) y = Some v" "or_else x None = x"
  by (simp_all add: or_else_def split: option.split)

lemma unwrap_or_simps [simp]: "unwrap_or None d = d" "unwrap_or (Some v) d = v"
  by (simp_all add: unwrap_or_def)

lemma filter_opt_simps [simp]:
  "filter_opt p None = None" "filter_opt p (Some v) = (if p v then Some v else None)"
  by (simp_all add: filter_opt_def)

lemma filter_opt_Some_iff: "filter_opt p x = Some v \<longleftrightarrow> x = Some v \<and> p v"
  by (cases x) auto

lemma zip_opt_simps [simp]:
  "zip_opt None y = None" "zip_opt x None = None" "zip_opt (Some a) (Some b) = Some (a, b)"
  by (simp_all add: zip_opt_def split: option.split)

lemma zip_opt_Some_iff: "zip_opt x y = Some (a, b) \<longleftrightarrow> x = Some a \<and> y = Some b"
  by (cases x; cases y) auto

lemma last_opt_simps [simp]:
  "last_opt [] = None" "last_opt (xs @ [x]) = Some x"
  by (simp_all add: last_opt_def)

lemma last_opt_Some_in: "last_opt xs = Some x \<Longrightarrow> x \<in> set xs"
  by (auto simp: last_opt_def split: if_splits)

lemma find_SomeD: "List.find p xs = Some x \<Longrightarrow> x \<in> set xs \<and> p x"
  by (auto simp: find_Some_iff)

lemma find_SomeE:
  assumes "List.find p xs = Some x"
  obtains ys zs where "xs = ys @ x # zs" "p x" "\<forall>y \<in> set ys. \<not> p y"
  using assms
proof (induction xs arbitrary: thesis)
  case Nil
  then show ?case by simp
next
  case (Cons a xs)
  show ?case
  proof (cases "p a")
    case True
    with Cons.prems show ?thesis by (intro Cons.prems(1) [of "[]" xs]) auto
  next
    case False
    with Cons.prems obtain ys zs where "xs = ys @ x # zs" "p x" "\<forall>y \<in> set ys. \<not> p y"
      by (auto intro: Cons.IH)
    with False show ?thesis by (intro Cons.prems(1) [of "a # ys" zs]) auto
  qed
qed

text \<open>A counter below a cap does not wrap when it counts one more.\<close>

lemma unat_inc_less:
  fixes n m :: "'a::len word"
  assumes "n < m"
  shows "unat (n + 1) = unat n + 1"
proof -
  have "unat n < unat m" using assms by (simp add: word_less_nat_alt)
  moreover have "unat m < 2 ^ LENGTH('a)" by simp
  ultimately have "unat n + 1 < 2 ^ LENGTH('a)" by linarith
  then show ?thesis by (simp add: unat_word_ariths)
qed

text \<open>Reading a log: what one more event adds to a filtered reading of it, and the order in which
  the things it names first appeared.\<close>

lemma map_filter_append: "List.map_filter f (xs @ ys) = List.map_filter f xs @ List.map_filter f ys"
  by (simp add: List.map_filter_def)

lemma map_filter_snoc:
  "List.map_filter f (xs @ [x]) = List.map_filter f xs @ (case f x of None \<Rightarrow> [] | Some y \<Rightarrow> [y])"
  by (simp add: List.map_filter_def split: option.split)

lemma set_map_filter: "set (List.map_filter f xs) = {y. \<exists>x \<in> set xs. f x = Some y}"
  by (force simp: List.map_filter_def)

definition first_order :: "'a list \<Rightarrow> 'a list" where
  "first_order xs = rev (remdups (rev xs))"

lemma first_order_Nil [simp]: "first_order [] = []"
  by (simp add: first_order_def)

lemma first_order_snoc:
  "first_order (xs @ [x]) = (if x \<in> set xs then first_order xs else first_order xs @ [x])"
  by (simp add: first_order_def)

lemma set_first_order [simp]: "set (first_order xs) = set xs"
  by (simp add: first_order_def)

lemma distinct_first_order [simp]: "distinct (first_order xs)"
  by (simp add: first_order_def)

section \<open>The ordered map\<close>

type_synonym ('k, 'v) omap = "('k \<times> 'v) list"

definition om_get :: "('k, 'v) omap \<Rightarrow> 'k \<Rightarrow> 'v option" where
  "om_get m k = map_of m k"

fun om_put :: "'k::linorder \<Rightarrow> 'v \<Rightarrow> ('k, 'v) omap \<Rightarrow> ('k, 'v) omap" where
  "om_put k v [] = [(k, v)]"
| "om_put k v ((k', v') # m) =
     (if k < k' then (k, v) # (k', v') # m
      else if k = k' then (k, v) # m
      else (k', v') # om_put k v m)"

definition om_del :: "'k \<Rightarrow> ('k, 'v) omap \<Rightarrow> ('k, 'v) omap" where
  "om_del k m = filter (\<lambda>e. fst e \<noteq> k) m"

text \<open>\<open>map.entry(k).or_default()\<close> followed by a write through the reference.\<close>

definition om_entry :: "'v \<Rightarrow> 'k::linorder \<Rightarrow> ('v \<Rightarrow> 'v) \<Rightarrow> ('k, 'v) omap \<Rightarrow> ('k, 'v) omap" where
  "om_entry d k f m = om_put k (f (unwrap_or (om_get m k) d)) m"

text \<open>\<open>if let Some(v) = map.get_mut(k)\<close> followed by a write through the reference.\<close>

definition om_adjust :: "'k::linorder \<Rightarrow> ('v \<Rightarrow> 'v) \<Rightarrow> ('k, 'v) omap \<Rightarrow> ('k, 'v) omap" where
  "om_adjust k f m = (case om_get m k of None \<Rightarrow> m | Some v \<Rightarrow> om_put k (f v) m)"

definition om_values :: "('k, 'v) omap \<Rightarrow> 'v list" where
  "om_values m = map snd m"

definition om_keys :: "('k, 'v) omap \<Rightarrow> 'k list" where
  "om_keys m = map fst m"

definition om_ok :: "('k::linorder, 'v) omap \<Rightarrow> bool" where
  "om_ok m = sorted_wrt (<) (map fst m)"

lemma om_get_Nil [simp]: "om_get [] k = None"
  by (simp add: om_get_def)

lemma om_get_put: "om_get (om_put k v m) k' = (if k' = k then Some v else om_get m k')"
  by (induction k v m rule: om_put.induct) (auto simp: om_get_def)

lemma om_get_del: "om_get (om_del k m) k' = (if k' = k then None else om_get m k')"
  by (induction m) (auto simp: om_get_def om_del_def)

lemma om_keys_put: "set (map fst (om_put k v m)) = insert k (set (map fst m))"
  by (induction k v m rule: om_put.induct) auto

lemma om_ok_Nil [simp]: "om_ok []"
  by (simp add: om_ok_def)

lemma om_ok_put: "om_ok m \<Longrightarrow> om_ok (om_put k v m)"
proof (induction k v m rule: om_put.induct)
  case (2 k v k' v' m)
  have "set (map fst (om_put k v m)) = insert k (set (map fst m))"
    by (rule om_keys_put)
  with 2 show ?case by (auto simp: om_ok_def)
qed (simp add: om_ok_def)

lemma om_ok_del: "om_ok m \<Longrightarrow> om_ok (om_del k m)"
  by (auto simp: om_ok_def om_del_def sorted_wrt_map intro: sorted_wrt_filter)

lemma om_ok_distinct: "om_ok m \<Longrightarrow> distinct (map fst m)"
  unfolding om_ok_def by (induction m) auto

lemma om_get_mem: "om_ok m \<Longrightarrow> (k, v) \<in> set m \<longleftrightarrow> om_get m k = Some v"
  by (simp add: om_get_def map_of_eq_Some_iff om_ok_distinct)

text \<open>
  What a map promises a client: looking up after a write or a removal, an order on the entries
  that every operation keeps, and entries that are exactly what a lookup finds.
\<close>

locale keyed_store =
  fixes empty :: "'m" and lookup :: "'m \<Rightarrow> 'k \<Rightarrow> 'v option"
    and put :: "'k \<Rightarrow> 'v \<Rightarrow> 'm \<Rightarrow> 'm" and del :: "'k \<Rightarrow> 'm \<Rightarrow> 'm"
    and entries :: "'m \<Rightarrow> ('k \<times> 'v) list" and ok :: "'m \<Rightarrow> bool"
  assumes lookup_empty: "lookup empty k = None"
    and lookup_put: "lookup (put k v m) k' = (if k' = k then Some v else lookup m k')"
    and lookup_del: "lookup (del k m) k' = (if k' = k then None else lookup m k')"
    and ok_empty: "ok empty"
    and ok_put: "ok m \<Longrightarrow> ok (put k v m)"
    and ok_del: "ok m \<Longrightarrow> ok (del k m)"
    and entries_iff: "ok m \<Longrightarrow> (k, v) \<in> set (entries m) \<longleftrightarrow> lookup m k = Some v"
begin

lemma lookup_put_same [simp]: "lookup (put k v m) k = Some v"
  by (simp add: lookup_put)

lemma lookup_put_other: "k' \<noteq> k \<Longrightarrow> lookup (put k v m) k' = lookup m k'"
  by (simp add: lookup_put)

lemma put_all: "(\<And>k v. lookup m k = Some v \<Longrightarrow> P k v) \<Longrightarrow> P k0 v0
    \<Longrightarrow> lookup (put k0 v0 m) k = Some v \<Longrightarrow> P k v"
  by (auto simp: lookup_put split: if_splits)

lemma entries_put:
  assumes "ok m"
  shows "(k', v') \<in> set (entries (put k v m)) \<longleftrightarrow>
      (k' = k \<and> v' = v) \<or> (k' \<noteq> k \<and> (k', v') \<in> set (entries m))"
  using assms ok_put [OF assms] by (auto simp: entries_iff lookup_put)

lemma del_put: "lookup (del k (put k v m)) k' = lookup (del k m) k'"
  by (simp add: lookup_put lookup_del)

end

interpretation om: keyed_store "[] :: ('k::linorder, 'v) omap" om_get om_put om_del "\<lambda>m. m" om_ok
  by unfold_locales (simp_all add: om_get_put om_get_del om_ok_put om_ok_del om_get_mem)

lemma om_get_entry:
  "om_get (om_entry d k f m) k' = (if k' = k then Some (f (unwrap_or (om_get m k) d)) else om_get m k')"
  by (simp add: om_entry_def om_get_put)

lemma om_ok_entry: "om_ok m \<Longrightarrow> om_ok (om_entry d k f m)"
  by (simp add: om_entry_def om_ok_put)

lemma om_get_adjust:
  "om_get (om_adjust k f m) k' = (if k' = k then map_option f (om_get m k) else om_get m k')"
  by (simp add: om_adjust_def om_get_put split: option.split)

lemma om_ok_adjust: "om_ok m \<Longrightarrow> om_ok (om_adjust k f m)"
  by (simp add: om_adjust_def om_ok_put split: option.split)

lemmas om_get_simps [simp] = om_get_put om_get_del om_get_entry om_get_adjust
lemmas om_ok_intros [intro] = om_ok_put om_ok_del om_ok_entry om_ok_adjust

lemma om_values_mem: "om_ok m \<Longrightarrow> v \<in> set (om_values m) \<longleftrightarrow> (\<exists>k. om_get m k = Some v)"
  by (force simp: om_values_def om.entries_iff [symmetric])

lemma om_keys_mem: "om_ok m \<Longrightarrow> k \<in> set (om_keys m) \<longleftrightarrow> om_get m k \<noteq> None"
  by (simp add: om_keys_def om_get_def map_of_eq_None_iff)

text \<open>Summing over the values of a map, one write at a time.\<close>

lemma om_sum_put:
  fixes f :: "'v \<Rightarrow> 'a::ab_group_add"
  assumes "om_ok m"
  shows "sum_list (map f (om_values (om_put k v m))) =
      sum_list (map f (om_values m)) - (case om_get m k of None \<Rightarrow> 0 | Some w \<Rightarrow> f w) + f v"
  using assms
proof (induction k v m rule: om_put.induct)
  case (1 k v)
  then show ?case by (simp add: om_values_def)
next
  case (2 k v k' v' m)
  have none: "om_get m k = None" if "k \<le> k'"
  proof -
    have "\<forall>x \<in> set (map fst m). k' < x"
      using "2.prems" by (simp add: om_ok_def)
    then have "k \<notin> set (map fst m)"
      using that by (metis leD)
    then show ?thesis by (simp add: om_get_def map_of_eq_None_iff)
  qed
  have ok: "om_ok m" using "2.prems" by (simp add: om_ok_def)
  consider "k < k'" | "k = k'" | "k' < k" by (meson linorder_less_linear)
  then show ?case
  proof cases
    case 1
    then show ?thesis using none by (auto simp: om_values_def om_get_def)
  next
    case 2
    then show ?thesis by (simp add: om_values_def om_get_def)
  next
    case 3
    then have "sum_list (map f (om_values (om_put k v m))) =
        sum_list (map f (om_values m)) - (case om_get m k of None \<Rightarrow> 0 | Some w \<Rightarrow> f w) + f v"
      using "2.IH" ok by auto
    with 3 show ?thesis by (auto simp: om_values_def om_get_def split: option.split)
  qed
qed

section \<open>The ordered set\<close>

fun os_insert :: "'a::linorder \<Rightarrow> 'a list \<Rightarrow> 'a list" where
  "os_insert x [] = [x]"
| "os_insert x (y # ys) = (if x < y then x # y # ys else if x = y then y # ys else y # os_insert x ys)"

definition os_remove :: "'a \<Rightarrow> 'a list \<Rightarrow> 'a list" where
  "os_remove x ys = filter (\<lambda>y. y \<noteq> x) ys"

definition os_of :: "'a::linorder list \<Rightarrow> 'a list" where
  "os_of xs = fold os_insert xs []"

lemma set_os_insert [simp]: "set (os_insert x ys) = insert x (set ys)"
  by (induction x ys rule: os_insert.induct) auto

lemma set_os_remove [simp]: "set (os_remove x ys) = set ys - {x}"
  by (auto simp: os_remove_def)

lemma set_fold_os_insert: "set (fold os_insert xs ys) = set xs \<union> set ys"
  by (induction xs arbitrary: ys) auto

lemma set_os_of [simp]: "set (os_of xs) = set xs"
  by (simp add: os_of_def set_fold_os_insert)

lemma os_insert_not_Nil [simp]: "os_insert x ys \<noteq> []"
  by (cases ys) auto

lemma sorted_os_insert: "sorted_wrt (<) ys \<Longrightarrow> sorted_wrt (<) (os_insert x ys)"
  by (induction x ys rule: os_insert.induct) auto

lemma sorted_os_remove: "sorted_wrt (<) ys \<Longrightarrow> sorted_wrt (<) (os_remove x ys)"
  by (simp add: os_remove_def sorted_wrt_filter)

section \<open>Extrema as the iterators take them\<close>

text \<open>\<open>min_by_key\<close> keeps the first of several least elements, \<open>max_by_key\<close> the last of several
  greatest ones.\<close>

fun min_by_key :: "('a \<Rightarrow> 'k::linorder) \<Rightarrow> 'a list \<Rightarrow> 'a option" where
  "min_by_key f [] = None"
| "min_by_key f (x # xs) =
     (case min_by_key f xs of None \<Rightarrow> Some x | Some y \<Rightarrow> if f x \<le> f y then Some x else Some y)"

definition max_by_key :: "('a \<Rightarrow> 'k::linorder) \<Rightarrow> 'a list \<Rightarrow> 'a option" where
  "max_by_key f xs =
     foldl (\<lambda>best x. case best of None \<Rightarrow> Some x | Some b \<Rightarrow> if f b \<le> f x then Some x else Some b)
       None xs"

lemma min_by_key_None [simp]: "min_by_key f xs = None \<longleftrightarrow> xs = []"
  by (cases xs) (auto split: option.split)

lemma min_by_key_SomeD:
  "min_by_key f xs = Some x \<Longrightarrow> x \<in> set xs \<and> (\<forall>y \<in> set xs. f x \<le> f y)"
  by (induction xs arbitrary: x) (fastforce split: option.splits if_splits)+

lemma max_by_key_Nil [simp]: "max_by_key f [] = None"
  by (simp add: max_by_key_def)

lemma max_by_key_snoc:
  "max_by_key f (xs @ [x]) =
     (case max_by_key f xs of None \<Rightarrow> Some x | Some b \<Rightarrow> if f b \<le> f x then Some x else Some b)"
  by (simp add: max_by_key_def)

lemma max_by_key_None [simp]: "max_by_key f xs = None \<longleftrightarrow> xs = []"
  by (induction xs rule: rev_induct) (auto simp: max_by_key_snoc split: option.splits)

lemma max_by_key_SomeD:
  "max_by_key f xs = Some x \<Longrightarrow> x \<in> set xs \<and> (\<forall>y \<in> set xs. f y \<le> f x)"
proof (induction xs arbitrary: x rule: rev_induct)
  case Nil
  then show ?case by simp
next
  case (snoc a xs)
  show ?case
  proof (cases "max_by_key f xs")
    case None
    with snoc.prems show ?thesis by (simp add: max_by_key_snoc)
  next
    case (Some b)
    from snoc.IH [OF Some] have b: "b \<in> set xs" "\<forall>y \<in> set xs. f y \<le> f b" by simp_all
    from snoc.prems Some show ?thesis
      using b by (auto simp: max_by_key_snoc split: if_splits intro: order_trans)
  qed
qed

section \<open>Folding a log\<close>

text \<open>
  Every state of this program is a fold of a log. A ledger owes one thing: each event keeps its
  invariant. Then every log does, from every prefix of it on. The step may refuse an event, in
  which case the fold stops there.
\<close>

fun fold_until :: "('s \<Rightarrow> 'e \<Rightarrow> 'err + 's) \<Rightarrow> 's \<Rightarrow> 'e list \<Rightarrow> 's \<times> 'err option" where
  "fold_until step s [] = (s, None)"
| "fold_until step s (e # es) =
     (case step s e of Inl err \<Rightarrow> (s, Some err) | Inr s' \<Rightarrow> fold_until step s' es)"

locale event_fold =
  fixes init :: "'s" and step :: "'s \<Rightarrow> 'e \<Rightarrow> 'err + 's" and inv :: "'s \<Rightarrow> bool"
  assumes inv_init: "inv init"
    and inv_step: "inv s \<Longrightarrow> step s e = Inr s' \<Longrightarrow> inv s'"
begin

lemma inv_fold_from: "inv s \<Longrightarrow> inv (fst (fold_until step s es))"
  by (induction es arbitrary: s) (auto split: sum.split intro: inv_step)

lemma inv_fold: "inv (fst (fold_until step init es))"
  by (rule inv_fold_from) (rule inv_init)

lemma inv_prefix: "inv (fst (fold_until step init (take n es)))"
  by (rule inv_fold)

end

lemma fold_until_append:
  "fold_until step s (xs @ ys) =
     (case fold_until step s xs of
        (s', Some err) \<Rightarrow> (s', Some err)
      | (s', None) \<Rightarrow> fold_until step s' ys)"
  by (induction xs arbitrary: s) (auto split: sum.split)

lemma fold_until_snocE:
  assumes "fold_until step s (es @ [e]) = (s', None)"
  obtains m where "fold_until step s es = (m, None)" "step m e = Inr s'"
  using assms by (auto simp: fold_until_append split: prod.splits option.splits sum.splits)

lemma fold_until_refused_prefix:
  "fold_until step s es = (s', Some err) \<Longrightarrow>
     \<exists>ys e zs. es = ys @ e # zs \<and> fold_until step s ys = (s', None) \<and> step s' e = Inl err"
proof (induction es arbitrary: s)
  case Nil
  then show ?case by simp
next
  case (Cons e es)
  show ?case
  proof (cases "step s e")
    case (Inl err')
    with Cons.prems have "es = es" "s' = s" "step s' e = Inl err" by auto
    then show ?thesis by (intro exI [of _ "[]"] exI [of _ e] exI [of _ es]) simp
  next
    case (Inr t)
    with Cons.prems have "fold_until step t es = (s', Some err)" by simp
    then obtain ys e' zs where "es = ys @ e' # zs" "fold_until step t ys = (s', None)"
      "step s' e' = Inl err"
      using Cons.IH by blast
    with Inr show ?thesis by (intro exI [of _ "e # ys"] exI [of _ e'] exI [of _ zs]) simp
  qed
qed

text \<open>
  Two shapes of what a ledger promises about a field of it, proved once for the whole log. A field
  a step either leaves or writes holds what the last write said. A field a step adds to holds the
  sum of what the log added.
\<close>

locale last_write =
  fixes step :: "'s \<Rightarrow> 'e \<Rightarrow> 'err + 's" and view :: "'s \<Rightarrow> 'v" and writes :: "'e \<Rightarrow> 'v option"
  assumes step_writes: "step s e = Inr s' \<Longrightarrow> view s' = unwrap_or (writes e) (view s)"
begin

lemma view_fold:
  "fold_until step s es = (s', None) \<Longrightarrow>
     view s' = unwrap_or (last_opt (List.map_filter writes es)) (view s)"
proof (induction es arbitrary: s)
  case Nil
  then show ?case by (simp add: List.map_filter_simps)
next
  case (Cons e es)
  then obtain t where step: "step s e = Inr t" and rest: "fold_until step t es = (s', None)"
    by (auto split: sum.splits)
  from Cons.IH [OF rest] step_writes [OF step] show ?case
    by (cases "writes e") (auto simp: List.map_filter_simps last_opt_def)
qed

lemma view_kept:
  "fold_until step s es = (s', None) \<Longrightarrow> (\<And>e. e \<in> set es \<Longrightarrow> writes e = None) \<Longrightarrow> view s' = view s"
  by (simp add: view_fold List.map_filter_def)

end

locale running_total =
  fixes step :: "'s \<Rightarrow> 'e \<Rightarrow> 'err + 's" and view :: "'s \<Rightarrow> 'v::comm_monoid_add" and adds :: "'e \<Rightarrow> 'v"
  assumes step_adds: "step s e = Inr s' \<Longrightarrow> view s' = view s + adds e"
begin

lemma view_fold:
  "fold_until step s es = (s', None) \<Longrightarrow> view s' = view s + sum_list (map adds es)"
proof (induction es arbitrary: s)
  case Nil
  then show ?case by simp
next
  case (Cons e es)
  then obtain t where "step s e = Inr t" "fold_until step t es = (s', None)"
    by (auto split: sum.splits)
  with Cons.IH step_adds show ?case by (simp add: add.assoc)
qed

end

lemma fold_until_total: "fold_until (\<lambda>s e. Inr (f s e)) s es = (foldl f s es, None)"
  by (induction es arbitrary: s) simp_all

end
