(* ===== verification/Failures.thy ===== *)
theory Failures
  imports Prelude
begin

text \<open>
  Why a node failed and what can change it: the failure as the log records it
  (\<open>events/failure/mod.rs\<close> and its records), why a task stopped (\<open>events/tasks/stop.rs\<close>), the
  reserved options (\<open>reserved.rs\<close>) and the menu a failure offers (\<open>events/failure/remedy.rs\<close>).

  A value that every modelled operation only copies and compares, and whose own structure none
  of them reads, is carried as its serialized text (type \<open>json\<close>); a path, a scope glob and a
  hash are their text.
\<close>

type_synonym json = string
type_synonym path = string
type_synonym scope_glob = string
type_synonym content_hash = string
type_synonym commit_sha = string
type_synonym tree_id = string
type_synonym adapter_id = string
type_synonym option_id = string
type_synonym question_id = string
type_synonym mode_name = string

section \<open>Lists that are never empty\<close>

datatype 'a nonempty = NonEmpty 'a "'a list"

fun as_slice :: "'a nonempty \<Rightarrow> 'a list" where
  "as_slice (NonEmpty x xs) = x # xs"

fun nonempty_new :: "'a list \<Rightarrow> 'a nonempty option" where
  "nonempty_new [] = None"
| "nonempty_new (x # xs) = Some (NonEmpty x xs)"

lemma as_slice_not_Nil [simp]: "as_slice n \<noteq> []"
  by (cases n) simp

lemma nonempty_new_Some_iff: "nonempty_new xs = Some n \<longleftrightarrow> xs = as_slice n"
  by (cases xs; cases n) auto

lemma nonempty_new_None_iff [simp]: "nonempty_new xs = None \<longleftrightarrow> xs = []"
  by (cases xs) simp_all

section \<open>The options the engine reserves\<close>

datatype reserved_option =
  Abort | Retry | ContinueWork | Promote | Approve | Grant | Deny | Continue_Opt | Reject
| Accept | SendBack

definition reserved_all :: "reserved_option list" where
  "reserved_all =
     [Abort, Retry, ContinueWork, Promote, Approve, Grant, Deny, Continue_Opt, Reject, Accept,
      SendBack]"

fun reserved_as_str :: "reserved_option \<Rightarrow> string" where
  "reserved_as_str Abort = ''abort''"
| "reserved_as_str Retry = ''retry''"
| "reserved_as_str ContinueWork = ''continue-work''"
| "reserved_as_str Promote = ''promote''"
| "reserved_as_str Approve = ''approve''"
| "reserved_as_str Grant = ''grant''"
| "reserved_as_str Deny = ''deny''"
| "reserved_as_str Continue_Opt = ''continue''"
| "reserved_as_str Reject = ''reject''"
| "reserved_as_str Accept = ''accept''"
| "reserved_as_str SendBack = ''send-back''"

fun runs_again :: "reserved_option \<Rightarrow> bool" where
  "runs_again Retry = True"
| "runs_again ContinueWork = True"
| "runs_again Grant = True"
| "runs_again Deny = True"
| "runs_again Accept = True"
| "runs_again SendBack = True"
| "runs_again _ = False"

fun continues_work :: "reserved_option \<Rightarrow> bool" where
  "continues_work ContinueWork = True"
| "continues_work Grant = True"
| "continues_work _ = False"

definition reserved_from_str :: "string \<Rightarrow> reserved_option option" where
  "reserved_from_str s = List.find (\<lambda>opt. reserved_as_str opt = s) reserved_all"

definition reserved_id :: "reserved_option \<Rightarrow> option_id" where
  "reserved_id opt = reserved_as_str opt"

definition reserved_of :: "option_id \<Rightarrow> reserved_option option" where
  "reserved_of i = reserved_from_str i"

lemma reserved_of_id [simp]: "reserved_of (reserved_id opt) = Some opt"
  by (cases opt) (simp_all add: reserved_of_def reserved_id_def reserved_from_str_def reserved_all_def)

lemma reserved_of_Some_iff: "reserved_of i = Some opt \<longleftrightarrow> i = reserved_id opt"
proof
  assume "reserved_of i = Some opt"
  then show "i = reserved_id opt"
    by (auto simp: reserved_of_def reserved_from_str_def reserved_id_def dest: find_SomeD)
qed simp

section \<open>The failure a node records\<close>

datatype phase = Pre | Post

datatype criterion_type = Guard

record criterion_result =
  cr_cmd :: string
  cr_exit_code :: int
  cr_type :: "criterion_type option"
  cr_reused :: bool
  cr_duration_ms :: "u64 option"
  cr_output :: "content_hash option"
  cr_tail :: "string list"
  cr_tree :: "tree_id option"
  cr_head :: "string option"
  cr_conclusion :: "string option"

datatype session_end = Code int | Signal int | Unknown_End

record session_exit =
  se_end :: session_end
  se_stderr_tail :: "string list"

record session_death =
  sd_adapter :: adapter_id
  sd_exit :: "session_exit option"

record command_exit =
  ce_origin :: "json option"
  ce_code :: int
  ce_tail :: "string list"
  ce_output :: "content_hash option"

datatype limit_source = Session_Limit adapter_id | Forge

record account_limit =
  al_source :: limit_source
  resets_at :: "instant option"
  al_message :: string

datatype refusal_cause = Final_Refusal | Authentication | InvalidModel | Unreachable | ContextExhausted

record session_refusal =
  sr_adapter :: adapter_id
  sr_cause :: refusal_cause
  sr_message :: string

record owed_scope =
  os_task :: task_id
  os_paths :: "scope_glob list"
  os_reason :: "string option"

record requested_scope =
  rs_paths :: "scope_glob list"
  rs_reason :: string

record unpassable_task =
  ut_task :: task_id
  ut_cmd :: string
  ut_why :: string

text \<open>A coverage figure (\<open>f64\<close>) is carried as the text the log writes it as.\<close>

datatype red_check =
  Coverage string "json option" json
| Command string int "string option" "content_hash option"
| Regression string int "string list"

datatype runner_refusal = Unknown_Runner | NoCandidate "adapter_id list"

datatype denied_by = Deny_Pattern string | Allow_List

datatype denied_rule = Denied_Command string denied_by | Logged_Rule string

datatype departs_from =
  Shape string | Decision_Dep string | Change string | Criterion_Dep string | Outcome_Dep

record deviation_declared =
  dd_task :: task_id
  dd_from :: departs_from
  dd_planned :: string
  dd_instead :: string
  dd_why :: string

record criterion_unpassable =
  cu_task :: task_id
  cu_criterion :: string
  cu_exit_code :: int
  cu_why :: string

datatype surprise =
  TrivialCriterion string
| BrokenGuard string "string option"
| Unrunnable_Found string int

datatype task_cause =
  PreCheck "surprise nonempty"
| Unmet u32 "criterion_result list" "path list"
| Unrunnable "criterion_result list"
| Task_SessionRefused session_refusal
| SessionLimited account_limit
| Task_SessionDied session_death
| CarriedWorkNoLongerApplies "path list"
| Task_CommandDenied denied_rule
| ScopeDecisionOwed
| DeviationOwed "deviation_declared nonempty"
| CriterionUnpassable criterion_unpassable

record task_stop =
  ts_task :: task_id
  ts_cause :: task_cause

text \<open>The failure itself; a field no modelled operation reads inside is its text.\<close>

datatype (plugins only: code size) failure =
  Artifacts "json list"
| SessionDied session_death
| ScopeViolated "path list"
| ScopeRequested requested_scope
| ScopeOwed "owed_scope list"
| Unset json
| Unchanged u32 failure
| PathsDenied "path list" "json list"
| Exited command_exit
| PlanUnpassable "unpassable_task list"
| SessionRefused session_refusal
| Limit account_limit
| TasksStopped "task_stop list"
| Red red_check
| ChildFailed run_id "failure option"
| FrozenInput string
| SessionNotStopped string "string option"
| TimedOut u64 json
| TokenBudget u64 u64
| Template json "string option"
| ArtifactUnreadable json json
| ArtifactName string json
| MountUnreachable json
| GateChose node_id option_id node_id "string option"
| TestsAccepted task_id node_id
| ChildRefused string json
| NestedTooDeep u32 u32 string
| GateArtifactMissing node_id json
| CapabilityMissing node_id json adapter_id "json option" "string option"
| EngineFailed json
| CommandDenied denied_rule
| SkillMissing string "path list"
| LoopCapped node_id u32
| Confinement json
| FrozenRead json
| ChildrenFailed json "node_id list"
| Uncertain node_id
| Rejected string json
| SentBack "json list"
| FindingsOpen json "string list"
| Interrupted json
| ChangesRequested_F string commit_sha u64
| PullRequestClosed_F "string option"
| LoopStalled "task_id list"
| NoTasksDocument node_id
| RunnerUnresolved string runner_refusal
| Message string

definition is_plan_unpassable :: "failure \<Rightarrow> bool" where
  "is_plan_unpassable f = (case f of PlanUnpassable _ \<Rightarrow> True | _ \<Rightarrow> False)"

end
