(* ===== verification/Remedies.thy ===== *)
theory Remedies
  imports Failures
begin

text \<open>
  What can change a failure (\<open>events/failure/remedy.rs\<close>): the outlook of a failure, read from the
  failure and the facts the log holds beside it, and what the scope accessors of a failure say
  (\<open>events/failure/accessors.rs\<close>). The lemmas show that a menu is never empty and never offers an
  option twice, that a retry always names the input it waits for, and that a wait always lies
  after the failure it waits out.
\<close>

section \<open>The menu\<close>

datatype precondition =
  TreeChanged | OutsideTreeChanged | CredentialFixed | ModelAvailable | LimitLifted
| ServiceReachable | CommandRunnable string | CapLifted

record remedy =
  rem_option :: reserved_option
  rem_precondition :: "precondition option"

datatype stuck =
  FrozenConfig | Frozen_Input | ProjectDenies | NoGrant | TreeUnchanged | Owed | Final
| CriteriaWrong

datatype outlook = WaitUntil instant | Choose "remedy list" | Stuck stuck

record facts =
  failed_at :: instant
  fact_continuable :: bool
  may_grant :: bool
  tree_moved :: bool

definition retry_remedy :: "precondition \<Rightarrow> remedy" where
  "retry_remedy p = \<lparr>rem_option = Retry, rem_precondition = Some p\<rparr>"

definition retry :: "precondition \<Rightarrow> outlook" where
  "retry p = Choose [retry_remedy p]"

definition outside_outlook :: outlook where
  "outside_outlook = retry OutsideTreeChanged"

definition bare_remedy :: "reserved_option \<Rightarrow> remedy" where
  "bare_remedy opt = \<lparr>rem_option = opt, rem_precondition = None\<rparr>"

definition runner_outlook :: "runner_refusal \<Rightarrow> outlook" where
  "runner_outlook r =
     (case r of Unknown_Runner \<Rightarrow> Stuck FrozenConfig | NoCandidate _ \<Rightarrow> outside_outlook)"

definition tree_outlook :: "facts \<Rightarrow> outlook" where
  "tree_outlook fs = (if tree_moved fs then retry TreeChanged else Stuck TreeUnchanged)"

definition scope_outlook :: "facts \<Rightarrow> outlook" where
  "scope_outlook fs = (if may_grant fs then Choose [bare_remedy Grant] else Stuck NoGrant)"

definition exited_precondition :: "facts \<Rightarrow> precondition" where
  "exited_precondition fs = (if tree_moved fs then TreeChanged else OutsideTreeChanged)"

definition owed_scope_outlook :: "facts \<Rightarrow> outlook" where
  "owed_scope_outlook fs =
     Choose ((if may_grant fs then [bare_remedy Grant] else []) @ [bare_remedy Deny])"

fun cause_outlook :: "refusal_cause \<Rightarrow> outlook" where
  "cause_outlook Authentication = retry CredentialFixed"
| "cause_outlook InvalidModel = retry ModelAvailable"
| "cause_outlook Unreachable = retry ServiceReachable"
| "cause_outlook Final_Refusal = Stuck Final"
| "cause_outlook ContextExhausted = Stuck Final"

definition limit_outlook :: "account_limit \<Rightarrow> facts \<Rightarrow> outlook" where
  "limit_outlook l fs =
     (case resets_at l of
        Some at \<Rightarrow> if at > failed_at fs then WaitUntil at else retry LimitLifted
      | None \<Rightarrow> retry LimitLifted)"

definition push_remedy :: "remedy list \<Rightarrow> remedy \<Rightarrow> remedy list" where
  "push_remedy rs r = (if r \<in> set rs then rs else rs @ [r])"

text \<open>The loop of \<open>pre_check_outlook\<close>: the remedies so far and whether a guard was red.\<close>

fun pre_check_loop :: "surprise list \<Rightarrow> remedy list \<Rightarrow> bool \<Rightarrow> (remedy list \<times> bool) option" where
  "pre_check_loop [] rs red = Some (rs, red)"
| "pre_check_loop (s # ss) rs red =
     (case s of
        TrivialCriterion _ \<Rightarrow> None
      | Unrunnable_Found cmd _ \<Rightarrow>
          pre_check_loop ss (push_remedy rs (retry_remedy (CommandRunnable cmd))) red
      | BrokenGuard _ _ \<Rightarrow> pre_check_loop ss rs True)"

definition pre_check_outlook :: "surprise nonempty \<Rightarrow> facts \<Rightarrow> outlook" where
  "pre_check_outlook found fs =
     (case pre_check_loop (as_slice found) [] False of
        None \<Rightarrow> Stuck CriteriaWrong
      | Some (rs, red) \<Rightarrow>
          Choose (if red
                  then rs @ [retry_remedy (if tree_moved fs then TreeChanged else OutsideTreeChanged)]
                  else rs))"

fun stop_outlook :: "task_cause \<Rightarrow> facts \<Rightarrow> outlook" where
  "stop_outlook (DeviationOwed _) fs = Choose [bare_remedy Accept, bare_remedy SendBack]"
| "stop_outlook ScopeDecisionOwed fs = Stuck Owed"
| "stop_outlook (PreCheck found) fs = pre_check_outlook found fs"
| "stop_outlook (CriterionUnpassable _) fs = Stuck CriteriaWrong"
| "stop_outlook (Task_CommandDenied _) fs = Stuck ProjectDenies"
| "stop_outlook (Unrunnable runs) fs =
     (case runs of
        run # _ \<Rightarrow> retry (CommandRunnable (cr_cmd run))
      | [] \<Rightarrow> outside_outlook)"
| "stop_outlook (Task_SessionRefused refusal) fs = cause_outlook (sr_cause refusal)"
| "stop_outlook (SessionLimited limit) fs = limit_outlook limit fs"
| "stop_outlook (Task_SessionDied _) fs = outside_outlook"
| "stop_outlook (Unmet _ _ _) fs =
     (if tree_moved fs then retry TreeChanged else Stuck TreeUnchanged)"
| "stop_outlook (CarriedWorkNoLongerApplies _) fs =
     (if tree_moved fs then retry TreeChanged else Stuck TreeUnchanged)"

definition stop_blocks :: "task_cause \<Rightarrow> bool" where
  "stop_blocks c =
     (case c of Unrunnable _ \<Rightarrow> True | PreCheck _ \<Rightarrow> True | Task_CommandDenied _ \<Rightarrow> True | _ \<Rightarrow> False)"

definition stop_carried :: "task_cause \<Rightarrow> bool" where
  "stop_carried c = (case c of CarriedWorkNoLongerApplies _ \<Rightarrow> True | _ \<Rightarrow> False)"

definition loop_continuable :: "task_stop list \<Rightarrow> facts \<Rightarrow> bool" where
  "loop_continuable stopped fs =
     (let blocked = list_ex (\<lambda>s. stop_blocks (ts_cause s)) stopped;
          carried = list_ex (\<lambda>s. stop_carried (ts_cause s)) stopped
      in fact_continuable fs \<and> \<not> blocked \<and> (tree_moved fs \<or> \<not> carried))"

text \<open>The accumulator of \<open>stopped_outlook\<close>: remedies, the first reason it is stuck, the wait.\<close>

type_synonym stopped_acc = "remedy list \<times> stuck option \<times> instant option"

fun stopped_step :: "facts \<Rightarrow> stopped_acc \<Rightarrow> task_stop \<Rightarrow> stopped_acc" where
  "stopped_step fs (rs, st, wt) stop =
     (case stop_outlook (ts_cause stop) fs of
        Choose found \<Rightarrow> (foldl push_remedy rs found, st, wt)
      | Stuck reason \<Rightarrow> (rs, or_else st (Some reason), wt)
      | WaitUntil at \<Rightarrow>
          (rs, st, Some (case wt of None \<Rightarrow> at | Some latest \<Rightarrow> max latest at)))"

definition stopped_fold :: "task_stop list \<Rightarrow> facts \<Rightarrow> stopped_acc" where
  "stopped_fold stopped fs =
     foldl (stopped_step fs)
       ((if loop_continuable stopped fs then [bare_remedy ContinueWork] else []), None, None) stopped"

definition stopped_outlook :: "task_stop list \<Rightarrow> facts \<Rightarrow> outlook" where
  "stopped_outlook stopped fs =
     (case stopped_fold stopped fs of
        (_, _, Some at) \<Rightarrow> WaitUntil at
      | (rs, st, None) \<Rightarrow>
          if rs \<noteq> [] then Choose rs
          else (case st of Some reason \<Rightarrow> Stuck reason | None \<Rightarrow> outside_outlook))"

text \<open>\<open>inner\<close> is \<open>failure.remedies(facts)\<close> of the attempt that was refused as unchanged.\<close>

definition unchanged_outlook :: "failure \<Rightarrow> facts \<Rightarrow> outlook \<Rightarrow> outlook" where
  "unchanged_outlook f fs inner =
     (if is_plan_unpassable f then Stuck CriteriaWrong
      else if \<not> tree_moved fs then Stuck TreeUnchanged
      else inner)"

fun remedies :: "failure \<Rightarrow> facts \<Rightarrow> outlook" where
  "remedies (Unset _) fs = Stuck FrozenConfig"
| "remedies (Template _ _) fs = Stuck FrozenConfig"
| "remedies (ArtifactName _ _) fs = Stuck FrozenConfig"
| "remedies (NestedTooDeep _ _ _) fs = Stuck FrozenConfig"
| "remedies (GateArtifactMissing _ _) fs = Stuck FrozenConfig"
| "remedies (CapabilityMissing _ _ _ _ _) fs = Stuck FrozenConfig"
| "remedies (SkillMissing _ _) fs = Stuck FrozenConfig"
| "remedies (ChildRefused _ _) fs = Stuck FrozenConfig"
| "remedies (Confinement _) fs = Stuck FrozenConfig"
| "remedies (FrozenRead _) fs = Stuck FrozenConfig"
| "remedies (FrozenInput _) fs = Stuck Frozen_Input"
| "remedies (PathsDenied _ _) fs = Stuck ProjectDenies"
| "remedies (CommandDenied _) fs = Stuck ProjectDenies"
| "remedies (PlanUnpassable _) fs = Stuck CriteriaWrong"
| "remedies (GateChose _ _ _ _) fs = Stuck Final"
| "remedies (TestsAccepted _ _) fs = Stuck Final"
| "remedies (LoopCapped _ _) fs = retry CapLifted"
| "remedies (ScopeOwed _) fs = owed_scope_outlook fs"
| "remedies (SessionRefused refusal) fs = cause_outlook (sr_cause refusal)"
| "remedies (Limit limit) fs = limit_outlook limit fs"
| "remedies (TasksStopped stopped) fs = stopped_outlook stopped fs"
| "remedies (Red _) fs = tree_outlook fs"
| "remedies (Artifacts _) fs = tree_outlook fs"
| "remedies (Unchanged _ f) fs = unchanged_outlook f fs (remedies f fs)"
| "remedies (ScopeViolated _) fs = scope_outlook fs"
| "remedies (ScopeRequested _) fs = scope_outlook fs"
| "remedies (Exited _) fs = retry (exited_precondition fs)"
| "remedies (RunnerUnresolved _ refusal) fs = runner_outlook refusal"
| "remedies (ChildFailed _ (Some child)) fs = remedies child fs"
| "remedies (ChildFailed _ None) fs = outside_outlook"
| "remedies (SessionNotStopped _ _) fs = outside_outlook"
| "remedies (TimedOut _ _) fs = outside_outlook"
| "remedies (TokenBudget _ _) fs = outside_outlook"
| "remedies (ArtifactUnreadable _ _) fs = outside_outlook"
| "remedies (MountUnreachable _) fs = outside_outlook"
| "remedies (EngineFailed _) fs = outside_outlook"
| "remedies (SessionDied _) fs = outside_outlook"
| "remedies (Message _) fs = outside_outlook"
| "remedies (ChildrenFailed _ _) fs = outside_outlook"
| "remedies (Uncertain _) fs = outside_outlook"
| "remedies (Rejected _ _) fs = outside_outlook"
| "remedies (SentBack _) fs = outside_outlook"
| "remedies (FindingsOpen _ _) fs = outside_outlook"
| "remedies (Interrupted _) fs = outside_outlook"
| "remedies (ChangesRequested_F _ _ _) fs = outside_outlook"
| "remedies (PullRequestClosed_F _) fs = outside_outlook"
| "remedies (LoopStalled _) fs = outside_outlook"
| "remedies (NoTasksDocument _) fs = outside_outlook"


section \<open>What every menu promises\<close>

definition menu_ok :: "remedy list \<Rightarrow> bool" where
  "menu_ok rs \<longleftrightarrow> distinct rs \<and>
     (\<forall>r \<in> set rs. rem_option r = Retry \<longrightarrow> rem_precondition r \<noteq> None)"

definition outlook_ok :: "facts \<Rightarrow> outlook \<Rightarrow> bool" where
  "outlook_ok fs out =
     (case out of
        WaitUntil at \<Rightarrow> failed_at fs < at
      | Choose rs \<Rightarrow> rs \<noteq> [] \<and> menu_ok rs
      | Stuck _ \<Rightarrow> True)"

lemma outlook_ok_simps [simp]:
  "outlook_ok fs (WaitUntil at) \<longleftrightarrow> failed_at fs < at"
  "outlook_ok fs (Choose rs) \<longleftrightarrow> rs \<noteq> [] \<and> menu_ok rs"
  "outlook_ok fs (Stuck r)"
  by (simp_all add: outlook_ok_def)

lemma menu_ok_Nil [simp]: "menu_ok []"
  by (simp add: menu_ok_def)

lemma menu_ok_single: "rem_option r = Retry \<longrightarrow> rem_precondition r \<noteq> None \<Longrightarrow> menu_ok [r]"
  by (simp add: menu_ok_def)

lemma menu_ok_push:
  "menu_ok rs \<Longrightarrow> rem_option r = Retry \<longrightarrow> rem_precondition r \<noteq> None \<Longrightarrow> menu_ok (push_remedy rs r)"
  by (auto simp: menu_ok_def push_remedy_def)

lemma push_remedy_set [simp]: "set (push_remedy rs r) = insert r (set rs)"
  by (auto simp: push_remedy_def)

lemma push_remedy_not_Nil [simp]: "push_remedy rs r \<noteq> []"
  by (auto simp: push_remedy_def)

lemma foldl_push_set [simp]: "set (foldl push_remedy rs found) = set rs \<union> set found"
  by (induction found arbitrary: rs) auto

lemma menu_ok_foldl_push:
  "menu_ok rs \<Longrightarrow> menu_ok found \<Longrightarrow> menu_ok (foldl push_remedy rs found)"
proof (induction found arbitrary: rs)
  case Nil
  then show ?case by simp
next
  case (Cons r found)
  then have "menu_ok (push_remedy rs r)" by (intro menu_ok_push) (auto simp: menu_ok_def)
  moreover from Cons.prems have "menu_ok found" by (simp add: menu_ok_def)
  ultimately show ?case using Cons.IH by simp
qed

lemma foldl_push_not_Nil: "rs \<noteq> [] \<or> found \<noteq> [] \<Longrightarrow> foldl push_remedy rs found \<noteq> []"
  by (metis Un_empty foldl_push_set set_empty)

lemma retry_remedy_sel [simp]:
  "rem_option (retry_remedy p) = Retry" "rem_precondition (retry_remedy p) = Some p"
  by (simp_all add: retry_remedy_def)

lemma bare_remedy_sel [simp]:
  "rem_option (bare_remedy opt) = opt" "rem_precondition (bare_remedy opt) = None"
  by (simp_all add: bare_remedy_def)

lemma retry_ok [simp]: "outlook_ok fs (retry p)"
  by (simp add: retry_def menu_ok_def)

lemma outside_ok [simp]: "outlook_ok fs outside_outlook"
  by (simp add: outside_outlook_def)

lemma cause_outlook_ok [simp]: "outlook_ok fs (cause_outlook c)"
  by (cases c) simp_all

lemma limit_outlook_ok [simp]: "outlook_ok fs (limit_outlook l fs)"
  by (simp add: limit_outlook_def split: option.split)

lemma pre_check_loop_ok:
  assumes "pre_check_loop ss rs red = Some (rs', red')"
    and "menu_ok rs" "\<forall>r \<in> set rs. \<exists>cmd. r = retry_remedy (CommandRunnable cmd)"
  shows "menu_ok rs' \<and> (\<forall>r \<in> set rs'. \<exists>cmd. r = retry_remedy (CommandRunnable cmd))
    \<and> (rs' \<noteq> [] \<or> red' \<or> (ss = [] \<and> rs = [])) \<and> (rs \<noteq> [] \<longrightarrow> rs' \<noteq> []) \<and> (red \<longrightarrow> red')"
  using assms
proof (induction ss rs red rule: pre_check_loop.induct)
  case (1 rs red)
  then show ?case by auto
next
  case (2 s ss rs red)
  show ?case
  proof (cases s)
    case (TrivialCriterion cmd)
    with "2.prems" show ?thesis by simp
  next
    case (BrokenGuard cmd proves)
    with "2.IH"(1) [OF BrokenGuard] "2.prems" BrokenGuard show ?thesis by auto
  next
    case (Unrunnable_Found cmd code)
    let ?rs = "push_remedy rs (retry_remedy (CommandRunnable cmd))"
    have "menu_ok ?rs" using "2.prems"(2) by (intro menu_ok_push) simp_all
    with "2.IH"(2) [OF Unrunnable_Found] "2.prems" Unrunnable_Found show ?thesis by auto
  qed
qed

lemma retry_remedy_inj [simp]: "retry_remedy p = retry_remedy q \<longleftrightarrow> p = q"
  by (simp add: retry_remedy_def)

lemma pre_check_outlook_ok [simp]: "outlook_ok fs (pre_check_outlook found fs)"
proof (cases "pre_check_loop (as_slice found) [] False")
  case None
  then show ?thesis by (simp add: pre_check_outlook_def)
next
  case (Some a)
  obtain rs red where a: "a = (rs, red)" by (cases a)
  from pre_check_loop_ok [OF Some [unfolded a]]
  have ok: "menu_ok rs" "\<forall>r \<in> set rs. \<exists>cmd. r = retry_remedy (CommandRunnable cmd)"
    "rs \<noteq> [] \<or> red"
    by auto
  have fresh: "retry_remedy (if tree_moved fs then TreeChanged else OutsideTreeChanged) \<notin> set rs"
    using ok(2) by (auto simp del: if_image_distrib split: if_splits)
  show ?thesis
    using Some a ok fresh by (auto simp: pre_check_outlook_def menu_ok_def)
qed

lemma stop_outlook_ok [simp]: "outlook_ok fs (stop_outlook c fs)"
  by (cases c) (auto simp: menu_ok_def bare_remedy_def split: list.split)

lemma stopped_step_ok:
  assumes "menu_ok rs" "is_none_or wt (\<lambda>t. failed_at fs < t)"
    and "stopped_step fs (rs, st, wt) stop = (rs', st', wt')"
  shows "menu_ok rs' \<and> is_none_or wt' (\<lambda>t. failed_at fs < t)"
proof (cases "stop_outlook (ts_cause stop) fs")
  case (WaitUntil at)
  then have "failed_at fs < at"
    using stop_outlook_ok [of fs "ts_cause stop"] by (simp del: stop_outlook_ok)
  with WaitUntil assms show ?thesis by (auto split: option.splits)
next
  case (Choose found)
  then have "menu_ok found"
    using stop_outlook_ok [of fs "ts_cause stop"] by (simp del: stop_outlook_ok)
  with Choose assms show ?thesis by (auto intro: menu_ok_foldl_push)
next
  case (Stuck reason)
  with assms show ?thesis by auto
qed

lemma stopped_foldl_ok:
  "menu_ok rs \<Longrightarrow> is_none_or wt (\<lambda>t. failed_at fs < t)
     \<Longrightarrow> foldl (stopped_step fs) (rs, st, wt) stopped = (rs', st', wt')
     \<Longrightarrow> menu_ok rs' \<and> is_none_or wt' (\<lambda>t. failed_at fs < t)"
proof (induction stopped arbitrary: rs st wt)
  case Nil
  then show ?case by simp
next
  case (Cons stop stopped)
  obtain rs1 st1 wt1 where step: "stopped_step fs (rs, st, wt) stop = (rs1, st1, wt1)"
    by (cases "stopped_step fs (rs, st, wt) stop")
  with Cons.prems(3) have rest: "foldl (stopped_step fs) (rs1, st1, wt1) stopped = (rs', st', wt')"
    by (simp del: stopped_step.simps)
  from stopped_step_ok [OF Cons.prems(1,2) step]
  have "menu_ok rs1" "is_none_or wt1 (\<lambda>t. failed_at fs < t)" by simp_all
  then show ?case using rest by (rule Cons.IH)
qed

lemma stopped_outlook_ok [simp]: "outlook_ok fs (stopped_outlook stopped fs)"
proof -
  obtain rs st wt where f: "stopped_fold stopped fs = (rs, st, wt)"
    by (cases "stopped_fold stopped fs")
  have "menu_ok (if loop_continuable stopped fs then [bare_remedy ContinueWork] else [])"
    by (simp add: menu_ok_def)
  from stopped_foldl_ok [OF this _ f [unfolded stopped_fold_def]]
  have "menu_ok rs \<and> is_none_or wt (\<lambda>t. failed_at fs < t)" by simp
  with f show ?thesis by (auto simp: stopped_outlook_def split: option.split)
qed

lemma unchanged_outlook_ok: "outlook_ok fs inner \<Longrightarrow> outlook_ok fs (unchanged_outlook f fs inner)"
  by (simp add: unchanged_outlook_def)

lemma remedies_ok: "outlook_ok fs (remedies f fs)"
  by (induction f fs rule: remedies.induct)
    (auto simp: tree_outlook_def scope_outlook_def owed_scope_outlook_def runner_outlook_def
      menu_ok_def bare_remedy_def unchanged_outlook_ok split: runner_refusal.split)

section \<open>A loop whose tasks stopped\<close>

text \<open>The resets the stops of a loop wait for.\<close>

definition waits_of :: "facts \<Rightarrow> task_stop list \<Rightarrow> instant set" where
  "waits_of fs stopped = {at. \<exists>s \<in> set stopped. stop_outlook (ts_cause s) fs = WaitUntil at}"

lemma waits_of_simps [simp]:
  "waits_of fs [] = {}"
  "waits_of fs (s # ss) =
     (case stop_outlook (ts_cause s) fs of WaitUntil at \<Rightarrow> {at} | _ \<Rightarrow> {}) \<union> waits_of fs ss"
  by (auto simp: waits_of_def split: outlook.split)

lemma stop_outlook_WaitUntil_iff:
  "stop_outlook c fs = WaitUntil at \<longleftrightarrow>
     (\<exists>l. c = SessionLimited l \<and> resets_at l = Some at \<and> failed_at fs < at)"
proof (cases c)
  case (Task_SessionRefused r)
  then show ?thesis by (cases "sr_cause r") (simp_all add: retry_def)
qed (auto simp: pre_check_outlook_def retry_def outside_outlook_def limit_outlook_def
    split: option.splits list.splits)

definition latest :: "instant option \<Rightarrow> instant set \<Rightarrow> instant option \<Rightarrow> bool" where
  "latest start ws result =
     (case result of
        None \<Rightarrow> start = None \<and> ws = {}
      | Some t \<Rightarrow> t \<in> set_option start \<union> ws \<and> (\<forall>u \<in> set_option start \<union> ws. u \<le> t))"

lemma stopped_foldl_wait:
  "foldl (stopped_step fs) (rs, st, wt) stopped = (rs', st', wt') \<Longrightarrow> latest wt (waits_of fs stopped) wt'"
proof (induction stopped arbitrary: rs st wt)
  case Nil
  then show ?case by (simp add: latest_def split: option.split)
next
  case (Cons s stopped)
  obtain rs1 st1 wt1 where step: "stopped_step fs (rs, st, wt) s = (rs1, st1, wt1)"
    by (cases "stopped_step fs (rs, st, wt) s")
  with Cons.prems have "foldl (stopped_step fs) (rs1, st1, wt1) stopped = (rs', st', wt')"
    by (simp del: stopped_step.simps)
  then have "latest wt1 (waits_of fs stopped) wt'" by (rule Cons.IH)
  with step show ?case
    by (auto simp: latest_def max_def split: outlook.splits option.splits if_splits)
qed

lemma stopped_outlook_wait:
  "stopped_outlook stopped fs = WaitUntil t \<longleftrightarrow>
     t \<in> waits_of fs stopped \<and> (\<forall>u \<in> waits_of fs stopped. u \<le> t)"
proof -
  obtain rs st wt where f: "stopped_fold stopped fs = (rs, st, wt)"
    by (cases "stopped_fold stopped fs")
  have l: "latest None (waits_of fs stopped) wt"
    by (rule stopped_foldl_wait [OF f [unfolded stopped_fold_def]])
  show ?thesis
  proof (cases wt)
    case None
    with f l show ?thesis
      by (auto simp: stopped_outlook_def latest_def outside_outlook_def retry_def split: option.splits)
  next
    case (Some u)
    with f l show ?thesis
      by (auto simp: stopped_outlook_def latest_def intro: order_antisym)
  qed
qed

lemma push_ContinueWork:
  "bare_remedy ContinueWork \<in> set (foldl push_remedy rs found)
     \<longleftrightarrow> bare_remedy ContinueWork \<in> set rs \<or> bare_remedy ContinueWork \<in> set found"
  by simp

lemma stop_offers_no_continue: "stop_outlook c fs = Choose rs \<Longrightarrow> bare_remedy ContinueWork \<notin> set rs"
proof (cases c)
  case (PreCheck found)
  assume "stop_outlook c fs = Choose rs"
  with PreCheck obtain rs0 red where
    l: "pre_check_loop (as_slice found) [] False = Some (rs0, red)"
    and rs: "rs = (if red then rs0 @ [retry_remedy (if tree_moved fs then TreeChanged else OutsideTreeChanged)]
                   else rs0)"
    by (auto simp: pre_check_outlook_def split: option.splits)
  from pre_check_loop_ok [OF l] have "\<forall>r \<in> set rs0. \<exists>cmd. r = retry_remedy (CommandRunnable cmd)"
    by simp
  then show ?thesis using rs by (auto simp: retry_remedy_def bare_remedy_def)
next
  case (Task_SessionRefused r)
  assume "stop_outlook c fs = Choose rs"
  with Task_SessionRefused show ?thesis
    by (cases "sr_cause r") (auto simp: retry_def retry_remedy_def bare_remedy_def)
qed (auto simp: retry_def outside_outlook_def retry_remedy_def bare_remedy_def limit_outlook_def
    split: list.splits option.splits if_splits)

lemma stopped_foldl_continue:
  "foldl (stopped_step fs) (rs, st, wt) stopped = (rs', st', wt')
     \<Longrightarrow> bare_remedy ContinueWork \<in> set rs' \<longleftrightarrow> bare_remedy ContinueWork \<in> set rs"
proof (induction stopped arbitrary: rs st wt)
  case Nil
  then show ?case by simp
next
  case (Cons s stopped)
  obtain rs1 st1 wt1 where step: "stopped_step fs (rs, st, wt) s = (rs1, st1, wt1)"
    by (cases "stopped_step fs (rs, st, wt) s")
  with Cons.prems have "foldl (stopped_step fs) (rs1, st1, wt1) stopped = (rs', st', wt')"
    by (simp del: stopped_step.simps)
  then have "bare_remedy ContinueWork \<in> set rs' \<longleftrightarrow> bare_remedy ContinueWork \<in> set rs1"
    by (rule Cons.IH)
  with step show ?case
    by (auto dest: stop_offers_no_continue split: outlook.splits)
qed

lemma stopped_offers_continue:
  assumes "stopped_outlook stopped fs = Choose rs"
  shows "bare_remedy ContinueWork \<in> set rs \<longleftrightarrow> loop_continuable stopped fs"
proof -
  obtain rs0 st wt where f: "stopped_fold stopped fs = (rs0, st, wt)"
    by (cases "stopped_fold stopped fs")
  have "bare_remedy ContinueWork \<in> set rs0 \<longleftrightarrow> loop_continuable stopped fs"
    using stopped_foldl_continue [OF f [unfolded stopped_fold_def]]
    by (simp split: if_splits)
  with f assms show ?thesis
    by (auto simp: stopped_outlook_def outside_outlook_def retry_def retry_remedy_def bare_remedy_def
        split: option.splits if_splits)
qed

section \<open>The properties\<close>

text \<open>C40. Whatever failed and whatever the log says beside it, the outlook a failure gives is sound: a
  wait lies strictly after the failure, a menu is never empty and lists no option twice, and a
  retry on it names the input it waits for.\<close>

theorem failure_outlook_sound: "outlook_ok fs (remedies f fs)"
  by (rule remedies_ok)

text \<open>A loop's failure waits exactly when some task of it stopped on an account limit that lifts
  after the failure, and it waits for the latest of those resets.\<close>

lemma stopped_loop_waits_for_latest:
  "remedies (TasksStopped stopped) fs = WaitUntil t \<longleftrightarrow>
     t \<in> waits_of fs stopped \<and> (\<forall>u \<in> waits_of fs stopped. u \<le> t)"
  by (simp add: stopped_outlook_wait)

text \<open>When a stopped loop leaves a person a choice, continuing its work is on the menu exactly when
  the loop can be continued: the node's work is kept, no task is blocked on a command, a pre-check
  or a denied command, and work that no longer applies has a moved tree to apply to.\<close>

lemma stopped_loop_offers_continue:
  assumes "remedies (TasksStopped stopped) fs = Choose rs"
  shows "bare_remedy ContinueWork \<in> set rs \<longleftrightarrow> loop_continuable stopped fs"
  using assms by (simp add: stopped_offers_continue)

end
