(* ===== verification/Globs.thy ===== *)
theory Globs
  imports Failures "HOL-Library.Sublist"
begin

text \<open>
  Scope globs (\<open>glob.rs\<close>). A glob is its text; whether globset compiles a text and which paths a
  compiled glob matches are parameters (\<open>compiles\<close>, \<open>matches\<close>), since globset is not part of
  the repository. What is modelled is the repository's own reading of the text: the glob that
  selects exactly one path and its reading back, the literal prefix and suffix, the directory a
  glob lies under, and the overlap test that refuses a grant or a request. The lemmas show the
  exact glob round-trips and the overlap test never misses a common file.

  What the overlap test needs of globset is \<open>reads_globs\<close>. A leading \<open>**/\<close> selects a path at the root
  too (\<open>**/AGENTS.md\<close> selects \<open>AGENTS.md\<close>), so a selected path need not end with the text after the
  last \<open>*\<close>; it does when a \<open>/\<close> is put before it. \<open>globset_matches\<close> is an executable reading of
  globset's documented syntax (no alternation, classes of one character) that satisfies it.
\<close>

text \<open>The characters globset reads as syntax.\<close>

definition class_chars :: "char list" where
  "class_chars = ''?*[]{}''"

definition wild_chars :: "char list" where
  "wild_chars = ''*?[{''"

abbreviation (input) bslash :: char where "bslash \<equiv> CHR 0x5C"

definition literal_text :: "path \<Rightarrow> string" where
  "literal_text p = concat (map (\<lambda>c.
     if c \<in> set class_chars then [CHR ''['', c, CHR '']'']
     else if c = bslash then [bslash, bslash]
     else [c]) p)"

definition glob_exact :: "(string \<Rightarrow> bool) \<Rightarrow> path \<Rightarrow> string + scope_glob" where
  "glob_exact compiles p =
     (let t = literal_text p in if compiles t then Inr t else Inl t)"

fun exact_chars :: "string \<Rightarrow> path option" where
  "exact_chars [] = Some []"
| "exact_chars (c # cs) =
     (if c = CHR ''['' then
        (case cs of
           inner # close # rest \<Rightarrow>
             if close = CHR '']'' then map_option ((#) inner) (exact_chars rest) else None
         | _ \<Rightarrow> None)
      else if c = bslash then
        (case cs of next_c # rest \<Rightarrow> map_option ((#) next_c) (exact_chars rest) | [] \<Rightarrow> None)
      else if c \<in> set ''*?]{}'' then None
      else map_option ((#) c) (exact_chars cs))"

definition exact_path :: "scope_glob \<Rightarrow> path option" where
  "exact_path g = exact_chars g"

definition glob_under :: "(string \<Rightarrow> bool) \<Rightarrow> path \<Rightarrow> string + scope_glob" where
  "glob_under compiles p =
     (let t = literal_text p @ ''/**'' in if compiles t then Inr t else Inl t)"

definition has_any :: "char list \<Rightarrow> string \<Rightarrow> bool" where
  "has_any cs text \<longleftrightarrow> list_ex (\<lambda>c. c \<in> set cs) text"

definition glob_prefix :: "scope_glob \<Rightarrow> string" where
  "glob_prefix text =
     (if bslash \<in> set text then [] else takeWhile (\<lambda>c. c \<notin> set wild_chars) text)"

text \<open>The text after the last \<open>*\<close>, or the whole text when it has none.\<close>

definition after_star :: "string \<Rightarrow> string" where
  "after_star text = rev (takeWhile (\<lambda>c. c \<noteq> CHR ''*'') (rev text))"

definition glob_suffix :: "scope_glob \<Rightarrow> string" where
  "glob_suffix text =
     (if bslash \<in> set text then []
      else let after = after_star text in if has_any ''?[]{}'' after then [] else after)"

definition glob_literal :: "scope_glob \<Rightarrow> string option" where
  "glob_literal text = (if has_any (wild_chars @ [bslash]) text then None else Some text)"

text \<open>Everything before the last \<open>/\<close>; \<open>None\<close> for a text without one.\<close>

definition before_last_slash :: "string \<Rightarrow> string option" where
  "before_last_slash text =
     (if CHR ''/'' \<in> set text
      then Some (rev (tl (dropWhile (\<lambda>c. c \<noteq> CHR ''/'') (rev text))))
      else None)"

definition glob_tree :: "scope_glob \<Rightarrow> string option" where
  "glob_tree g = filter_opt (\<lambda>t. t \<noteq> []) (before_last_slash (glob_prefix g))"

definition strip_suffix :: "string \<Rightarrow> string \<Rightarrow> string option" where
  "strip_suffix text s =
     (if suffix s text then Some (take (length text - length s) text) else None)"

definition whole_tree :: "scope_glob \<Rightarrow> string option" where
  "whole_tree text =
     (case or_else (strip_suffix text ''/**/*'') (strip_suffix text ''/**'') of
        None \<Rightarrow> None
      | Some dir \<Rightarrow> if dir \<noteq> [] \<and> \<not> has_any (wild_chars @ [bslash]) dir then Some dir else None)"

definition might_overlap :: "(scope_glob \<Rightarrow> path \<Rightarrow> bool) \<Rightarrow> scope_glob \<Rightarrow> scope_glob \<Rightarrow> bool" where
  "might_overlap matches a b =
     (case (glob_literal a, glob_literal b) of
        (Some p, _) \<Rightarrow> matches b p
      | (_, Some p) \<Rightarrow> matches a p
      | (None, None) \<Rightarrow>
          (let pa = glob_prefix a; pb = glob_prefix b; sa = glob_suffix a; sb = glob_suffix b
           in (prefix pb pa \<or> prefix pa pb) \<and> (suffix sb sa \<or> suffix sa sb)))"

definition reaches_any :: "(scope_glob \<Rightarrow> path \<Rightarrow> bool) \<Rightarrow> scope_glob \<Rightarrow> scope_glob list \<Rightarrow> bool" where
  "reaches_any matches g denied = list_ex (\<lambda>d. might_overlap matches g d) denied"

fun join_with :: "string \<Rightarrow> string list \<Rightarrow> string" where
  "join_with sep [] = []"
| "join_with sep [s] = s"
| "join_with sep (s # ss) = s @ sep @ join_with sep ss"

definition listed_globs :: "scope_glob list \<Rightarrow> string" where
  "listed_globs gs = join_with '', '' gs"

section \<open>Reading an exact glob back\<close>

lemma exact_chars_plain:
  "c \<notin> set class_chars \<Longrightarrow> c \<noteq> bslash \<Longrightarrow> exact_chars (c # cs) = map_option ((#) c) (exact_chars cs)"
  by (simp add: class_chars_def)

lemma exact_chars_class: "exact_chars (CHR ''['' # c # CHR '']'' # cs) = map_option ((#) c) (exact_chars cs)"
  by simp

lemma exact_chars_escape: "exact_chars (bslash # c # cs) = map_option ((#) c) (exact_chars cs)"
  by simp

lemma exact_chars_literal: "exact_chars (literal_text p) = Some p"
proof (induction p)
  case Nil
  then show ?case by (simp add: literal_text_def)
next
  case (Cons c p)
  have step: "literal_text (c # p) =
      (if c \<in> set class_chars then [CHR ''['', c, CHR '']'']
       else if c = bslash then [bslash, bslash] else [c]) @ literal_text p"
    by (simp add: literal_text_def)
  consider "c \<in> set class_chars" | "c \<notin> set class_chars" "c = bslash"
    | "c \<notin> set class_chars" "c \<noteq> bslash"
    by blast
  then show ?case
  proof cases
    case 1
    then show ?thesis using Cons.IH unfolding step by (simp del: exact_chars.simps add: exact_chars_class)
  next
    case 2
    then show ?thesis using Cons.IH unfolding step by (simp del: exact_chars.simps add: exact_chars_escape)
  next
    case 3
    then show ?thesis using Cons.IH unfolding step by (simp del: exact_chars.simps add: exact_chars_plain)
  qed
qed

section \<open>The overlap test\<close>

text \<open>
  What the code relies on in globset: a text free of syntax matches itself and nothing else, and a
  path a glob matches begins with the text before the first wildcard and, read from the root
  (\<open>/\<close> before it), ends with the text after the last \<open>*\<close>.
\<close>

definition reads_globs :: "(scope_glob \<Rightarrow> path \<Rightarrow> bool) \<Rightarrow> bool" where
  "reads_globs matches \<longleftrightarrow>
     (\<forall>g p. glob_literal g = Some g \<longrightarrow> (matches g p \<longleftrightarrow> p = g)) \<and>
     (\<forall>g p. matches g p \<longrightarrow> prefix (glob_prefix g) p \<and> suffix (glob_suffix g) (CHR ''/'' # p))"

lemma glob_literal_Some: "glob_literal g = Some t \<longleftrightarrow> t = g \<and> glob_literal g = Some g"
  by (auto simp: glob_literal_def)

text \<open>
  An executable reading of globset's syntax with \<open>literal_separator\<close>: \<open>?\<close> and \<open>*\<close> stay within a
  component, \<open>**/\<close> at the start of a component is any number of components, \<open>**\<close> as the last component
  is everything below, a class of one character and an escape are that character. Alternations and
  longer classes are outside the reading and select nothing. The flag says whether the glob is at the
  start of a component.
\<close>

fun past_slash :: "string \<Rightarrow> string option" where
  "past_slash [] = None"
| "past_slash (c # cs) = (if c = CHR ''/'' then Some cs else past_slash cs)"

lemma past_slash_shorter [termination_simp]: "past_slash p = Some q \<Longrightarrow> length q < length p"
  by (induction p) (auto split: if_splits)

lemma past_slash_suffix: "past_slash p = Some q \<Longrightarrow> suffix (CHR ''/'' # q) p"
  by (induction p) (auto split: if_splits intro: suffix_ConsI)

fun selects_from :: "bool \<Rightarrow> string \<Rightarrow> path \<Rightarrow> bool" where
  "selects_from start [] p = (p = [])"
| "selects_from start (c # g) p =
     (if c = CHR ''*'' then
        (if start \<and> g = ''*'' then True
         else if start \<and> prefix ''*/'' g then
           selects_from True (drop 2 g) p \<or>
           (case past_slash p of None \<Rightarrow> False | Some q \<Rightarrow> selects_from True (c # g) q)
         else selects_from False g p \<or>
           (case p of [] \<Rightarrow> False | x # q \<Rightarrow> x \<noteq> CHR ''/'' \<and> selects_from False (c # g) q))
      else case p of
        [] \<Rightarrow> False
      | x # q \<Rightarrow>
          if c = CHR ''?'' then x \<noteq> CHR ''/'' \<and> selects_from False g q
          else if c = bslash then (case g of [] \<Rightarrow> False | d # g' \<Rightarrow> x = d \<and> selects_from False g' q)
          else if c = CHR ''['' then
            (case g of d # e # g' \<Rightarrow> e = CHR '']'' \<and> x = d \<and> selects_from False g' q | _ \<Rightarrow> False)
          else if c = CHR ''{'' then False
          else x = c \<and> selects_from (c = CHR ''/'') g q)"

definition globset_matches :: "scope_glob \<Rightarrow> path \<Rightarrow> bool" where
  "globset_matches g p = selects_from True g p"

declare selects_from.simps(2) [simp del]

lemma literal_prefix: "glob_literal g = Some t \<Longrightarrow> glob_prefix g = g"
  by (auto simp: glob_literal_def glob_prefix_def has_any_def list_ex_iff wild_chars_def
      takeWhile_eq_all_conv split: if_splits)

lemma after_star_suffix: "suffix (after_star g) g"
  using suffix_def [of "after_star g" g] takeWhile_dropWhile_id [of "\<lambda>c. c \<noteq> CHR ''*''" "rev g"]
  by (metis after_star_def rev_append rev_rev_ident)

lemma glob_suffix_suffix: "suffix (glob_suffix g) g"
  by (simp add: glob_suffix_def Let_def after_star_suffix)

lemma selects_plain:
  "c \<notin> set (wild_chars @ [bslash]) \<Longrightarrow>
     selects_from start (c # g) p = (\<exists>q. p = c # q \<and> selects_from (c = CHR ''/'') g q)"
  by (auto simp: selects_from.simps(2) wild_chars_def split: list.split)

lemma selects_literal:
  "\<not> has_any (wild_chars @ [bslash]) g \<Longrightarrow> selects_from start g p = (p = g)"
  by (induction g arbitrary: start p) (auto simp: has_any_def selects_plain)

lemma selects_prefix:
  "bslash \<notin> set g \<Longrightarrow> selects_from start g p \<Longrightarrow> prefix (takeWhile (\<lambda>c. c \<notin> set wild_chars) g) p"
  by (induction g arbitrary: start p) (auto simp: selects_plain)

lemma takeWhile_snoc: "takeWhile P (xs @ [x]) = (if \<forall>y \<in> set xs. P y then xs @ takeWhile P [x] else takeWhile P xs)"
  by (induction xs) auto

lemma after_star_Cons: "after_star (c # g) = (if CHR ''*'' \<in> set (c # g) then after_star g else c # g)"
  by (cases "CHR ''*'' \<in> set g") (auto simp: after_star_def takeWhile_snoc takeWhile_eq_all_conv [THEN iffD2])

lemma after_star_none: "CHR ''*'' \<notin> set g \<Longrightarrow> after_star g = g"
  by (cases g) (auto simp: after_star_Cons after_star_def)

text \<open>Past its last star a glob is literal.\<close>

lemma selects_tail:
  assumes "CHR ''*'' \<notin> set g" "bslash \<notin> set g" "\<not> has_any ''?[]{}'' (after_star g)"
  shows "selects_from start g p = (p = g)"
  using assms by (intro selects_literal) (auto simp: after_star_none has_any_def list_ex_iff wild_chars_def)

lemma selects_star:
  assumes "selects_from start (CHR ''*'' # g) p"
  shows "(start \<and> g = ''*'') \<or>
    (\<exists>r. start \<and> g = ''*/'' @ r \<and>
      (selects_from True r p \<or> (\<exists>q. past_slash p = Some q \<and> selects_from True (CHR ''*'' # g) q))) \<or>
    selects_from False g p \<or> (\<exists>x q. p = x # q \<and> selects_from False (CHR ''*'' # g) q)"
  using assms
  by (subst (asm) selects_from.simps(2))
    (auto simp: prefix_def split: if_splits option.splits list.splits)

lemma selects_char:
  assumes "selects_from start (c # g) p" "c \<noteq> CHR ''*''" "c \<noteq> bslash"
  shows "\<exists>x q. p = x # q \<and>
    (selects_from False g q \<or> (c = CHR ''/'' \<and> x = c \<and> selects_from True g q) \<or>
     (c = CHR ''['' \<and> (\<exists>d h. g = d # CHR '']'' # h \<and> selects_from False h q)))"
  using assms
  by (subst (asm) selects_from.simps(2))
    (cases "c = CHR ''/''"; auto split: list.splits if_splits)

lemma selects_suffix:
  assumes "selects_from start g p" "bslash \<notin> set g" "\<not> has_any ''?[]{}'' (after_star g)"
  shows "suffix (after_star g) (if start then CHR ''/'' # p else p)"
  using assms
proof (induction "length g + length p" arbitrary: start g p rule: less_induct)
  case less
  note plain = less.prems(2,3)
  show ?case
  proof (cases "CHR ''*'' \<in> set g")
    case False
    then have "p = g" using selects_tail [OF False plain] less.prems(1) by simp
    then show ?thesis by (simp add: after_star_none [OF False] suffix_ConsI)
  next
    case True
    then obtain c h where g: "g = c # h" by (cases g) auto
    have rest: "after_star g = after_star h" using True unfolding g by (simp add: after_star_Cons)
    have inner: "suffix (after_star h) (if st then CHR ''/'' # q else q)"
      if "selects_from st h q" "length q \<le> length p" for st q
      using less.hyps [of h q st] that plain unfolding rest unfolding g by simp
    have again: "suffix (after_star g) (if st then CHR ''/'' # q else q)"
      if "selects_from st g q" "length q < length p" for st q
      using less.hyps [of g q st] that plain by simp
    have widen: "suffix s (CHR ''/'' # p)" if "suffix s p" for s using that by (rule suffix_ConsI)
    show ?thesis
    proof (cases "c = CHR ''*''")
      case star: True
      from selects_star [of start h p] less.prems(1) star g
      consider (all) "h = ''*''"
        | (over) r where "start" "h = ''*/'' @ r" "selects_from True r p"
        | (deep) q where "start" "past_slash p = Some q" "selects_from True g q"
        | (out) "selects_from False h p"
        | (eat) x q where "p = x # q" "selects_from False g q"
        by blast
      then show ?thesis
      proof cases
        case all
        then show ?thesis unfolding rest by (simp add: after_star_def)
      next
        case over
        show ?thesis
        proof (cases "CHR ''*'' \<in> set r")
          case True
          then have "after_star g = after_star r" unfolding rest over(2) by (simp add: after_star_Cons)
          then show ?thesis using less.hyps [of r p True] over plain g by simp
        next
          case False
          then have tail: "after_star g = CHR ''/'' # r" unfolding rest over(2)
            by (simp add: after_star_Cons)
          then have "\<not> has_any ''?[]{}'' (after_star r)" using plain(2) False
            by (simp add: has_any_def after_star_none)
          with selects_tail [OF False] over plain(1) g have "p = r" by simp
          then show ?thesis using over(1) tail by simp
        qed
      next
        case deep
        have "suffix (after_star g) (CHR ''/'' # q)"
          using again [of True q] deep past_slash_shorter by simp
        then have "suffix (after_star g) p" using past_slash_suffix [OF deep(2)] by (rule suffix_order.trans)
        then show ?thesis by (simp add: widen)
      next
        case out
        then have "suffix (after_star g) p" using inner [of False p] rest by simp
        then show ?thesis by (simp add: widen)
      next
        case eat
        then have "suffix (after_star g) q" using again [of False q] by simp
        then show ?thesis using eat(1) by (simp add: suffix_ConsI)
      qed
    next
      case False
      from less.prems(1) False g obtain x q where p: "p = x # q"
        and next_c: "selects_from False h q \<or> (c = CHR ''/'' \<and> x = c \<and> selects_from True h q) \<or>
          (c = CHR ''['' \<and> (\<exists>d h'. h = d # CHR '']'' # h' \<and> selects_from False h' q))"
        using plain(1) selects_char [of start c h p] by auto
      from next_c show ?thesis
      proof (elim disjE conjE exE)
        assume "selects_from False h q"
        then show ?thesis using inner [of False q] p rest by (simp add: suffix_ConsI)
      next
        assume "c = CHR ''/''" "x = c" "selects_from True h q"
        then show ?thesis using inner [of True q] p rest by (auto intro: suffix_ConsI)
      next
        fix d h' assume h: "h = d # CHR '']'' # h'" "selects_from False h' q"
        have "CHR ''*'' \<in> set h'"
          using plain(2) rest h(1) by (auto simp: after_star_Cons after_star_none has_any_def split: if_splits)
        then have "after_star g = after_star h'" unfolding rest h(1) by (simp add: after_star_Cons)
        with less.hyps [of h' q False] h plain g p show ?thesis by (simp add: suffix_ConsI)
      qed
    qed
  qed
qed

lemma reads_globs_globset: "reads_globs globset_matches"
  unfolding reads_globs_def globset_matches_def
proof (intro conjI allI impI)
  fix g p assume "glob_literal g = Some g"
  then show "selects_from True g p = (p = g)"
    by (intro selects_literal) (auto simp: glob_literal_def split: if_splits)
next
  fix g p assume "selects_from True g p"
  then show "prefix (glob_prefix g) p"
    using selects_prefix by (simp add: glob_prefix_def)
next
  fix g p assume "selects_from True g p"
  then show "suffix (glob_suffix g) (CHR ''/'' # p)"
    using selects_suffix [of True g p] by (simp add: glob_suffix_def Let_def)
qed

text \<open>The comment on \<open>suffix\<close> says every selected path ends with the text after the last \<open>*\<close>; a path
  at the root does not.\<close>

lemma root_file_without_suffix:
  "globset_matches ''**/AGENTS.md'' ''AGENTS.md'' \<and>
   \<not> suffix (glob_suffix ''**/AGENTS.md'') ''AGENTS.md''"
  by code_simp

lemma globset_matches_samples:
  "globset_matches ''**/AGENTS.md'' ''a/b/AGENTS.md''" "globset_matches ''src/*.rs'' ''src/lib.rs''"
  "\<not> globset_matches ''src/*.rs'' ''src/deep/nested.rs''" "globset_matches ''src/**'' ''src/deep/nested.rs''"
  "\<not> globset_matches ''**/x.rs'' ''a/yx.rs''" "globset_matches ''a/**/b'' ''a/b''"
  by code_simp+

lemma might_overlap_complete:
  assumes reads: "reads_globs matches" and a: "matches a p" and b: "matches b p"
  shows "might_overlap matches a b"
proof -
  have lit: "p = g" if "matches g p" "glob_literal g = Some t" for g t
    using reads that unfolding reads_globs_def by (metis glob_literal_Some)
  show ?thesis
  proof (cases "glob_literal a")
    case (Some t)
    then have "t = p" using lit [OF a Some] glob_literal_Some by metis
    with Some b show ?thesis by (simp add: might_overlap_def)
  next
    case None
    show ?thesis
    proof (cases "glob_literal b")
      case (Some t)
      then have "t = p" using lit [OF b Some] glob_literal_Some by metis
      with None Some a show ?thesis by (simp add: might_overlap_def)
    next
      case b_None: None
      have "prefix (glob_prefix a) p" "prefix (glob_prefix b) p"
        "suffix (glob_suffix a) (CHR ''/'' # p)" "suffix (glob_suffix b) (CHR ''/'' # p)"
        using reads a b unfolding reads_globs_def by blast+
      then show ?thesis
        using None b_None
        by (simp add: might_overlap_def Let_def) (meson prefix_same_cases suffix_same_cases)
    qed
  qed
qed

lemma reaches_any_complete:
  "reads_globs matches \<Longrightarrow> matches g p \<Longrightarrow> d \<in> set denied \<Longrightarrow> matches d p \<Longrightarrow> reaches_any matches g denied"
  by (auto simp: reaches_any_def list_ex_iff intro: might_overlap_complete)

lemma might_overlap_refl_wild: "glob_literal g = None \<Longrightarrow> might_overlap matches g g"
  by (simp add: might_overlap_def)

section \<open>The tree a glob selects\<close>

lemma literal_text_plain:
  "\<not> has_any (class_chars @ [bslash]) p \<Longrightarrow> literal_text p = p"
  by (induction p) (auto simp: literal_text_def has_any_def)

lemma literal_text_special:
  "has_any (class_chars @ [bslash]) p \<Longrightarrow> has_any (wild_chars @ [bslash]) (literal_text p)"
  by (induction p) (auto simp: literal_text_def has_any_def wild_chars_def)

lemma strip_suffix_append [simp]: "strip_suffix (t @ s) s = Some t"
  by (simp add: strip_suffix_def suffix_def)

lemma strip_under_star: "strip_suffix (t @ ''/**'') ''/**/*'' = None"
proof -
  have "\<not> suffix ''/**/*'' (t @ ''/**'')"
    by (auto simp: suffix_def dest: arg_cong [of _ _ rev])
  then show ?thesis by (simp add: strip_suffix_def)
qed

lemma wild_subset_class: "has_any (wild_chars @ [bslash]) p \<Longrightarrow> has_any (class_chars @ [bslash]) p"
  by (auto simp: has_any_def list_ex_iff wild_chars_def class_chars_def)

lemma whole_tree_under:
  "whole_tree (literal_text p @ ''/**'') =
     (if p \<noteq> [] \<and> \<not> has_any (class_chars @ [bslash]) p then Some p else None)"
proof (cases "has_any (class_chars @ [bslash]) p")
  case True
  then show ?thesis
    by (simp add: whole_tree_def strip_under_star literal_text_special)
next
  case False
  then show ?thesis
    using wild_subset_class [of p]
    by (auto simp: whole_tree_def strip_under_star literal_text_plain)
qed

lemma before_last_slash_Some: "before_last_slash t = Some d \<Longrightarrow> prefix (d @ ''/'') t"
proof -
  assume a: "before_last_slash t = Some d"
  then have m: "CHR ''/'' \<in> set (rev t)" by (auto simp: before_last_slash_def split: if_splits)
  then obtain ys zs where s: "rev t = ys @ CHR ''/'' # zs" "CHR ''/'' \<notin> set ys"
    by (meson split_list_first)
  then have "dropWhile (\<lambda>c. c \<noteq> CHR ''/'') (rev t) = CHR ''/'' # zs"
    by (auto simp: dropWhile_append3 in_set_conv_decomp dropWhile_append)
  with a m have "d = rev zs" by (auto simp: before_last_slash_def split: if_splits)
  moreover from s have "t = rev zs @ CHR ''/'' # rev ys" by (metis append.assoc append_Cons
      append_Nil rev.simps(2) rev_append rev_rev_ident)
  ultimately show ?thesis by simp
qed

lemma glob_tree_selects:
  assumes "reads_globs matches" "matches g p" "glob_tree g = Some d"
  shows "prefix (d @ ''/'') p"
proof -
  from assms(3) have "prefix (d @ ''/'') (glob_prefix g)"
    by (auto simp: glob_tree_def filter_opt_Some_iff intro: before_last_slash_Some)
  moreover from assms(1,2) have "prefix (glob_prefix g) p"
    by (auto simp: reads_globs_def)
  ultimately show ?thesis by (rule prefix_order.trans)
qed

section \<open>The properties\<close>

text \<open>The glob built for one file reads back as that file, whatever characters its path has.\<close>

lemma exact_glob_reads_back:
  assumes "glob_exact compiles p = Inr g"
  shows "exact_path g = Some p"
  using assms by (auto simp: glob_exact_def exact_path_def exact_chars_literal Let_def split: if_splits)

text \<open>The overlap test never misses a file: two globs that select a common path overlap, given how
  globset reads a literal, a literal prefix and a literal suffix.\<close>

lemma overlap_misses_no_file:
  assumes "reads_globs matches" "matches a p" "matches b p"
  shows "might_overlap matches a b \<and> might_overlap matches b a"
  using assms by (auto intro: might_overlap_complete)

text \<open>The directory read off a glob bounds it: a glob with a tree selects only paths under it,
  and the glob of everything under a plain path has that path as its whole tree.\<close>

lemma glob_tree_bounds:
  assumes "reads_globs matches" "matches g p" "glob_tree g = Some d"
  shows "prefix (d @ ''/'') p"
  using assms by (rule glob_tree_selects)

end
