(* ===== verification/Scope_Policy.thy ===== *)
theory Scope_Policy
  imports Globs
begin

text \<open>
  Who may write what: the scope-expansion mode and its ceiling (\<open>policy.rs\<close>), the paths no
  session writes and why (\<open>protected.rs\<close>), and every decision about a request to write outside a
  scope (\<open>expansion.rs\<close>). A compiled glob set is the list of globs it was compiled from; whether
  a set builds is the parameter \<open>builds\<close>.
\<close>

section \<open>Modes and their ceiling\<close>

datatype scope_mode = Rules | Ask_Mode | Deny_Mode

fun strictness :: "scope_mode \<Rightarrow> nat" where
  "strictness Rules = 0"
| "strictness Ask_Mode = 1"
| "strictness Deny_Mode = 2"

definition ceiling_allows :: "scope_mode \<Rightarrow> scope_mode \<Rightarrow> bool" where
  "ceiling_allows ceiling mode \<longleftrightarrow> strictness mode \<ge> strictness ceiling"

definition stricter :: "scope_mode \<Rightarrow> scope_mode \<Rightarrow> scope_mode" where
  "stricter a b = (if strictness a \<ge> strictness b then a else b)"

definition lets_a_person_grant :: "scope_mode \<Rightarrow> bool" where
  "lets_a_person_grant ceiling \<longleftrightarrow> ceiling \<noteq> Deny_Mode"

lemma stricter_allows:
  "ceiling_allows (stricter a b) mode \<longleftrightarrow> ceiling_allows a mode \<and> ceiling_allows b mode"
  by (auto simp: stricter_def ceiling_allows_def)

lemma stricter_assoc: "stricter (stricter a b) c = stricter a (stricter b c)"
  by (auto simp: stricter_def)

lemma stricter_commute: "stricter a b = stricter b a"
  by (cases a; cases b) (simp_all add: stricter_def)

section \<open>What is protected, and why\<close>

datatype protection = ProjectDeny | AgentConfig | AgentInstructions | ApprovedTest | GitRegister

fun protection_rank :: "protection \<Rightarrow> nat" where
  "protection_rank ProjectDeny = 0"
| "protection_rank AgentConfig = 1"
| "protection_rank AgentInstructions = 2"
| "protection_rank ApprovedTest = 3"
| "protection_rank GitRegister = 4"

lemma protection_rank_inj [simp]: "protection_rank a = protection_rank b \<longleftrightarrow> a = b"
  by (cases a; cases b) simp_all

text \<open>The derived order of the Rust enum: the order its variants are declared in.\<close>

instantiation protection :: linorder
begin

definition less_eq_protection :: "protection \<Rightarrow> protection \<Rightarrow> bool" where
  "less_eq_protection a b \<longleftrightarrow> protection_rank a \<le> protection_rank b"

definition less_protection :: "protection \<Rightarrow> protection \<Rightarrow> bool" where
  "less_protection a b \<longleftrightarrow> protection_rank a < protection_rank b"

instance
proof
  fix a b c :: protection
  show "a < b \<longleftrightarrow> a \<le> b \<and> \<not> b \<le> a"
    by (auto simp: less_eq_protection_def less_protection_def)
  show "a \<le> a" by (simp add: less_eq_protection_def)
  show "a \<le> b \<Longrightarrow> b \<le> c \<Longrightarrow> a \<le> c" by (simp add: less_eq_protection_def)
  show "a \<le> b \<Longrightarrow> b \<le> a \<Longrightarrow> a = b"
    by (simp add: less_eq_protection_def flip: protection_rank_inj)
  show "a \<le> b \<or> b \<le> a" by (auto simp: less_eq_protection_def)
qed

end

definition person_may_grant :: "protection \<Rightarrow> bool" where
  "person_may_grant r \<longleftrightarrow> r = AgentInstructions"

definition follows_links :: "protection \<Rightarrow> bool" where
  "follows_links r \<longleftrightarrow> r = AgentConfig \<or> r = AgentInstructions"

datatype closing = Every | LoopClose

record entry =
  ent_reason :: protection
  ent_glob :: scope_glob
  ent_on_the_way :: bool

definition entry_of :: "protection \<Rightarrow> scope_glob \<Rightarrow> entry" where
  "entry_of r g = \<lparr>ent_reason = r, ent_glob = g, ent_on_the_way = False\<rparr>"

definition entry_on_the_way :: "(string \<Rightarrow> bool) \<Rightarrow> protection \<Rightarrow> path \<Rightarrow> string + entry" where
  "entry_on_the_way compiles r p =
     (case glob_exact compiles p of
        Inl e \<Rightarrow> Inl e
      | Inr g \<Rightarrow> Inr \<lparr>ent_reason = r, ent_glob = g, ent_on_the_way = True\<rparr>)"

type_synonym glob_set = "scope_glob list"

record protected =
  prot_entries :: "entry list"
  prot_granted :: "scope_glob list"
  prot_every :: glob_set
  prot_at_loop_close :: glob_set
  prot_lifted :: glob_set

datatype protected_error = Build_Failed | Pattern string

definition protected_from_entries ::
  "(glob_set \<Rightarrow> bool) \<Rightarrow> entry list \<Rightarrow> protected_error + protected" where
  "protected_from_entries builds entries =
     (let every = map ent_glob entries;
          at_close = map ent_glob (filter (\<lambda>e. ent_reason e \<noteq> ApprovedTest) entries)
      in if \<not> builds every then Inl Build_Failed
         else if \<not> builds at_close then Inl Build_Failed
         else Inr \<lparr>prot_entries = entries, prot_granted = [], prot_every = every,
                    prot_at_loop_close = at_close, prot_lifted = []\<rparr>)"

definition lifting :: "(glob_set \<Rightarrow> bool) \<Rightarrow> protected \<Rightarrow> scope_glob list \<Rightarrow> protected" where
  "lifting builds P granted =
     P\<lparr>prot_granted := granted, prot_lifted := (if builds granted then granted else [])\<rparr>"

definition agent_config :: "string list" where
  "agent_config = [''.claude/**'', ''.mcp.json'', ''.codex/**'', ''.agents/skills/**'']"

text \<open>The ancestors of a relative path without empty or dot components, itself first.\<close>

function path_ancestors :: "path \<Rightarrow> path list" where
  "path_ancestors p =
     (case before_last_slash p of
        None \<Rightarrow> (if p = [] then [[]] else [p, []])
      | Some up \<Rightarrow> p # path_ancestors up)"
  by pat_completeness auto

termination
proof (relation "measure length")
  fix p up :: path
  assume "before_last_slash p = Some up"
  then have "prefix (up @ ''/'') p" by (rule before_last_slash_Some)
  then have "length (up @ ''/'') \<le> length p" by (rule prefix_length_le)
  then show "(up, p) \<in> measure length" by simp
qed simp

declare path_ancestors.simps [simp del]

definition roots_of :: "scope_glob list \<Rightarrow> path list" where
  "roots_of trees =
     foldl (\<lambda>roots root. if root \<noteq> [] \<and> root \<notin> set roots then roots @ [root] else roots) []
       (concat (map path_ancestors (List.map_filter whole_tree trees)))"

fun collect :: "('e + 'a) list \<Rightarrow> 'e + 'a list" where
  "collect [] = Inr []"
| "collect (Inl e # xs) = Inl e"
| "collect (Inr x # xs) = (case collect xs of Inl e \<Rightarrow> Inl e | Inr ys \<Rightarrow> Inr (x # ys))"

definition parse_glob :: "(string \<Rightarrow> bool) \<Rightarrow> string \<Rightarrow> string + scope_glob" where
  "parse_glob compiles t = (if compiles t then Inr t else Inl t)"

definition protected_new ::
  "(string \<Rightarrow> bool) \<Rightarrow> (glob_set \<Rightarrow> bool) \<Rightarrow> scope_glob list \<Rightarrow> scope_glob list
     \<Rightarrow> protected_error + protected" where
  "protected_new compiles builds project approved =
     (case collect (map (parse_glob compiles) agent_config) of
        Inl t \<Rightarrow> Inl (Pattern t)
      | Inr config \<Rightarrow>
     (case collect (map (parse_glob compiles) [''**/AGENTS.md'', ''**/CLAUDE.md'']) of
        Inl t \<Rightarrow> Inl (Pattern t)
      | Inr instructions \<Rightarrow>
     (case collect (map (parse_glob compiles) [''.git'', ''.git/**'']) of
        Inl t \<Rightarrow> Inl (Pattern t)
      | Inr register \<Rightarrow>
     (case collect (map (entry_on_the_way compiles AgentConfig) (roots_of config)) of
        Inl t \<Rightarrow> Inl (Pattern t)
      | Inr way \<Rightarrow>
          protected_from_entries builds
            (map (entry_of ProjectDeny) project @ map (entry_of AgentConfig) config
             @ map (entry_of AgentInstructions) instructions @ map (entry_of ApprovedTest) approved
             @ map (entry_of GitRegister) register @ way)))))"

definition protected_every :: "protected \<Rightarrow> scope_glob list" where
  "protected_every P = map ent_glob (filter (\<lambda>e. \<not> ent_on_the_way e) (prot_entries P))"

definition reached_by ::
  "(scope_glob \<Rightarrow> path \<Rightarrow> bool) \<Rightarrow> protected \<Rightarrow> scope_glob \<Rightarrow> protection option" where
  "reached_by matches P g =
     min_by_key person_may_grant
       (map ent_reason (filter (\<lambda>e. might_overlap matches g (ent_glob e)) (prot_entries P)))"

definition set_is_match :: "(scope_glob \<Rightarrow> path \<Rightarrow> bool) \<Rightarrow> glob_set \<Rightarrow> path \<Rightarrow> bool" where
  "set_is_match matches gs p \<longleftrightarrow> list_ex (\<lambda>g. matches g p) gs"

definition set_matches :: "(scope_glob \<Rightarrow> path \<Rightarrow> bool) \<Rightarrow> glob_set \<Rightarrow> path \<Rightarrow> nat list" where
  "set_matches matches gs p = filter (\<lambda>i. matches (gs ! i) p) [0..<length gs]"

definition nth_opt :: "'a list \<Rightarrow> nat \<Rightarrow> 'a option" where
  "nth_opt xs i = (if i < length xs then Some (xs ! i) else None)"

definition reason_of ::
  "(scope_glob \<Rightarrow> path \<Rightarrow> bool) \<Rightarrow> protected \<Rightarrow> path \<Rightarrow> protection option" where
  "reason_of matches P p =
     (let lifted = set_is_match matches (prot_lifted P) p
      in min_by_key (\<lambda>r. r)
           (filter (\<lambda>r. \<not> (lifted \<and> person_may_grant r))
             (map ent_reason
               (List.map_filter (nth_opt (prot_entries P))
                 (set_matches matches (prot_every P) p)))))"

definition protected_granted ::
  "(scope_glob \<Rightarrow> path \<Rightarrow> bool) \<Rightarrow> protected \<Rightarrow> scope_glob list" where
  "protected_granted matches P =
     (if prot_lifted P = [] then []
      else filter (\<lambda>g. list_ex (\<lambda>e. person_may_grant (ent_reason e) \<and> might_overlap matches g (ent_glob e))
                         (prot_entries P))
             (prot_granted P))"

record trespass =
  tr_path :: path
  tr_reason :: protection

text \<open>\<open>under\<close> is \<open>Path::starts_with\<close>, which compares whole components.\<close>

definition path_under :: "path \<Rightarrow> path \<Rightarrow> bool" where
  "path_under p dir \<longleftrightarrow> p = dir \<or> prefix (dir @ ''/'') p"

definition trespasses ::
  "(scope_glob \<Rightarrow> path \<Rightarrow> bool) \<Rightarrow> protected \<Rightarrow> path list \<Rightarrow> path list \<Rightarrow> closing \<Rightarrow> trespass list" where
  "trespasses matches P changed staged closing =
     (let gs = (case closing of Every \<Rightarrow> prot_every P | LoopClose \<Rightarrow> prot_at_loop_close P)
      in List.map_filter
           (\<lambda>p. map_option (\<lambda>r. \<lparr>tr_path = p, tr_reason = r\<rparr>) (reason_of matches P p))
           (filter (\<lambda>p. set_is_match matches gs p)
             (filter (\<lambda>p. \<not> list_ex (\<lambda>m. path_under p m) staged) changed)))"

end
