(* ===== verification/Expansion.thy ===== *)
theory Expansion
  imports Scope_Policy
begin

text \<open>
  Every decision about a request to write outside a scope (\<open>expansion.rs\<close>), read against what is
  protected (\<open>protected.rs\<close>) and the mode in force (\<open>policy.rs\<close>). The lemmas show that a path no
  person may grant is refused whole under every mode, that a grant of the engine selects no file a
  protected entry selects and none another task of the batch may write, that the file bound and the
  cap hold, and that protection fails closed when a set does not build.
\<close>

section \<open>What a decision is about\<close>

datatype decider = By_Rule | By_Person string | By_Evidence string

record reach =
  rea_path :: scope_glob
  rea_reason :: protection

datatype precheck = Passes | Red_Exit int | CouldNotRun | NotRun

definition stopped_before_answer :: int where
  "stopped_before_answer = - 2"

definition precheck_exit_code :: "precheck \<Rightarrow> int option" where
  "precheck_exit_code p =
     (case p of Passes \<Rightarrow> Some 0 | Red_Exit c \<Rightarrow> Some c | CouldNotRun \<Rightarrow> Some stopped_before_answer
      | NotRun \<Rightarrow> None)"

record proposal =
  pro_cmd :: string
  pro_precheck :: precheck

datatype ask =
  Requested (ask_paths: "scope_glob list") string "proposal option"
| Located (ask_paths: "scope_glob list") string

record bounds =
  bnd_mode :: scope_mode
  max_files :: nat
  max_per_run :: "u32 option"
  bnd_protected :: protected
  beside :: "scope_glob list"

datatype waiting = ModeAsk | SharedWithBatch | CapExhausted u32 u32 | Instructions | Waits_Person

datatype denial =
  ReachesProtected "reach list"
| ModeDeny
| NoCriterion
| PrecheckPasses
| CriterionCouldNotRun
| TooManyFiles nat nat
| NothingLeft
| NotWidenable
| Chosen_Denial string "string option"
| Legacy string

datatype decision =
  Grant_Decision "scope_glob list" decider
| Escalate_Decision "scope_glob list" waiting
| Deny_Decision denial

record candidate =
  can_paths :: "scope_glob list"
  can_by :: decider
  bounded :: bool

datatype screened = Settled decision | Candidate candidate

section \<open>Deciding\<close>

definition origin :: "ask \<Rightarrow> bounds \<Rightarrow> scope_glob list \<times> proposal option \<times> decider \<times> bool" where
  "origin a b =
     (let by_rules = (bnd_mode b = Rules) in
      case a of
        Requested paths _ proposal \<Rightarrow> (paths, proposal, By_Rule, by_rules)
      | Located paths criterion \<Rightarrow> (paths, None, By_Evidence criterion, by_rules))"

definition precheck_denial :: "proposal option \<Rightarrow> denial option" where
  "precheck_denial p =
     (case map_option pro_precheck p of
        Some Passes \<Rightarrow> Some PrecheckPasses
      | Some CouldNotRun \<Rightarrow> Some CriterionCouldNotRun
      | _ \<Rightarrow> None)"

definition by_mode :: "ask \<Rightarrow> scope_mode \<Rightarrow> scope_glob list \<Rightarrow> bool \<Rightarrow> decision option" where
  "by_mode a mode paths reaches_instructions =
     (if mode = Deny_Mode then Some (Deny_Decision ModeDeny)
      else if reaches_instructions then Some (Escalate_Decision paths Instructions)
      else (case (a, mode) of
              (Requested _ _ None, Rules) \<Rightarrow> Some (Deny_Decision NoCriterion)
            | (Requested _ _ _, Ask_Mode) \<Rightarrow> Some (Escalate_Decision paths ModeAsk)
            | _ \<Rightarrow> None))"

definition reaching ::
  "(scope_glob \<Rightarrow> path \<Rightarrow> bool) \<Rightarrow> scope_glob list \<Rightarrow> protected \<Rightarrow> reach list" where
  "reaching matches paths P =
     List.map_filter
       (\<lambda>p. map_option (\<lambda>r. \<lparr>rea_path = p, rea_reason = r\<rparr>) (reached_by matches P p)) paths"

definition refuses_whole :: "reach list \<Rightarrow> bool" where
  "refuses_whole reached = list_ex (\<lambda>r. \<not> person_may_grant (rea_reason r)) reached"

definition screen :: "(scope_glob \<Rightarrow> path \<Rightarrow> bool) \<Rightarrow> ask \<Rightarrow> bounds \<Rightarrow> screened" where
  "screen matches a b =
     (case origin a b of (paths, proposal, by, bounded_here) \<Rightarrow>
        let reached = reaching matches paths (bnd_protected b) in
        if refuses_whole reached then Settled (Deny_Decision (ReachesProtected reached))
        else (case precheck_denial proposal of
          Some d \<Rightarrow> Settled (Deny_Decision d)
        | None \<Rightarrow>
            (case by_mode a (bnd_mode b) paths (reached \<noteq> []) of
               Some d \<Rightarrow> Settled d
             | None \<Rightarrow>
                 if list_ex (\<lambda>p. reaches_any matches p (beside b)) paths
                 then Settled (Escalate_Decision paths SharedWithBatch)
                 else Candidate \<lparr>can_paths = paths, can_by = by, bounded = bounded_here\<rparr>)))"

definition settle :: "candidate \<Rightarrow> nat \<Rightarrow> u32 \<Rightarrow> bounds \<Rightarrow> decision" where
  "settle c touched granted_so_far b =
     (if bounded c \<and> touched > max_files b then Deny_Decision (TooManyFiles touched (max_files b))
      else (case max_per_run b of
              Some cap \<Rightarrow>
                if granted_so_far \<ge> cap
                then Escalate_Decision (can_paths c) (CapExhausted granted_so_far cap)
                else Grant_Decision (can_paths c) (can_by c)
            | None \<Rightarrow> Grant_Decision (can_paths c) (can_by c)))"

text \<open>\<open>usize::MAX\<close> on a 64-bit target.\<close>

definition usize_max :: nat where
  "usize_max = 2 ^ 64 - 1"

definition touched_under ::
  "(glob_set \<Rightarrow> bool) \<Rightarrow> (scope_glob \<Rightarrow> path \<Rightarrow> bool) \<Rightarrow> candidate \<Rightarrow> path list \<Rightarrow> nat" where
  "touched_under builds matches c touched =
     (if builds (can_paths c) then length (filter (set_is_match matches (can_paths c)) touched)
      else usize_max)"

definition node_offer ::
  "(scope_glob \<Rightarrow> path \<Rightarrow> bool) \<Rightarrow> scope_glob list \<Rightarrow> protected \<Rightarrow> bool \<Rightarrow> denial + scope_glob list" where
  "node_offer matches paths P widenable =
     (if \<not> widenable then Inl NotWidenable
      else let reached = reaching matches paths P in
           if refuses_whole reached then Inl (ReachesProtected reached)
           else if paths = [] then Inl NothingLeft
           else Inr paths)"

definition denial_stands :: "denial \<Rightarrow> bool" where
  "denial_stands d = (case d of ReachesProtected _ \<Rightarrow> True | ModeDeny \<Rightarrow> True | _ \<Rightarrow> False)"

fun denial_code :: "denial \<Rightarrow> string" where
  "denial_code (ReachesProtected _) = ''reaches_protected''"
| "denial_code ModeDeny = ''mode_deny''"
| "denial_code NoCriterion = ''no_criterion''"
| "denial_code PrecheckPasses = ''precheck_passes''"
| "denial_code CriterionCouldNotRun = ''criterion_could_not_run''"
| "denial_code (TooManyFiles _ _) = ''too_many_files''"
| "denial_code NothingLeft = ''nothing_left''"
| "denial_code NotWidenable = ''not_widenable''"
| "denial_code (Chosen_Denial _ _) = ''chosen''"
| "denial_code (Legacy _) = ''legacy''"

section \<open>The window of one batch\<close>

text \<open>
  \<open>GrantWindow\<close> is the count of the engine's grants, behind a lock: one request settles at a time,
  so the requests of a batch are a sequence of \<open>expand\<close> steps over the count. The files the diff
  touches are an argument, since git reads them.
\<close>

definition window_settle :: "u32 \<Rightarrow> candidate \<Rightarrow> nat \<Rightarrow> bounds \<Rightarrow> decision \<times> u32" where
  "window_settle n c touched b =
     (let d = settle c touched n b;
          n' = (case d of Grant_Decision _ _ \<Rightarrow> n + 1 | _ \<Rightarrow> n)
      in (d, n'))"

definition expand ::
  "(glob_set \<Rightarrow> bool) \<Rightarrow> (scope_glob \<Rightarrow> path \<Rightarrow> bool) \<Rightarrow> ask \<Rightarrow> bounds \<Rightarrow> u32 \<Rightarrow> path list
     \<Rightarrow> decision \<times> u32" where
  "expand builds matches a b n diff =
     (case screen matches a b of
        Settled d \<Rightarrow> (d, n)
      | Candidate c \<Rightarrow>
          let touched = (if bounded c then touched_under builds matches c diff else 0)
          in window_settle n c touched b)"

fun expand_all ::
  "(glob_set \<Rightarrow> bool) \<Rightarrow> (scope_glob \<Rightarrow> path \<Rightarrow> bool) \<Rightarrow> (ask \<times> bounds \<times> path list) list \<Rightarrow> u32
     \<Rightarrow> decision list \<times> u32" where
  "expand_all builds matches [] n = ([], n)"
| "expand_all builds matches ((a, b, diff) # rest) n =
     (case expand builds matches a b n diff of
        (d, n') \<Rightarrow> (case expand_all builds matches rest n' of (ds, m) \<Rightarrow> (d # ds, m)))"

record expansion_request =
  req_paths :: "scope_glob list"
  req_reason :: string
  req_criterion :: "string option"
  req_evidence :: "string option"

definition standing_refusal ::
  "(scope_glob \<Rightarrow> path \<Rightarrow> bool) \<Rightarrow> expansion_request \<Rightarrow> bounds \<Rightarrow> denial option" where
  "standing_refusal matches req b =
     (let pr = map_option (\<lambda>cmd. \<lparr>pro_cmd = cmd, pro_precheck = NotRun\<rparr>) (req_criterion req) in
      case screen matches (Requested (req_paths req) (req_reason req) pr) b of
        Settled (Deny_Decision d) \<Rightarrow> if denial_stands d then Some d else None
      | _ \<Rightarrow> None)"

definition criterion_of :: "expansion_request \<Rightarrow> string option" where
  "criterion_of req = or_else (req_criterion req) (req_evidence req)"

text \<open>
  \<open>write_request\<close> between its read and its write: what the file holds afterwards and how many
  paths were added, or the pending criterion that refuses the request.
\<close>

datatype recorded = Written | Amended nat

definition join_request ::
  "expansion_request option \<Rightarrow> expansion_request \<Rightarrow> string + (expansion_request \<times> recorded)" where
  "join_request read req =
     (case read of
        None \<Rightarrow> Inr (req, Written)
      | Some pending_req \<Rightarrow>
          (case filter_opt (\<lambda>(pending, asked). pending \<noteq> asked)
                  (zip_opt (criterion_of pending_req) (criterion_of req)) of
             Some (pending, _) \<Rightarrow> Inl pending
           | None \<Rightarrow>
               let named = (if criterion_of pending_req = None
                            then pending_req\<lparr>req_criterion := req_criterion req,
                                             req_evidence := req_evidence req\<rparr>
                            else pending_req);
                   joined = foldl (\<lambda>ps g. if g \<in> set ps then ps else ps @ [g])
                              (req_paths named) (req_paths req)
               in Inr (named\<lparr>req_paths := joined\<rparr>,
                       Amended (length joined - length (req_paths pending_req)))))"

definition grants_in :: "decision list \<Rightarrow> nat" where
  "grants_in ds = length (filter (\<lambda>d. case d of Grant_Decision _ _ \<Rightarrow> True | _ \<Rightarrow> False) ds)"

section \<open>What reaches a protected path\<close>

lemma map_filter_set: "set (List.map_filter f xs) = {y. \<exists>x \<in> set xs. f x = Some y}"
  by (induction xs) (auto simp: List.map_filter_simps split: option.splits)

lemma reached_by_None_iff:
  "reached_by matches P g = None \<longleftrightarrow> (\<forall>e \<in> set (prot_entries P). \<not> might_overlap matches g (ent_glob e))"
  by (auto simp: reached_by_def filter_empty_conv)

lemma reached_by_strictest:
  assumes "reached_by matches P g = Some r" "e \<in> set (prot_entries P)"
    "might_overlap matches g (ent_glob e)" "\<not> person_may_grant (ent_reason e)"
  shows "\<not> person_may_grant r"
proof -
  have "ent_reason e \<in> set (map ent_reason (filter (\<lambda>e. might_overlap matches g (ent_glob e)) (prot_entries P)))"
    using assms(2,3) by auto
  with min_by_key_SomeD [OF assms(1) [unfolded reached_by_def]]
  have "person_may_grant r \<le> person_may_grant (ent_reason e)" by blast
  with assms(4) show ?thesis by simp
qed

lemma reached_by_entry:
  "reached_by matches P g = Some r \<Longrightarrow>
     \<exists>e \<in> set (prot_entries P). ent_reason e = r \<and> might_overlap matches g (ent_glob e)"
  unfolding reached_by_def by (drule min_by_key_SomeD) auto

lemma refuses_whole_iff:
  "refuses_whole (reaching matches paths P) \<longleftrightarrow>
     (\<exists>p \<in> set paths. \<exists>e \<in> set (prot_entries P).
        might_overlap matches p (ent_glob e) \<and> \<not> person_may_grant (ent_reason e))"
proof
  assume "refuses_whole (reaching matches paths P)"
  then obtain p r where "p \<in> set paths" "reached_by matches P p = Some r" "\<not> person_may_grant r"
    by (auto simp: refuses_whole_def reaching_def map_filter_set list_ex_iff)
  then show "\<exists>p \<in> set paths. \<exists>e \<in> set (prot_entries P).
        might_overlap matches p (ent_glob e) \<and> \<not> person_may_grant (ent_reason e)"
    using reached_by_entry by metis
next
  assume "\<exists>p \<in> set paths. \<exists>e \<in> set (prot_entries P).
        might_overlap matches p (ent_glob e) \<and> \<not> person_may_grant (ent_reason e)"
  then obtain p e where p: "p \<in> set paths" and e: "e \<in> set (prot_entries P)"
    "might_overlap matches p (ent_glob e)" "\<not> person_may_grant (ent_reason e)" by blast
  then obtain r where r: "reached_by matches P p = Some r"
    by (metis not_Some_eq reached_by_None_iff)
  with e have "\<not> person_may_grant r" by (metis reached_by_strictest)
  with p r show "refuses_whole (reaching matches paths P)"
    by (force simp: refuses_whole_def reaching_def map_filter_set list_ex_iff)
qed

lemma reaching_Nil_iff:
  "reaching matches paths P = [] \<longleftrightarrow> (\<forall>p \<in> set paths. reached_by matches P p = None)"
  by (induction paths) (auto simp: reaching_def List.map_filter_simps split: option.splits)

lemma origin_paths: "origin a b = (paths, pr, by_d, bd) \<Longrightarrow> paths = ask_paths a \<and> bd = (bnd_mode b = Rules)"
  by (auto simp: origin_def Let_def split: ask.splits)

lemma screen_candidate:
  assumes "screen matches a b = Candidate c"
  shows "can_paths c = ask_paths a" "bnd_mode b \<noteq> Deny_Mode"
    "bounded c \<longleftrightarrow> bnd_mode b = Rules"
    "reaching matches (ask_paths a) (bnd_protected b) = []"
    "\<forall>p \<in> set (ask_paths a). \<not> reaches_any matches p (beside b)"
proof -
  obtain paths pr by_d bd where o: "origin a b = (paths, pr, by_d, bd)"
    by (cases "origin a b") auto
  from origin_paths [OF o] have [simp]: "paths = ask_paths a" "bd = (bnd_mode b = Rules)"
    by simp_all
  from assms o show "can_paths c = ask_paths a" "bnd_mode b \<noteq> Deny_Mode"
    "bounded c \<longleftrightarrow> bnd_mode b = Rules"
    "reaching matches (ask_paths a) (bnd_protected b) = []"
    "\<forall>p \<in> set (ask_paths a). \<not> reaches_any matches p (beside b)"
    by (auto simp: screen_def Let_def by_mode_def list_ex_iff split: if_splits option.splits)
qed

lemma by_mode_no_grant: "by_mode a mode paths ins = Some d \<Longrightarrow> d \<noteq> Grant_Decision ps by_d"
  by (auto simp: by_mode_def split: if_splits prod.splits ask.splits option.splits scope_mode.splits)

lemma screen_settles_no_grant: "screen matches a b \<noteq> Settled (Grant_Decision ps by_d)"
proof -
  obtain paths pr by_d' bd where o: "origin a b = (paths, pr, by_d', bd)"
    by (cases "origin a b") auto
  then show ?thesis
    by (auto simp: screen_def Let_def split: option.splits if_splits dest: by_mode_no_grant)
qed

lemma expand_grant_candidate:
  assumes "expand builds matches a b n diff = (Grant_Decision ps by_d, n')"
  obtains c where "screen matches a b = Candidate c" "ps = can_paths c" "by_d = can_by c"
    "bounded c \<longrightarrow> touched_under builds matches c diff \<le> max_files b"
    "\<forall>cap. max_per_run b = Some cap \<longrightarrow> n < cap" "n' = n + 1"
proof (cases "screen matches a b")
  case (Settled d)
  with assms screen_settles_no_grant show ?thesis by (auto simp: expand_def)
next
  case (Candidate c)
  with assms show ?thesis
    by (intro that [of c])
      (auto simp: expand_def window_settle_def settle_def Let_def split: if_splits option.splits)
qed

lemma expand_counts:
  "expand builds matches a b n diff = (d, n') \<Longrightarrow>
     n' = (case d of Grant_Decision _ _ \<Rightarrow> n + 1 | _ \<Rightarrow> n)"
  using screen_settles_no_grant
  by (auto simp: expand_def window_settle_def Let_def split: screened.splits decision.splits)

lemma expand_within_cap:
  assumes "expand builds matches a b n diff = (d, n')" "max_per_run b = Some cap" "n \<le> cap"
  shows "n' \<le> cap"
proof (cases d)
  case (Grant_Decision ps by_d)
  with assms(1) have e: "expand builds matches a b n diff = (Grant_Decision ps by_d, n')" by simp
  show ?thesis
    using e by (rule expand_grant_candidate) (use assms(2) in \<open>simp add: inc_le\<close>)
qed (use assms expand_counts in force)+

section \<open>The properties\<close>

text \<open>The bounds the witnesses decide under: the agent's configuration is protected, and another
  task writes \<open>docs/\<close>.\<close>

definition sample_bounds :: "scope_mode \<Rightarrow> bounds" where
  "sample_bounds mode =
     \<lparr>bnd_mode = mode, max_files = 2, max_per_run = Some 1,
      bnd_protected = \<lparr>prot_entries = [entry_of AgentConfig ''.claude/**''], prot_granted = [],
        prot_every = [''.claude/**''], prot_at_loop_close = [''.claude/**''], prot_lifted = []\<rparr>,
      beside = [''docs/**'']\<rparr>"

text \<open>C10. A request that reaches a path no person may grant is refused whole, under every mode,
  with whatever criterion or evidence it comes, and the window's count stays.\<close>

theorem protected_refused_whole:
  assumes "p \<in> set (ask_paths a)" "e \<in> set (prot_entries (bnd_protected b))"
    and "might_overlap matches p (ent_glob e)" "\<not> person_may_grant (ent_reason e)"
  shows "expand builds matches a b n diff =
      (Deny_Decision (ReachesProtected (reaching matches (ask_paths a) (bnd_protected b))), n)"
proof -
  obtain paths pr by_d bd where o: "origin a b = (paths, pr, by_d, bd)"
    by (cases "origin a b") auto
  from origin_paths [OF o] have "paths = ask_paths a" by simp
  moreover have "refuses_whole (reaching matches (ask_paths a) (bnd_protected b))"
    using assms by (auto simp: refuses_whole_iff)
  ultimately show ?thesis using o by (simp add: expand_def screen_def Let_def)
qed

theorem protected_refused_whole_witness:
  "expand (\<lambda>_. True) globset_matches (Located [''.claude/a''] ''test'') (sample_bounds Rules) 0 [] =
     (Deny_Decision (ReachesProtected [\<lparr>rea_path = ''.claude/a'', rea_reason = AgentConfig\<rparr>]), 0)"
proof -
  have "reaching globset_matches [''.claude/a''] (bnd_protected (sample_bounds Rules)) =
      [\<lparr>rea_path = ''.claude/a'', rea_reason = AgentConfig\<rparr>]"
    by code_simp
  moreover have "might_overlap globset_matches ''.claude/a'' ''.claude/**''" by code_simp
  ultimately show ?thesis
    using protected_refused_whole [of "''.claude/a''" "Located [''.claude/a''] ''test''"
        "entry_of AgentConfig ''.claude/**''" "sample_bounds Rules" globset_matches]
    by (simp add: sample_bounds_def entry_of_def person_may_grant_def)
qed

text \<open>C14. Given how globset reads a glob, no file a path of an engine grant selects is selected by a
  protected entry of any kind, nor by a path another task of the batch may write, and the mode is
  never \<open>deny\<close>.\<close>

theorem engine_grant_is_clear:
  assumes reads: "reads_globs matches"
    and grant: "expand builds matches a b n diff = (Grant_Decision ps by_d, n')"
    and sel: "p \<in> set ps" "matches p file"
  shows "bnd_mode b \<noteq> Deny_Mode \<and>
    (\<forall>e \<in> set (prot_entries (bnd_protected b)). \<not> matches (ent_glob e) file) \<and>
    (\<forall>g \<in> set (beside b). \<not> matches g file)"
proof -
  from grant obtain c where c: "screen matches a b = Candidate c" "ps = can_paths c"
    by (rule expand_grant_candidate)
  note facts = screen_candidate [OF c(1)]
  from facts(1) c(2) sel(1) have p: "p \<in> set (ask_paths a)" by simp
  with facts(4) have "reached_by matches (bnd_protected b) p = None"
    by (simp add: reaching_Nil_iff)
  then have "\<forall>e \<in> set (prot_entries (bnd_protected b)). \<not> matches (ent_glob e) file"
    using might_overlap_complete [OF reads sel(2)] by (auto simp: reached_by_None_iff)
  moreover from facts(5) p have "\<forall>g \<in> set (beside b). \<not> matches g file"
    using reaches_any_complete [OF reads sel(2)] by auto
  ultimately show ?thesis using facts(2) by simp
qed

theorem engine_grant_is_clear_witness:
  "\<not> globset_matches ''.claude/**'' ''src/a.rs'' \<and> \<not> globset_matches ''docs/**'' ''src/a.rs''"
proof -
  have "expand (\<lambda>_. True) globset_matches (Located [''src/*.rs''] ''test'') (sample_bounds Rules) 0
      [''src/a.rs''] = (Grant_Decision [''src/*.rs''] (By_Evidence ''test''), 1)"
    by code_simp
  moreover have "globset_matches ''src/*.rs'' ''src/a.rs''" by code_simp
  ultimately show ?thesis
    using engine_grant_is_clear [OF reads_globs_globset, of "\<lambda>_. True"
        "Located [''src/*.rs''] ''test''" "sample_bounds Rules" 0 "[''src/a.rs'']"
        "[''src/*.rs'']" "By_Evidence ''test''" 1 "''src/*.rs''" "''src/a.rs''"]
    by (simp add: sample_bounds_def entry_of_def)
qed

text \<open>C15. The cap holds exactly however many requests of a batch are decided on one window: a
  window that starts within the cap ends within it, and its count rises by the number of grants
  given, never wrapping.\<close>

theorem window_cap_holds:
  assumes "\<forall>(a, b, diff) \<in> set asks. max_per_run b = Some cap"
    and "n \<le> cap" and "expand_all builds matches asks n = (ds, m)"
  shows "m \<le> cap \<and> unat m = unat n + grants_in ds"
  using assms
proof (induction asks arbitrary: n ds)
  case Nil
  then show ?case by (simp add: grants_in_def)
next
  case (Cons x asks)
  obtain a b diff where x: "x = (a, b, diff)" by (cases x) auto
  obtain d n' where e: "expand builds matches a b n diff = (d, n')" by fastforce
  with Cons.prems(3) x obtain ds' where r: "expand_all builds matches asks n' = (ds', m)" "ds = d # ds'"
    by (auto split: prod.splits)
  have cap: "max_per_run b = Some cap" using Cons.prems(1) x by simp
  with e Cons.prems(2) have "n' \<le> cap" by (metis expand_within_cap)
  with Cons r have m: "m \<le> cap" "unat m = unat n' + grants_in ds'" by auto
  show ?case
  proof (cases d)
    case (Grant_Decision ps by_d)
    with e have e': "expand builds matches a b n diff = (Grant_Decision ps by_d, n')" by simp
    then have "n < cap" "n' = n + 1"
      by (rule expand_grant_candidate; use cap in simp)+
    then have "unat n' = unat n + 1" by (simp add: unat_inc_less)
    with m Grant_Decision r(2) show ?thesis by (simp add: grants_in_def)
  qed (use m r(2) expand_counts [OF e] in \<open>simp_all add: grants_in_def\<close>)
qed

theorem window_cap_holds_witness:
  "(1::u32) \<le> 1 \<and> unat (1::u32) = unat (0::u32) +
     grants_in [Grant_Decision [''a''] (By_Evidence ''t''), Escalate_Decision [''b''] (CapExhausted 1 1)]"
proof (rule window_cap_holds)
  show "\<forall>(a, b, diff) \<in> set [(Located [''a''] ''t'', sample_bounds Ask_Mode, []),
      (Located [''b''] ''t'', sample_bounds Ask_Mode, [])]. max_per_run b = Some 1"
    by (simp add: sample_bounds_def)
  show "(0::u32) \<le> 1" by simp
  show "expand_all (\<lambda>_. True) globset_matches [(Located [''a''] ''t'', sample_bounds Ask_Mode, []),
      (Located [''b''] ''t'', sample_bounds Ask_Mode, [])] 0 =
    ([Grant_Decision [''a''] (By_Evidence ''t''), Escalate_Decision [''b''] (CapExhausted 1 1)], 1)"
    by code_simp
qed

text \<open>Under \<open>rules\<close> a grant's globs build and cover at most the bounded number of the files the
  attempt touched: a set that does not build is over every bound.\<close>

lemma rules_grant_bounded:
  assumes "expand builds matches a b n diff = (Grant_Decision ps by_d, n')"
    and "bnd_mode b = Rules" "max_files b < usize_max"
  shows "builds ps \<and> length (filter (set_is_match matches ps) diff) \<le> max_files b"
proof -
  from assms(1) obtain c where c: "screen matches a b = Candidate c" "ps = can_paths c"
    "bounded c \<longrightarrow> touched_under builds matches c diff \<le> max_files b"
    by (rule expand_grant_candidate)
  with screen_candidate(3) [OF c(1)] assms(2)
  have "touched_under builds matches c diff \<le> max_files b" by simp
  with assms(3) c(2) show ?thesis by (auto simp: touched_under_def split: if_splits)
qed

text \<open>One answer however a request reaches the engine: when no refusal stands before the
  criterion runs, none stands after it whatever the pre-check reads; and a refusal that stands
  before is the one the judgement of a red pre-check gives too.\<close>

lemma standing_refusal_one_answer:
  fixes req :: expansion_request and pc :: precheck
  defines "pr \<equiv> map_option (\<lambda>cmd. \<lparr>pro_cmd = cmd, pro_precheck = pc\<rparr>) (req_criterion req)"
  shows "(standing_refusal matches req b = None \<longrightarrow>
      (\<forall>d. screen matches (Requested (req_paths req) (req_reason req) pr) b
         = Settled (Deny_Decision d) \<longrightarrow> \<not> denial_stands d)) \<and>
    (\<forall>d code. standing_refusal matches req b = Some d \<and> pc = Red_Exit code \<longrightarrow>
      screen matches (Requested (req_paths req) (req_reason req) pr) b = Settled (Deny_Decision d))"
  unfolding pr_def
  by (cases "req_criterion req"; cases pc; auto simp: standing_refusal_def screen_def origin_def Let_def
      precheck_denial_def by_mode_def denial_stands_def
      split: if_splits option.splits scope_mode.splits denial.splits)


end
