(* ===== verification/Accounting.thy ===== *)
theory Accounting
  imports Prelude
begin

text \<open>
  What a run is charged: the tokens its sessions spend (\<open>events/session/usage.rs\<close>,
  \<open>events/spend.rs\<close>) and the time its host was awake (\<open>events/run/suspensions.rs\<close>). Token
  counts are kept at their width of 64 bits, with the wrap-around of a release build; usage is a
  commutative monoid, so the library's \<open>sum_list\<close> is the code's \<open>Sum\<close>.
\<close>

section \<open>Tokens\<close>

datatype token_usage = TokenUsage (in_tokens: u64) (out_tokens: u64) (cached_tokens: "u64 option")

definition usage_total :: "token_usage \<Rightarrow> u64" where
  "usage_total u = in_tokens u + out_tokens u"

definition saturating_sub64 :: "u64 \<Rightarrow> u64 \<Rightarrow> u64" where
  "saturating_sub64 a b = (if b \<le> a then a - b else 0)"

definition usage_saturating_sub :: "token_usage \<Rightarrow> token_usage \<Rightarrow> token_usage" where
  "usage_saturating_sub a b = TokenUsage
     (saturating_sub64 (in_tokens a) (in_tokens b))
     (saturating_sub64 (out_tokens a) (out_tokens b))
     (map_option (\<lambda>c. saturating_sub64 c (unwrap_or (cached_tokens b) 0)) (cached_tokens a))"

definition add_cached :: "u64 option \<Rightarrow> u64 option \<Rightarrow> u64 option" where
  "add_cached x y =
     (case (x, y) of (None, None) \<Rightarrow> None | (a, b) \<Rightarrow> Some (unwrap_or a 0 + unwrap_or b 0))"

definition usage_add :: "token_usage \<Rightarrow> token_usage \<Rightarrow> token_usage" where
  "usage_add a b =
     TokenUsage (in_tokens a + in_tokens b) (out_tokens a + out_tokens b) (add_cached (cached_tokens a) (cached_tokens b))"

definition usage_default :: token_usage where
  "usage_default = TokenUsage 0 0 None"

lemma add_cached_simps [simp]:
  "add_cached None y = y" "add_cached x None = x" "add_cached (Some a) (Some b) = Some (a + b)"
  by (cases x; cases y; simp add: add_cached_def)+

instantiation token_usage :: comm_monoid_add
begin

definition zero_token_usage :: token_usage where
  "zero_token_usage = usage_default"

definition plus_token_usage :: "token_usage \<Rightarrow> token_usage \<Rightarrow> token_usage" where
  "plus_token_usage = usage_add"

instance
proof
  fix a b c :: token_usage
  show "a + b + c = a + (b + c)"
    by (cases "cached_tokens a"; cases "cached_tokens b"; cases "cached_tokens c")
      (simp_all add: plus_token_usage_def usage_add_def algebra_simps)
  show "a + b = b + a"
    by (cases "cached_tokens a"; cases "cached_tokens b")
      (simp_all add: plus_token_usage_def usage_add_def algebra_simps)
  show "0 + a = a"
    by (simp add: plus_token_usage_def zero_token_usage_def usage_add_def usage_default_def)
qed

end

lemma usage_sel_add [simp]:
  "in_tokens (a + b) = in_tokens a + in_tokens b" "out_tokens (a + b) = out_tokens a + out_tokens b"
  "cached_tokens (a + b) = add_cached (cached_tokens a) (cached_tokens b)"
  by (simp_all add: plus_token_usage_def usage_add_def)

lemma usage_sel_zero [simp]:
  "in_tokens 0 = 0" "out_tokens 0 = 0" "cached_tokens 0 = None"
  by (simp_all add: zero_token_usage_def usage_default_def)

lemma usage_total_add [simp]: "usage_total (a + b) = usage_total a + usage_total b"
  by (simp add: usage_total_def)

text \<open>\<open>Sum\<close> folds from the default; it is the library's sum.\<close>

definition usage_sum :: "token_usage list \<Rightarrow> token_usage" where
  "usage_sum us = foldl usage_add usage_default us"

lemma foldl_plus_sum_list: "foldl (+) (a :: 'a::comm_monoid_add) xs = a + sum_list xs"
  by (induction xs arbitrary: a) (simp_all add: add.assoc)

lemma usage_sum_sum_list: "usage_sum us = sum_list us"
proof -
  have "usage_sum us = foldl (+) 0 us"
    by (simp add: usage_sum_def plus_token_usage_def zero_token_usage_def)
  then show ?thesis by (simp add: foldl_plus_sum_list)
qed

lemma saturating_sub64_le: "saturating_sub64 a b \<le> a"
  by (simp add: saturating_sub64_def word_sub_le)

lemma saturating_sub64_exact: "b \<le> a \<Longrightarrow> saturating_sub64 a b + b = a"
  by (simp add: saturating_sub64_def)

text \<open>Whether a usage is part of another: each counter at most the other's.\<close>

definition usage_within :: "token_usage \<Rightarrow> token_usage \<Rightarrow> bool" where
  "usage_within a b \<longleftrightarrow> in_tokens a \<le> in_tokens b \<and> out_tokens a \<le> out_tokens b"

lemma usage_saturating_sub_exact:
  "usage_within b a \<Longrightarrow> usage_total (usage_saturating_sub a b) + usage_total b = usage_total a"
  by (simp add: usage_within_def usage_saturating_sub_def usage_total_def saturating_sub64_def)

lemma usage_saturating_sub_within: "usage_within (usage_saturating_sub a b) a"
  by (simp add: usage_within_def usage_saturating_sub_def saturating_sub64_le)

section \<open>Spend\<close>

datatype spend = Spend (settled: token_usage) (in_flight: token_usage)

definition so_far :: "spend \<Rightarrow> token_usage" where
  "so_far s = settled s + in_flight s"

definition spend_add :: "spend \<Rightarrow> spend \<Rightarrow> spend" where
  "spend_add a b = Spend (settled a + settled b) (in_flight a + in_flight b)"

definition spend_default :: spend where
  "spend_default = Spend 0 0"

instantiation spend :: comm_monoid_add
begin

definition zero_spend :: spend where
  "zero_spend = spend_default"

definition plus_spend :: "spend \<Rightarrow> spend \<Rightarrow> spend" where
  "plus_spend = spend_add"

instance
  by standard
    (simp_all add: plus_spend_def zero_spend_def spend_add_def spend_default_def ac_simps)

end

lemma spend_sel_add [simp]:
  "settled (a + b) = settled a + settled b" "in_flight (a + b) = in_flight a + in_flight b"
  by (simp_all add: plus_spend_def spend_add_def)

lemma spend_sel_zero [simp]: "settled 0 = 0" "in_flight 0 = 0"
  by (simp_all add: zero_spend_def spend_default_def)

lemma so_far_add [simp]: "so_far (a + b) = so_far a + so_far b"
  by (simp add: so_far_def ac_simps)

lemma so_far_zero [simp]: "so_far 0 = 0"
  by (simp add: so_far_def)

definition spend_sum :: "spend list \<Rightarrow> spend" where
  "spend_sum ss = foldl spend_add spend_default ss"

lemma spend_sum_sum_list: "spend_sum ss = sum_list ss"
proof -
  have "spend_sum ss = foldl (+) 0 ss"
    by (simp add: spend_sum_def plus_spend_def zero_spend_def)
  then show ?thesis by (simp add: foldl_plus_sum_list)
qed

lemma so_far_sum: "so_far (spend_sum ss) = usage_sum (map so_far ss)"
  by (induction ss) (simp_all add: spend_sum_sum_list usage_sum_sum_list)

section \<open>Suspensions\<close>

record suspension =
  woke_at :: instant
  slept :: duration

definition fell_asleep :: "suspension \<Rightarrow> instant" where
  "fell_asleep s = woke_at s - int (slept s)"

definition inside :: "suspension \<Rightarrow> instant \<Rightarrow> instant \<Rightarrow> duration" where
  "inside s t0 t1 =
     (let start = max (fell_asleep s) t0; end_at = min (woke_at s) t1
      in nat (end_at - start))"

type_synonym suspensions = "suspension list"

definition push_suspension :: "suspension \<Rightarrow> suspensions \<Rightarrow> suspensions" where
  "push_suspension s ss = ss @ [s]"

definition asleep_between :: "suspensions \<Rightarrow> instant \<Rightarrow> instant \<Rightarrow> duration" where
  "asleep_between ss t0 t1 = sum_list (map (\<lambda>s. inside s t0 t1) ss)"

definition awake_between :: "suspensions \<Rightarrow> instant \<Rightarrow> instant \<Rightarrow> duration" where
  "awake_between ss t0 t1 =
     (let wall = nat (t1 - t0)
      in if ss = [] then wall else wall - asleep_between ss t0 t1)"

definition suspensions_summary :: "suspensions \<Rightarrow> (nat \<times> duration) option" where
  "suspensions_summary ss =
     (if ss \<noteq> [] then Some (length ss, sum_list (map slept ss)) else None)"

lemma awake_between_alt:
  "awake_between ss t0 t1 = nat (t1 - t0) - asleep_between ss t0 t1"
  by (cases "ss = []") (simp_all add: awake_between_def asleep_between_def Let_def)

lemma awake_between_le_wall: "awake_between ss t0 t1 \<le> nat (t1 - t0)"
  by (simp add: awake_between_alt)

lemma awake_between_reversed [simp]: "t1 \<le> t0 \<Longrightarrow> awake_between ss t0 t1 = 0"
  by (simp add: awake_between_alt)

lemma inside_split:
  assumes "t0 \<le> mid" "mid \<le> t1"
  shows "inside s t0 t1 = inside s t0 mid + inside s mid t1"
proof -
  have "fell_asleep s \<le> woke_at s" by (simp add: fell_asleep_def)
  with assms show ?thesis
    unfolding inside_def Let_def by (simp add: max_def min_def nat_add_distrib [symmetric])
qed

lemma asleep_between_split:
  assumes "t0 \<le> mid" "mid \<le> t1"
  shows "asleep_between ss t0 t1 = asleep_between ss t0 mid + asleep_between ss mid t1"
  unfolding asleep_between_def
  by (induction ss) (simp_all add: inside_split [OF assms])

text \<open>
  A host sleeps once at a time: each suspension begins after the one before it ended. Then what it
  slept inside a stretch fits in the stretch, so the saturating subtraction never saturates.
\<close>

definition apart :: "suspensions \<Rightarrow> bool" where
  "apart ss \<longleftrightarrow> sorted_wrt (\<lambda>a b. woke_at a \<le> fell_asleep b) ss"

lemma inside_from_max: "t \<le> fell_asleep s \<Longrightarrow> inside s t0 t1 = inside s (max t0 t) t1"
  by (auto simp: inside_def Let_def max_def)

lemma asleep_between_fits: "apart ss \<Longrightarrow> asleep_between ss t0 t1 \<le> nat (t1 - t0)"
proof (induction ss arbitrary: t0)
  case Nil
  then show ?case by (simp add: asleep_between_def)
next
  case (Cons a ss)
  let ?t0' = "max t0 (woke_at a)"
  have later: "\<forall>b \<in> set ss. woke_at a \<le> fell_asleep b" and ap: "apart ss"
    using Cons.prems by (auto simp: apart_def)
  have eq: "map (\<lambda>s. inside s t0 t1) ss = map (\<lambda>s. inside s ?t0' t1) ss"
    using later by (auto intro: inside_from_max)
  have "asleep_between ss t0 t1 = asleep_between ss ?t0' t1"
    unfolding asleep_between_def eq ..
  also have "\<dots> \<le> nat (t1 - ?t0')"
    by (rule Cons.IH) (rule ap)
  finally have rest: "asleep_between ss t0 t1 \<le> nat (t1 - ?t0')" .
  have "inside a t0 t1 + nat (t1 - ?t0') \<le> nat (t1 - t0)"
    unfolding inside_def Let_def fell_asleep_def max_def min_def by auto
  with rest show ?case by (simp add: asleep_between_def)
qed

text \<open>Awake time is additive: cutting a stretch at any moment loses nothing and counts nothing twice.\<close>

lemma awake_between_split:
  assumes "apart ss" "t0 \<le> mid" "mid \<le> t1"
  shows "awake_between ss t0 t1 = awake_between ss t0 mid + awake_between ss mid t1"
proof -
  have "asleep_between ss t0 mid \<le> nat (mid - t0)"
    and "asleep_between ss mid t1 \<le> nat (t1 - mid)"
    using assms(1) by (rule asleep_between_fits)+
  moreover have "nat (t1 - t0) = nat (mid - t0) + nat (t1 - mid)"
    using assms(2,3) by simp
  ultimately show ?thesis
    using asleep_between_split [OF assms(2,3), of ss] by (simp add: awake_between_alt)
qed

lemma asleep_between_push:
  "asleep_between (push_suspension s ss) t0 t1 = asleep_between ss t0 t1 + inside s t0 t1"
  by (simp add: asleep_between_def push_suspension_def)

lemma inside_after: "t1 \<le> fell_asleep s \<Longrightarrow> inside s t0 t1 = 0"
  by (simp add: inside_def Let_def)

section \<open>The properties\<close>

text \<open>The time a run is charged is additive: a stretch cut at any moment is charged what its two
  parts are, and a stretch is never charged more than its wall time, when the host slept once at a
  time.\<close>

lemma awake_time_additive:
  assumes "apart ss" "t0 \<le> mid" "mid \<le> t1"
  shows "awake_between ss t0 t1 = awake_between ss t0 mid + awake_between ss mid t1 \<and>
    awake_between ss t0 t1 \<le> nat (t1 - t0)"
  using assms by (simp add: awake_between_split [symmetric] awake_between_le_wall)

end
