(* ===== verification/Grant_Ledger.thy ===== *)
theory Grant_Ledger
  imports Expansion
begin

text \<open>
  Where an event sits on the log (\<open>events/meta.rs\<close>), and what a run granted beyond the scope a task
  or a node declared (\<open>events/scope/payloads.rs\<close>, \<open>events/scope/ledger.rs\<close>): the grants of each
  task and node, the answers their requests got, the derived reach, and the run's totals. The
  lemmas state the ledger against the log itself: what a task may reach is its latest derivation
  and then every grant to it, in order; what lifts a protection is a subsequence of that; and the
  count the cap is checked against is the number of the engine's grants.
\<close>

section \<open>The envelope of an event\<close>

record event_meta =
  m_seq :: seq
  m_at :: instant
  m_node :: "node_id option"

datatype subject_error = UngrantableSubject | SessionWithoutNode

section \<open>The scope events\<close>

record scope_requested =
  sq_task :: "task_id option"
  sq_paths :: "scope_glob list"
  sq_reason :: string
  sq_criterion :: "string option"
  sq_precheck :: "int option"

record scope_granted =
  sg_task :: "task_id option"
  sg_decided_by :: decider
  sg_mode :: "scope_mode option"
  sg_count :: u32
  sg_paths :: "scope_glob list"

record scope_denied =
  sd_task :: "task_id option"
  sd_decided_by :: decider
  sd_mode :: "scope_mode option"
  sd_count :: u32
  sd_why :: "denial option"
  sd_legacy_text :: "string option"

definition denied_why :: "scope_denied \<Rightarrow> denial option" where
  "denied_why p = or_else (sd_why p) (map_option Legacy (sd_legacy_text p))"

record scope_derived =
  sdv_task :: task_id
  sdv_paths :: "scope_glob list"
  sdv_shapes :: "string list"
  sdv_common :: "string list"
  sdv_at :: commit_sha

datatype withdrawal_cause = TaskClosed

record scope_withdrawn =
  sw_task :: task_id
  sw_paths :: "scope_glob list"
  sw_reason :: withdrawal_cause

datatype scope_event =
  Scope_Requested scope_requested
| Scope_Granted scope_granted
| Scope_Denied scope_denied
| Scope_Derived scope_derived
| Scope_Withdrawn scope_withdrawn

section \<open>The ledger\<close>

record node_grants =
  ng_paths :: "scope_glob list"
  ng_last_at :: seq
  ng_last_paths :: "scope_glob list"

datatype scope_answer = Answer_Granted "scope_glob list" | Answer_Denied "denial option"

record grant_ledger =
  gl_per_task :: "(task_id, scope_glob list) omap"
  gl_person_per_task :: "(task_id, scope_glob list) omap"
  gl_answers :: "(task_id, scope_answer) omap"
  gl_node_answers :: "(node_id, scope_answer) omap"
  gl_per_node :: "(node_id, node_grants) omap"
  gl_derived :: "(task_id, scope_derived) omap"
  gl_granted :: u32
  gl_denied :: u32
  gl_requested :: u32

definition grants_new :: grant_ledger where
  "grants_new = \<lparr>gl_per_task = [], gl_person_per_task = [], gl_answers = [], gl_node_answers = [],
     gl_per_node = [], gl_derived = [], gl_granted = 0, gl_denied = 0, gl_requested = 0\<rparr>"

definition derived_for :: "grant_ledger \<Rightarrow> task_id \<Rightarrow> scope_derived option" where
  "derived_for L t = om_get (gl_derived L) t"

definition reach_for :: "grant_ledger \<Rightarrow> task_id \<Rightarrow> scope_glob list" where
  "reach_for L t =
     (let derived = map_option sdv_paths (om_get (gl_derived L) t);
          granted = om_get (gl_per_task L) t
      in unwrap_or derived [] @ unwrap_or granted [])"

definition paths_for_node :: "grant_ledger \<Rightarrow> node_id \<Rightarrow> scope_glob list" where
  "paths_for_node L n = unwrap_or (map_option ng_paths (om_get (gl_per_node L) n)) []"

definition person_granted_to_task :: "grant_ledger \<Rightarrow> task_id \<Rightarrow> scope_glob list" where
  "person_granted_to_task L t = unwrap_or (om_get (gl_person_per_task L) t) []"

definition answer_for :: "grant_ledger \<Rightarrow> task_id \<Rightarrow> scope_answer option" where
  "answer_for L t = om_get (gl_answers L) t"

definition last_granted_to_node_paths :: "grant_ledger \<Rightarrow> node_id \<Rightarrow> scope_glob list" where
  "last_granted_to_node_paths L n = unwrap_or (map_option ng_last_paths (om_get (gl_per_node L) n)) []"

definition last_granted_to_node :: "grant_ledger \<Rightarrow> node_id \<Rightarrow> seq option" where
  "last_granted_to_node L n = map_option ng_last_at (om_get (gl_per_node L) n)"

definition is_person :: "decider \<Rightarrow> bool" where
  "is_person d = (case d of By_Person _ \<Rightarrow> True | _ \<Rightarrow> False)"

definition widen :: "grant_ledger \<Rightarrow> scope_granted \<Rightarrow> event_meta \<Rightarrow> subject_error + grant_ledger" where
  "widen L p m =
     (case (sg_task p, m_node m) of
        (Some t, _) \<Rightarrow>
          Inr (L\<lparr>gl_per_task := om_entry [] t (\<lambda>ps. ps @ sg_paths p) (gl_per_task L),
                 gl_person_per_task :=
                   (if is_person (sg_decided_by p)
                    then om_entry [] t (\<lambda>ps. ps @ sg_paths p) (gl_person_per_task L)
                    else gl_person_per_task L),
                 gl_answers := om_put t (Answer_Granted (sg_paths p)) (gl_answers L)\<rparr>)
      | (None, Some n) \<Rightarrow>
          Inr (L\<lparr>gl_per_node :=
                   om_entry \<lparr>ng_paths = [], ng_last_at = m_seq m, ng_last_paths = []\<rparr> n
                     (\<lambda>g. g\<lparr>ng_paths := ng_paths g @ sg_paths p, ng_last_at := m_seq m,
                            ng_last_paths := sg_paths p\<rparr>)
                     (gl_per_node L)\<rparr>)
      | (None, None) \<Rightarrow> Inl UngrantableSubject)"

definition answer_denial :: "grant_ledger \<Rightarrow> scope_denied \<Rightarrow> event_meta \<Rightarrow> subject_error + grant_ledger" where
  "answer_denial L p m =
     (case (sd_task p, m_node m) of
        (Some t, _) \<Rightarrow> Inr (L\<lparr>gl_answers := om_put t (Answer_Denied (denied_why p)) (gl_answers L)\<rparr>)
      | (None, Some n) \<Rightarrow>
          Inr (L\<lparr>gl_node_answers := om_put n (Answer_Denied (denied_why p)) (gl_node_answers L)\<rparr>)
      | (None, None) \<Rightarrow> Inl UngrantableSubject)"

fun grants_apply :: "grant_ledger \<Rightarrow> scope_event \<Rightarrow> event_meta \<Rightarrow> subject_error + grant_ledger" where
  "grants_apply L (Scope_Requested _) m = Inr (L\<lparr>gl_requested := gl_requested L + 1\<rparr>)"
| "grants_apply L (Scope_Granted p) m =
     (case widen L p m of
        Inl e \<Rightarrow> Inl e
      | Inr L' \<Rightarrow>
          Inr (case sg_decided_by p of
                 By_Person _ \<Rightarrow> L'
               | _ \<Rightarrow> L'\<lparr>gl_granted := gl_granted L' + 1\<rparr>))"
| "grants_apply L (Scope_Denied p) m =
     (case answer_denial L p m of
        Inl e \<Rightarrow> Inl e
      | Inr L' \<Rightarrow> Inr (L'\<lparr>gl_denied := gl_denied L' + 1\<rparr>))"
| "grants_apply L (Scope_Derived p) m = Inr (L\<lparr>gl_derived := om_put (sdv_task p) p (gl_derived L)\<rparr>)"
| "grants_apply L (Scope_Withdrawn _) m = Inr L"

text \<open>A log of scope events folds until one has no subject.\<close>

definition grants_step :: "grant_ledger \<Rightarrow> scope_event \<times> event_meta \<Rightarrow> subject_error + grant_ledger" where
  "grants_step L = (\<lambda>(e, m). grants_apply L e m)"

definition grants_of :: "(scope_event \<times> event_meta) list \<Rightarrow> grant_ledger \<times> subject_error option" where
  "grants_of log = fold_until grants_step grants_new log"

section \<open>What the log says, read directly\<close>

definition granted_in :: "task_id \<Rightarrow> (scope_event \<times> event_meta) \<Rightarrow> scope_glob list" where
  "granted_in t em =
     (case fst em of Scope_Granted p \<Rightarrow> if sg_task p = Some t then sg_paths p else [] | _ \<Rightarrow> [])"

definition person_granted_in :: "task_id \<Rightarrow> (scope_event \<times> event_meta) \<Rightarrow> scope_glob list" where
  "person_granted_in t em =
     (case fst em of
        Scope_Granted p \<Rightarrow> if sg_task p = Some t \<and> is_person (sg_decided_by p) then sg_paths p else []
      | _ \<Rightarrow> [])"

definition derived_in :: "task_id \<Rightarrow> (scope_event \<times> event_meta) \<Rightarrow> scope_derived option" where
  "derived_in t em =
     (case fst em of Scope_Derived p \<Rightarrow> if sdv_task p = t then Some p else None | _ \<Rightarrow> None)"

text \<open>A grant that names no task is the node's whose event it is.\<close>

definition node_granted_in :: "node_id \<Rightarrow> (scope_event \<times> event_meta) \<Rightarrow> scope_glob list" where
  "node_granted_in n em =
     (case fst em of
        Scope_Granted p \<Rightarrow> if sg_task p = None \<and> m_node (snd em) = Some n then sg_paths p else []
      | _ \<Rightarrow> [])"

definition engine_grant :: "(scope_event \<times> event_meta) \<Rightarrow> bool" where
  "engine_grant em = (case fst em of Scope_Granted p \<Rightarrow> \<not> is_person (sg_decided_by p) | _ \<Rightarrow> False)"

definition names_a_subject :: "(scope_event \<times> event_meta) \<Rightarrow> bool" where
  "names_a_subject em =
     (case fst em of
        Scope_Granted p \<Rightarrow> sg_task p \<noteq> None \<or> m_node (snd em) \<noteq> None
      | Scope_Denied p \<Rightarrow> sd_task p \<noteq> None \<or> m_node (snd em) \<noteq> None
      | _ \<Rightarrow> True)"

lemma grants_step_ok_iff: "(\<exists>L'. grants_step L em = Inr L') \<longleftrightarrow> names_a_subject em"
  by (cases em; cases "fst em")
    (auto simp: grants_step_def names_a_subject_def widen_def answer_denial_def
      split: option.splits sum.splits)

lemma grants_step_per_task [fold_simps]:
  "grants_step L em = Inr L' \<Longrightarrow>
     unwrap_or (om_get (gl_per_task L') t) [] = unwrap_or (om_get (gl_per_task L) t) [] @ granted_in t em"
  by (cases em; cases "fst em")
    (auto simp: grants_step_def granted_in_def widen_def answer_denial_def
      split: option.splits sum.splits decider.splits if_splits)

lemma grants_step_person [fold_simps]:
  "grants_step L em = Inr L' \<Longrightarrow>
     person_granted_to_task L' t = person_granted_to_task L t @ person_granted_in t em"
  by (cases em; cases "fst em")
    (auto simp: grants_step_def person_granted_in_def person_granted_to_task_def widen_def answer_denial_def
      is_person_def split: option.splits sum.splits decider.splits if_splits)

lemma grants_step_node [fold_simps]:
  "grants_step L em = Inr L' \<Longrightarrow> paths_for_node L' n = paths_for_node L n @ node_granted_in n em"
  by (cases em; cases "fst em"; cases "om_get (gl_per_node L) n")
    (auto simp: grants_step_def node_granted_in_def paths_for_node_def widen_def answer_denial_def
      split: option.splits sum.splits decider.splits if_splits)

lemma grants_step_derived [fold_simps]:
  "grants_step L em = Inr L' \<Longrightarrow> derived_for L' t = or_else (derived_in t em) (derived_for L t)"
  by (cases em; cases "fst em")
    (auto simp: grants_step_def derived_in_def derived_for_def widen_def answer_denial_def
      split: option.splits sum.splits decider.splits if_splits)

lemma grants_step_granted [fold_simps]:
  "grants_step L em = Inr L' \<Longrightarrow> gl_granted L' = gl_granted L + (if engine_grant em then 1 else 0)"
  by (cases em; cases "fst em")
    (auto simp: grants_step_def engine_grant_def is_person_def widen_def answer_denial_def
      split: option.splits sum.splits decider.splits if_splits)

lemma fold_grants_facts:
  "fold_until grants_step L log = (L', None) \<Longrightarrow>
     unwrap_or (om_get (gl_per_task L') t) [] =
       unwrap_or (om_get (gl_per_task L) t) [] @ concat (map (granted_in t) log) \<and>
     person_granted_to_task L' t = person_granted_to_task L t @ concat (map (person_granted_in t) log) \<and>
     paths_for_node L' n = paths_for_node L n @ concat (map (node_granted_in n) log) \<and>
     derived_for L' t = or_else (last_opt (List.map_filter (derived_in t) log)) (derived_for L t) \<and>
     gl_granted L' = gl_granted L + of_nat (length (filter engine_grant log))"
proof (induction log arbitrary: L)
  case Nil
  then show ?case by (simp add: List.map_filter_simps)
next
  case (Cons em log)
  then obtain L1 where step: "grants_step L em = Inr L1"
    and rest: "fold_until grants_step L1 log = (L', None)"
    by (auto split: sum.splits)
  from Cons.IH [OF rest] show ?case
    using step [THEN grants_step_per_task, of t] step [THEN grants_step_person, of t]
      step [THEN grants_step_node, of n] step [THEN grants_step_derived, of t] step [THEN grants_step_granted]
    by (cases "derived_in t em")
      (auto simp: List.map_filter_simps last_opt_def or_else_def split: option.splits if_splits)
qed

section \<open>The invariant\<close>

definition grants_ok :: "grant_ledger \<Rightarrow> bool" where
  "grants_ok L \<longleftrightarrow>
     om_ok (gl_per_task L) \<and> om_ok (gl_person_per_task L) \<and> om_ok (gl_answers L) \<and>
     om_ok (gl_node_answers L) \<and> om_ok (gl_per_node L) \<and> om_ok (gl_derived L)"

definition person_within :: "grant_ledger \<Rightarrow> bool" where
  "person_within L \<longleftrightarrow>
     (\<forall>t. subseq (person_granted_to_task L t) (unwrap_or (om_get (gl_per_task L) t) []))"

definition grants_inv :: "grant_ledger \<Rightarrow> bool" where
  "grants_inv L \<longleftrightarrow> grants_ok L \<and> person_within L"

lemma grants_step_person_subseq:
  assumes "grants_step L em = Inr L'"
    and "subseq (person_granted_to_task L t) (unwrap_or (om_get (gl_per_task L) t) [])"
  shows "subseq (person_granted_to_task L' t) (unwrap_or (om_get (gl_per_task L') t) [])"
proof -
  have "subseq (person_granted_in t em) (granted_in t em)"
    by (auto simp: person_granted_in_def granted_in_def split: scope_event.split)
  with assms show ?thesis
    by (simp add: grants_step_person [OF assms(1)] grants_step_per_task [OF assms(1)] list_emb_append_mono)
qed

lemma grants_ok_step: "grants_ok L \<Longrightarrow> grants_step L em = Inr L' \<Longrightarrow> grants_ok L'"
  by (cases em; cases "fst em")
    (auto simp: grants_ok_def grants_step_def widen_def answer_denial_def
      split: option.splits sum.splits decider.splits if_splits)

lemma grants_inv_step: "grants_inv L \<Longrightarrow> grants_step L em = Inr L' \<Longrightarrow> grants_inv L'"
  unfolding grants_inv_def person_within_def
  by (blast intro: grants_ok_step grants_step_person_subseq)

interpretation grants: event_fold grants_new grants_step grants_inv
proof
  show "grants_inv grants_new"
    by (simp add: grants_inv_def grants_ok_def person_within_def grants_new_def person_granted_to_task_def)
  show "grants_inv s \<Longrightarrow> grants_step s e = Inr s' \<Longrightarrow> grants_inv s'" for s e s'
    by (rule grants_inv_step)
qed

section \<open>The properties\<close>

text \<open>C27. What a task may reach beyond its declared scope is read off the log: the paths of its latest
  derivation, then the paths of every grant that names it, in the order they were granted; what a
  person granted it is exactly the person's share of those grants; what a node was granted is the paths
  of every grant under it that names no task; and the count the cap is checked against is the number of
  the engine's own grants, a person's never among them.\<close>

theorem grants_refine_log:
  assumes "grants_of log = (L, None)"
  shows "reach_for L t =
      (case last_opt (List.map_filter (derived_in t) log) of None \<Rightarrow> [] | Some d \<Rightarrow> sdv_paths d)
        @ concat (map (granted_in t) log) \<and>
    person_granted_to_task L t = concat (map (person_granted_in t) log) \<and>
    paths_for_node L n = concat (map (node_granted_in n) log) \<and>
    gl_granted L = of_nat (length (filter engine_grant log))"
  using assms fold_grants_facts [of grants_new log L t n]
  by (auto simp: grants_of_def reach_for_def grants_new_def person_granted_to_task_def derived_for_def
      paths_for_node_def Let_def split: option.splits)

definition granting_log :: "(scope_event \<times> event_meta) list" where
  "granting_log =
     [(Scope_Derived \<lparr>sdv_task = ''t'', sdv_paths = [''a''], sdv_shapes = [], sdv_common = [], sdv_at = []\<rparr>,
        \<lparr>m_seq = 1, m_at = 0, m_node = None\<rparr>),
      (Scope_Granted \<lparr>sg_task = Some ''t'', sg_decided_by = By_Person ''p'', sg_mode = None, sg_count = 0,
          sg_paths = [''b'']\<rparr>, \<lparr>m_seq = 2, m_at = 0, m_node = Some ''n''\<rparr>),
      (Scope_Granted \<lparr>sg_task = None, sg_decided_by = By_Rule, sg_mode = Some Rules, sg_count = 1,
          sg_paths = [''c'']\<rparr>, \<lparr>m_seq = 3, m_at = 0, m_node = Some ''n''\<rparr>),
      (Scope_Granted \<lparr>sg_task = None, sg_decided_by = By_Person ''p'', sg_mode = None, sg_count = 1,
          sg_paths = [''d'', ''e'']\<rparr>, \<lparr>m_seq = 4, m_at = 0, m_node = Some ''n''\<rparr>)]"

theorem grants_refine_log_witness:
  "reach_for (fst (grants_of granting_log)) ''t'' = [''a'', ''b''] \<and>
   paths_for_node (fst (grants_of granting_log)) ''n'' = [''c'', ''d'', ''e''] \<and>
   gl_granted (fst (grants_of granting_log)) = 1"
proof -
  have "grants_of granting_log = (fst (grants_of granting_log), None)"
    by (simp add: granting_log_def grants_of_def grants_step_def widen_def)
  from grants_refine_log [OF this, of "''t''" "''n''"] show ?thesis
    by (simp add: granting_log_def List.map_filter_simps derived_in_def granted_in_def node_granted_in_def
        engine_grant_def is_person_def last_opt_def)
qed

text \<open>A log of scope events is refused exactly at its first grant or denial that names neither a
  task nor a node, and everything before it stays folded: the ledger is that of the log before it.\<close>

lemma grants_refuse_only_subjectless:
  "snd (grants_of log) = (if list_all names_a_subject log then None else Some UngrantableSubject) \<and>
   fst (grants_of log) = fst (grants_of (takeWhile names_a_subject log))"
proof -
  have "snd (fold_until grants_step L log) =
        (if list_all names_a_subject log then None else Some UngrantableSubject) \<and>
      fst (fold_until grants_step L log) = fst (fold_until grants_step L (takeWhile names_a_subject log))"
    for L
  proof (induction log arbitrary: L)
    case Nil
    then show ?case by simp
  next
    case (Cons em log)
    show ?case
    proof (cases "grants_step L em")
      case (Inl e)
      then have "\<not> names_a_subject em" using grants_step_ok_iff [of L em] by simp
      moreover have "e = UngrantableSubject"
        using Inl by (cases em; cases "fst em")
          (auto simp: grants_step_def widen_def answer_denial_def split: option.splits sum.splits)
      ultimately show ?thesis using Inl by simp
    next
      case (Inr L1)
      then have "names_a_subject em" using grants_step_ok_iff [of L em] by blast
      with Inr Cons.IH [of L1] show ?thesis by simp
    qed
  qed
  then show ?thesis by (simp add: grants_of_def)
qed

text \<open>From every prefix of every log on, only what was granted lifts a protection: the paths a
  person granted a task are a subsequence of the paths the task may reach.\<close>

lemma person_share_within_reach:
  "subseq (person_granted_to_task (fst (grants_of (take n log))) t)
     (reach_for (fst (grants_of (take n log))) t)"
proof -
  have "grants_inv (fst (grants_of (take n log)))"
    unfolding grants_of_def by (rule grants.inv_prefix)
  then show ?thesis
    by (simp add: grants_inv_def person_within_def reach_for_def Let_def list_emb_append2)
qed

end
