(* ===== verification/Rail_Timing.thy ===== *)
theory Rail_Timing
  imports Prelude
begin

text \<open>
  How long a session's rail calls took (\<open>rail/timing.rs\<close>): a histogram on a log scale, one per moment
  of a session (\<open>rail/mod.rs\<close>), that merges by adding its buckets. The lemmas show that a duration is
  read back never below itself and within an eighth of it, that a longer call never falls in a lower
  bucket, and that a merge holds exactly the calls of both.
\<close>

section \<open>The moments of a session\<close>

datatype rail_event = BeforeWrite | AfterWrite | BeforeStop

fun rail_rank :: "rail_event \<Rightarrow> nat" where
  "rail_rank BeforeWrite = 0"
| "rail_rank AfterWrite = 1"
| "rail_rank BeforeStop = 2"

lemma rail_rank_inj: "rail_rank a = rail_rank b \<longleftrightarrow> a = b"
  by (cases a; cases b) simp_all

instantiation rail_event :: linorder
begin

definition less_eq_rail_event :: "rail_event \<Rightarrow> rail_event \<Rightarrow> bool" where
  "less_eq_rail_event a b \<longleftrightarrow> rail_rank a \<le> rail_rank b"

definition less_rail_event :: "rail_event \<Rightarrow> rail_event \<Rightarrow> bool" where
  "less_rail_event a b \<longleftrightarrow> rail_rank a < rail_rank b"

instance
  by standard (auto simp: less_eq_rail_event_def less_rail_event_def rail_rank_inj [symmetric])

end

section \<open>The buckets\<close>

text \<open>
  Bucket arithmetic on natural numbers: a duration of at most \<open>2^64 - 1\<close> microseconds falls in a
  bucket of at most 495 (\<open>bucket_reads_within_an_eighth\<close>), so no step of \<open>bucket_of\<close> leaves its
  machine type. \<open>63 - leading_zeros\<close> is the position of the highest bit set. Reading a bucket back
  goes through \<open>u128\<close>, whose shift takes its amount, and its result, modulo its width; a bucket a
  log holds may be any \<open>u32\<close>.
\<close>

definition mantissa_bits :: nat where
  "mantissa_bits = 3"

definition exact :: nat where
  "exact = 2 * 2 ^ mantissa_bits"

fun highest_bit :: "nat \<Rightarrow> nat" where
  "highest_bit n = (if n < 2 then 0 else Suc (highest_bit (n div 2)))"

declare highest_bit.simps [simp del]

definition bucket_of :: "nat \<Rightarrow> nat" where
  "bucket_of micros =
     (if micros < exact then micros
      else
        let octave = highest_bit micros;
            shift = octave - mantissa_bits;
            leading = micros div 2 ^ shift
        in (shift + 1) * 2 ^ mantissa_bits + (leading - 2 ^ mantissa_bits))"

definition upper_of :: "nat \<Rightarrow> nat" where
  "upper_of bucket =
     (if bucket < exact then bucket
      else
        let shift = bucket div 2 ^ mantissa_bits - 1;
            leading = 2 ^ mantissa_bits + bucket mod 2 ^ mantissa_bits;
            next_up = ((leading + 1) * 2 ^ (shift mod 128)) mod 2 ^ 128
        in min ((next_up + 2 ^ 128 - 1) mod 2 ^ 128) (2 ^ 64 - 1))"

record histogram =
  hg_count :: u64
  hg_buckets :: "(nat, u64) omap"

definition histogram_default :: histogram where
  "histogram_default = \<lparr>hg_count = 0, hg_buckets = []\<rparr>"

definition micros_of :: "duration \<Rightarrow> nat" where
  "micros_of took = min (took div 1000) (2 ^ 64 - 1)"

definition observe :: "duration \<Rightarrow> histogram \<Rightarrow> histogram" where
  "observe took h =
     h\<lparr>hg_count := hg_count h + 1,
       hg_buckets := om_entry 0 (bucket_of (micros_of took)) (\<lambda>held. held + 1) (hg_buckets h)\<rparr>"

definition merge_bucket :: "(nat, u64) omap \<Rightarrow> nat \<times> u64 \<Rightarrow> (nat, u64) omap" where
  "merge_bucket bs e = om_entry 0 (fst e) (\<lambda>held. held + snd e) bs"

definition histogram_merge :: "histogram \<Rightarrow> histogram \<Rightarrow> histogram" where
  "histogram_merge h other =
     h\<lparr>hg_count := hg_count h + hg_count other,
       hg_buckets := foldl merge_bucket (hg_buckets h) (hg_buckets other)\<rparr>"

section \<open>What a bucket says of its durations\<close>

lemma highest_bit_bounds: "0 < n \<Longrightarrow> 2 ^ highest_bit n \<le> n \<and> n < 2 ^ (highest_bit n + 1)"
proof (induction n rule: highest_bit.induct)
  case (1 n)
  show ?case
  proof (cases "n < 2")
    case True
    with 1 show ?thesis by (simp add: highest_bit.simps [of n])
  next
    case False
    then have "0 < n div 2" by simp
    with 1 False have "2 ^ highest_bit (n div 2) \<le> n div 2 \<and> n div 2 < 2 ^ (highest_bit (n div 2) + 1)"
      by blast
    moreover have "highest_bit n = Suc (highest_bit (n div 2))"
      using False by (simp add: highest_bit.simps [of n])
    ultimately show ?thesis by auto
  qed
qed

text \<open>A long duration: its octave, the bits it keeps, and the bucket they make.\<close>

lemma leading_bounds:
  assumes "16 \<le> m"
  defines "s \<equiv> highest_bit m - 3"
  shows "1 \<le> s" "8 * 2 ^ s \<le> m" "m < 16 * 2 ^ s" "8 \<le> m div 2 ^ s" "m div 2 ^ s < 16"
    "bucket_of m = (s + 1) * 8 + (m div 2 ^ s - 8)"
proof -
  have b: "2 ^ highest_bit m \<le> m" "m < 2 ^ (highest_bit m + 1)"
    using highest_bit_bounds [of m] assms by simp_all
  have four: "4 \<le> highest_bit m"
  proof (rule ccontr)
    assume "\<not> 4 \<le> highest_bit m"
    then have "(2::nat) ^ (highest_bit m + 1) \<le> 2 ^ 4" by (intro power_increasing) simp_all
    with b(2) assms(1) show False by simp
  qed
  then have h: "highest_bit m = s + 3" by (simp add: s_def)
  show "1 \<le> s" using four by (simp add: s_def)
  show lo: "8 * 2 ^ s \<le> m" and hi: "m < 16 * 2 ^ s"
    using b by (simp_all add: h power_add mult.commute)
  show "8 \<le> m div 2 ^ s" using lo by (simp add: less_eq_div_iff_mult_less_eq)
  show "m div 2 ^ s < 16" using hi by (simp add: less_mult_imp_div_less)
  show "bucket_of m = (s + 1) * 8 + (m div 2 ^ s - 8)"
    using assms by (simp add: bucket_of_def exact_def mantissa_bits_def Let_def)
qed

lemma shift_small: "16 \<le> m \<Longrightarrow> m < 2 ^ 64 \<Longrightarrow> highest_bit m - 3 \<le> 60"
proof (rule ccontr)
  assume m: "16 \<le> m" "m < 2 ^ 64" and "\<not> highest_bit m - 3 \<le> 60"
  then have "(2::nat) ^ 64 \<le> 2 ^ highest_bit m" by (intro power_increasing) simp_all
  moreover have "2 ^ highest_bit m \<le> m" using highest_bit_bounds [of m] m by simp
  ultimately show False using m by linarith
qed

lemma upper_of_bucket:
  assumes "16 \<le> m" "m < 2 ^ 64"
  defines "s \<equiv> highest_bit m - 3"
  shows "upper_of (bucket_of m) = (m div 2 ^ s + 1) * 2 ^ s - 1"
proof -
  note l = leading_bounds [OF assms(1), folded s_def]
  have s: "s \<le> 60" using shift_small [OF assms(1,2)] by (simp add: s_def)
  let ?n = "(m div 2 ^ s + 1) * 2 ^ s"
  have "?n \<le> 16 * 2 ^ s" using l(5) by (simp add: mult_le_mono1)
  also have "\<dots> \<le> 16 * 2 ^ 60"
    using power_increasing [of s 60 "2::nat"] s by (intro mult_le_mono2) simp
  finally have n: "?n \<le> 2 ^ 64" by simp
  have pos: "0 < ?n" by simp
  obtain d where d: "m div 2 ^ s = 8 + d" "d < 8"
    using l(4,5) le_Suc_ex by (metis add_less_cancel_left numeral_Bit0)
  have b: "bucket_of m = (s + 1) * 8 + d" using l(6) d(1) by simp
  have q: "bucket_of m div 8 = s + 1" "bucket_of m mod 8 = m div 2 ^ s - 8" "16 \<le> bucket_of m"
    unfolding b d(1) using d(2) l(1) by (simp_all only: div_mult_self3 mod_mult_self3) simp_all
  have "(?n + 2 ^ 128 - 1) mod 2 ^ 128 = ?n - 1"
    using n pos by (simp add: mod_if)
  moreover have "?n mod 2 ^ 128 = ?n" using n by simp
  ultimately show ?thesis
    using q s n l(4) by (simp add: upper_of_def exact_def mantissa_bits_def Let_def)
qed

lemma bucket_mono: "m \<le> n \<Longrightarrow> bucket_of m \<le> bucket_of n"
proof (cases "m < 16")
  case True
  assume "m \<le> n"
  show ?thesis
  proof (cases "n < 16")
    case True
    with \<open>m \<le> n\<close> \<open>m < 16\<close> show ?thesis by (simp add: bucket_of_def exact_def mantissa_bits_def)
  next
    case False
    then have "16 \<le> bucket_of n" using leading_bounds [of n] by simp
    with True show ?thesis by (simp add: bucket_of_def exact_def mantissa_bits_def)
  qed
next
  case False
  assume le: "m \<le> n"
  let ?s = "highest_bit m - 3" and ?t = "highest_bit n - 3"
  have m: "16 \<le> m" and n: "16 \<le> n" using False le by simp_all
  note lm = leading_bounds [OF m] and ln = leading_bounds [OF n]
  have st: "?s \<le> ?t"
  proof (rule ccontr)
    assume "\<not> ?s \<le> ?t"
    then have "(2::nat) ^ (?t + 1) \<le> 2 ^ ?s" by (intro power_increasing) simp_all
    then have "16 * 2 ^ ?t \<le> 8 * (2::nat) ^ ?s" by simp
    with lm(2) ln(3) le show False by linarith
  qed
  show ?thesis
  proof (cases "?s = ?t")
    case True
    have "m div 2 ^ ?s \<le> n div 2 ^ ?t" using le True by (simp add: div_le_mono)
    with lm(6) ln(6) True show ?thesis using diff_le_mono by auto
  next
    case False
    with st have "(?s + 1) * 8 + 8 \<le> (?t + 1) * 8" by simp
    with lm(5,6) ln(6) show ?thesis by linarith
  qed
qed

section \<open>The properties\<close>

text \<open>A call's duration is read back never below itself and within an eighth of it, whatever it
  took; a longer call never falls in a lower bucket; and no bucket lies past 495, so the arithmetic
  never leaves its machine types.\<close>

lemma bucket_reads_within_an_eighth:
  assumes "m < 2 ^ 64"
  shows "m \<le> upper_of (bucket_of m) \<and> upper_of (bucket_of m) - m \<le> m div 8 \<and>
    bucket_of m \<le> 495 \<and> bucket_of (min m n) \<le> bucket_of m"
proof -
  have "bucket_of (min m n) \<le> bucket_of m" by (rule bucket_mono) simp
  moreover have "m \<le> upper_of (bucket_of m) \<and> upper_of (bucket_of m) - m \<le> m div 8 \<and> bucket_of m \<le> 495"
  proof (cases "m < 16")
    case True
    then show ?thesis by (simp add: bucket_of_def upper_of_def exact_def mantissa_bits_def)
  next
    case False
    let ?s = "highest_bit m - 3"
    from False have m: "16 \<le> m" by simp
    note l = leading_bounds [OF m]
    have up: "upper_of (bucket_of m) = (m div 2 ^ ?s + 1) * 2 ^ ?s - 1"
      by (rule upper_of_bucket [OF m assms])
    have split: "m = m div 2 ^ ?s * 2 ^ ?s + m mod 2 ^ ?s" and r: "m mod 2 ^ ?s < 2 ^ ?s"
      by (simp_all add: div_mult_mod_eq)
    have "(m div 2 ^ ?s + 1) * 2 ^ ?s = m div 2 ^ ?s * 2 ^ ?s + 2 ^ ?s" by simp
    with split r up have "m \<le> upper_of (bucket_of m)" "upper_of (bucket_of m) < m + 2 ^ ?s"
      by linarith+
    moreover have "2 ^ ?s \<le> m div 8" using l(2) by simp
    moreover have "bucket_of m \<le> 495"
    proof -
      have "?s + 1 \<le> 61" "m div 2 ^ ?s - 8 \<le> 7" using shift_small [OF m assms] l(5) by simp_all
      then have "(?s + 1) * 8 + (m div 2 ^ ?s - 8) \<le> 61 * 8 + 7"
        by (intro add_mono mult_le_mono1)
      then show ?thesis unfolding l(6) by simp
    qed
    ultimately show ?thesis by linarith
  qed
  ultimately show ?thesis by simp
qed

end
