(* ===== verification/Node_Events.thy ===== *)
theory Node_Events
  imports Accounting Grant_Ledger Rail_Timing
begin

text \<open>
  What the log records of a node and of its sessions: the payloads of \<open>events/node/\<close> and
  \<open>events/session/\<close>, the run tools a session calls (\<open>run_tool.rs\<close>) and the word a call is read by
  (\<open>events/session/tool_action.rs\<close>). Capabilities, confinement, fences, runner candidates and what
  an audit event carries are copied whole by every operation, so they are their serialized text.
\<close>

section \<open>The tools of a session\<close>

datatype artifact_kind = Tasks_Kind | Findings_Kind | Questions_Kind | Answers_Kind | Spec_Kind

definition artifact_kinds :: "artifact_kind list" where
  "artifact_kinds = [Tasks_Kind, Spec_Kind, Findings_Kind, Questions_Kind, Answers_Kind]"

fun submit_tool :: "artifact_kind \<Rightarrow> string option" where
  "submit_tool Tasks_Kind = Some ''yunta_submit_tasks''"
| "submit_tool Spec_Kind = Some ''yunta_submit_spec''"
| "submit_tool Questions_Kind = Some ''yunta_submit_questions''"
| "submit_tool Findings_Kind = None"
| "submit_tool Answers_Kind = None"

datatype run_tool =
  CheckArtifact | TaskStatus_Tool | Task_Tool | CheckTask | GetBlackboard | CheckScope
| RequestScopeExpansion | DeclareDeviation | PostFinding | UpdateFinding | WithdrawFinding
| Findings_Tool | AnswerFinding | Submit artifact_kind

datatype tool_action =
  Read_Action | Edit_Action | Write_Action | Search_Action | List_Action | Run_Action
| Fetch_Action | Call_Action | Submit_Action

definition run_tool_all :: "run_tool list" where
  "run_tool_all =
     [CheckArtifact, PostFinding, UpdateFinding, WithdrawFinding, Findings_Tool, AnswerFinding]
     @ map Submit (filter (\<lambda>k. submit_tool k \<noteq> None) artifact_kinds)
     @ [TaskStatus_Tool, Task_Tool, CheckTask, CheckScope, RequestScopeExpansion, DeclareDeviation,
        GetBlackboard]"

fun run_tool_name :: "run_tool \<Rightarrow> string" where
  "run_tool_name CheckArtifact = ''yunta_check_artifact''"
| "run_tool_name TaskStatus_Tool = ''yunta_task_status''"
| "run_tool_name Task_Tool = ''yunta_task''"
| "run_tool_name CheckTask = ''yunta_check_task''"
| "run_tool_name GetBlackboard = ''yunta_get_blackboard''"
| "run_tool_name CheckScope = ''yunta_check_scope''"
| "run_tool_name RequestScopeExpansion = ''yunta_request_scope_expansion''"
| "run_tool_name DeclareDeviation = ''yunta_declare_deviation''"
| "run_tool_name PostFinding = ''yunta_post_finding''"
| "run_tool_name UpdateFinding = ''yunta_update_finding''"
| "run_tool_name WithdrawFinding = ''yunta_withdraw_finding''"
| "run_tool_name Findings_Tool = ''yunta_findings''"
| "run_tool_name AnswerFinding = ''yunta_answer_finding''"
| "run_tool_name (Submit k) = unwrap_or (submit_tool k) []"

definition run_tool_parse :: "string \<Rightarrow> run_tool option" where
  "run_tool_parse name = List.find (\<lambda>t. run_tool_name t = name) run_tool_all"

definition run_tool_action :: "run_tool \<Rightarrow> tool_action" where
  "run_tool_action t = (case t of Submit _ \<Rightarrow> Submit_Action | _ \<Rightarrow> Call_Action)"

definition action_of_tool :: "string \<Rightarrow> tool_action" where
  "action_of_tool name =
     (if name = ''Read'' then Read_Action
      else if name \<in> {''Edit'', ''MultiEdit'', ''NotebookEdit'', ''file_change''} then Edit_Action
      else if name = ''Write'' then Write_Action
      else if name \<in> {''Grep'', ''WebSearch'', ''web_search''} then Search_Action
      else if name \<in> {''Glob'', ''LS''} then List_Action
      else if name \<in> {''Bash'', ''command_execution''} then Run_Action
      else if name = ''WebFetch'' then Fetch_Action
      else (case run_tool_parse name of None \<Rightarrow> Call_Action | Some t \<Rightarrow> run_tool_action t))"

section \<open>Session events\<close>

record tool_target =
  tt_display :: "string option"
  tt_digest :: content_hash

record session_opened =
  so_session :: session_id
  so_agent :: "string option"
  so_model :: "string option"
  so_effort :: "json option"
  so_capabilities :: json
  so_fence :: "json option"
  so_confinement :: "json option"
  so_task :: "task_id option"
  so_continues :: "session_id option"

datatype agent_message_type = ToolUse | Usage | Note

record agent_message =
  am_type :: agent_message_type
  am_tool_name :: "string option"
  am_action :: "tool_action option"
  am_target :: "tool_target option"
  am_input_tokens :: "u64 option"
  am_output_tokens :: "u64 option"
  am_cached_tokens :: "u64 option"
  am_note :: "json option"
  am_text :: "string option"

definition message_action :: "agent_message \<Rightarrow> tool_action" where
  "message_action p =
     unwrap_or (am_action p)
       (case am_tool_name p of None \<Rightarrow> Call_Action | Some name \<Rightarrow> action_of_tool name)"

record write_refused =
  wr_session :: session_id
  wr_target :: tool_target

record stop_refused =
  sf_session :: session_id
  sf_state :: content_hash
  sf_why :: "json list"
  sf_task :: "task_id option"

record write_formatted =
  wf_session :: session_id
  wf_run :: string
  wf_paths :: "path list"
  wf_changed :: "path list"
  wf_exit_code :: int
  wf_duration_ms :: u64
  wf_output :: "content_hash option"
  wf_timed_out :: bool

datatype run_tool_failure_cause = ApprovalBlocked | CallFailed

record run_tool_failed =
  rtf_session :: session_id
  rtf_tool :: run_tool
  rtf_cause :: run_tool_failure_cause

record rail_summary =
  rsum_session :: session_id
  rsum_model :: "string option"
  rsum_moments :: "(rail_event, histogram) omap"

record capability_degraded =
  cd_capability :: string
  cd_adapter :: adapter_id
  cd_policy :: json

datatype session_event =
  Session_Opened session_opened
| Session_Message agent_message
| CapabilityDegraded capability_degraded
| WriteRefused write_refused
| StopRefused stop_refused
| WriteFormatted write_formatted
| RailFailed json
| RailSummary rail_summary
| RunToolFailed run_tool_failed
| RunToolRefused json
| ServiceUnreachable session_id string
| ServiceReachable u64
| BestEffortFailed json

section \<open>Node events\<close>

datatype approval = Console | Review | Merge

datatype engine_fact =
  ExitStatus int
| PullRequestOpened_Fact u64 string
| ChildrenFinished nat
| SucceededFirst node_id
| TasksDone nat
| ChildRunFinished run_id
| NothingToCompare string int
| NoRegression int bool
| CoverageMet json json
| NoFinding json
| QuestionsAnswered_Fact
| QuestionsAssumed
| OptionChosen option_id
| Approved_Fact string approval
| ExecutorExited string

datatype node_outcome = Engine_Fact engine_fact | Summary string

record runner_resolved =
  rr_runner :: string
  rr_chosen :: json
  rr_discarded :: "json list"

record node_started =
  ns_attempt :: u32
  ns_from_tree :: "tree_id option"
  ns_found :: "commit_sha option"
  ns_run_scope :: "scope_glob list option"

definition attempt_from :: "u32 \<Rightarrow> tree_id \<Rightarrow> node_started" where
  "attempt_from n tree =
     \<lparr>ns_attempt = n, ns_from_tree = Some tree, ns_found = None, ns_run_scope = None\<rparr>"

record node_finished =
  nf_outcome :: node_outcome
  nf_tokens :: token_usage
  nf_tree :: "tree_id option"
  nf_commit :: "commit_sha option"

record node_failed =
  nd_failure :: failure
  nd_tokens :: token_usage
  nd_retryable :: "bool option"
  nd_tree :: "tree_id option"
  nd_commit :: "commit_sha option"
  nd_refused :: "path list"

datatype reroute_origin = OnFailure | GateChoice

record node_rerouted =
  nr_to :: node_id
  nr_cause :: failure
  nr_attempt :: "u32 option"
  nr_max :: "u32 option"
  nr_origin :: reroute_origin

definition rerouted_new ::
  "node_id \<Rightarrow> failure \<Rightarrow> reroute_origin \<Rightarrow> u32 option \<Rightarrow> u32 option \<Rightarrow> node_rerouted" where
  "rerouted_new to_id cause how attempt cap =
     (let retrying = (how = OnFailure) in
      \<lparr>nr_to = to_id, nr_cause = cause, nr_attempt = filter_opt (\<lambda>_. retrying) attempt,
       nr_max = filter_opt (\<lambda>_. retrying) cap, nr_origin = how\<rparr>)"

record criteria_checked =
  cc_task :: task_id
  cc_phase :: phase
  cc_results :: "criterion_result list"
  cc_waiting :: "string list"

record scope_checked =
  sk_task :: "task_id option"
  sk_diff :: "path list"
  sk_violations :: "path list"
  sk_denied :: "path list"

record pull_request_opened =
  pr_url :: string
  pr_number :: u64
  pr_head :: string
  pr_base :: string

datatype node_event =
  RunnerResolved runner_resolved
| Node_Started node_started
| ContextAssembled json
| CriteriaChecked criteria_checked
| ScopeChecked scope_checked
| Node_Finished node_finished
| Node_Failed node_failed
| HookExecuted json
| NodeRerouted node_rerouted
| PullRequestOpened pull_request_opened

section \<open>Degradations\<close>

record degradation =
  dg_capability :: string
  dg_adapter :: adapter_id
  dg_policy :: json
  dg_node :: "node_id option"
  dg_at :: instant

type_synonym degradation_ledger = "degradation list"

definition already_stated :: "degradation_ledger \<Rightarrow> string \<Rightarrow> bool" where
  "already_stated L c = list_ex (\<lambda>d. dg_capability d = c) L"

fun degradations_apply :: "degradation_ledger \<Rightarrow> session_event \<Rightarrow> event_meta \<Rightarrow> degradation_ledger" where
  "degradations_apply L (CapabilityDegraded p) m =
     L @ [\<lparr>dg_capability = cd_capability p, dg_adapter = cd_adapter p, dg_policy = cd_policy p,
           dg_node = m_node m, dg_at = m_at m\<rparr>]"
| "degradations_apply L _ m = L"

section \<open>The properties\<close>

text \<open>Every run tool the engine serves is read back from its name, and a name that is no tool's
  parses to none: two tools never share a name, and a kind that is not handed over in one piece has
  no submission tool.\<close>

lemma run_tool_names_read_back:
  "run_tool_parse name = Some t \<longleftrightarrow> t \<in> set run_tool_all \<and> run_tool_name t = name"
proof -
  have "distinct (map run_tool_name run_tool_all)" by code_simp
  then have inj: "inj_on run_tool_name (set run_tool_all)" by (simp add: distinct_map)
  show ?thesis
  proof
    assume "run_tool_parse name = Some t"
    then show "t \<in> set run_tool_all \<and> run_tool_name t = name"
      unfolding run_tool_parse_def by (auto dest: find_SomeD)
  next
    assume t: "t \<in> set run_tool_all \<and> run_tool_name t = name"
    then obtain u where u: "run_tool_parse name = Some u"
      by (cases "run_tool_parse name") (auto simp: run_tool_parse_def find_None_iff)
    then have "u \<in> set run_tool_all" "run_tool_name u = name"
      unfolding run_tool_parse_def by (auto dest: find_SomeD)
    with t inj have "u = t" by (auto dest: inj_onD)
    with u show "run_tool_parse name = Some t" by simp
  qed
qed

end
