(* ===== verification/Node_Ledger.thy ===== *)
theory Node_Ledger
  imports Node_Events
begin

text \<open>
  Every node's lifecycle, folded once (\<open>events/node/ledger.rs\<close> and its modules \<open>sessions.rs\<close>,
  \<open>spend.rs\<close> and \<open>standing.rs\<close>): the record of a node, one operation per kind of event, and the
  ledger with the tally of what is open and what waits for its service. The lemmas show that the
  tally always counts exactly the records that stand each way, that what a node spent is settled
  once and is in flight only while an attempt is open, and what each close leaves behind.
\<close>

section \<open>The record of a node\<close>

datatype node_wait = Wait_Gate "string option" | Wait_Questions "question_id nonempty"

datatype node_state =
  NS_Running u32
| NS_Finished node_outcome token_usage
| NS_Failed failure token_usage
| NS_Waiting node_wait

definition waiting_on :: "node_state \<Rightarrow> node_wait option" where
  "waiting_on st = (case st of NS_Waiting w \<Rightarrow> Some w | _ \<Rightarrow> None)"

record reroute =
  ro_to :: node_id
  ro_cause :: failure
  ro_attempt :: "u32 option"
  ro_max :: "u32 option"
  ro_origin :: reroute_origin
  ro_at :: instant
  ro_seq :: seq

definition reroute_of :: "node_rerouted \<Rightarrow> event_meta \<Rightarrow> reroute" where
  "reroute_of p m =
     \<lparr>ro_to = nr_to p, ro_cause = nr_cause p, ro_attempt = nr_attempt p, ro_max = nr_max p,
      ro_origin = nr_origin p, ro_at = m_at m, ro_seq = m_seq m\<rparr>"

datatype orphaned_session = Orphan_Open session_id | Orphan_NoneRecorded

record open_session =
  opn_session :: session_id
  opn_agent :: "string option"
  opn_model :: "string option"
  opn_fence :: "json option"
  opn_confinement :: "json option"
  opn_at :: instant

record tool_call =
  tc_tool_name :: "string option"
  tc_action :: tool_action
  tc_target :: "tool_target option"
  tc_at :: instant

record failed_attempt =
  fa_attempt :: u32
  fa_failure :: failure

record node_record =
  attempts :: u32
  state :: "node_state option"
  open_since :: "(seq \<times> instant) option"
  last_started :: "seq option"
  first_started :: "instant option"
  left_tree :: "tree_id option"
  failed_tree :: "tree_id option"
  rec_tree_moved :: bool
  from_tree :: "tree_id option"
  run_scope :: "scope_glob list option"
  last_terminal :: "seq option"
  last_terminal_at :: "instant option"
  last_failed :: "seq option"
  last_finished :: "seq option"
  failures :: "failure list"
  reroutes :: u32
  on_failure_reroutes :: u32
  last_reroute :: "reroute option"
  runner :: "runner_resolved option"
  first_runner :: "(seq \<times> runner_resolved) option"
  rec_spend :: spend
  attempt_settled :: token_usage
  rework :: token_usage
  working_since :: "instant option"
  active :: duration
  attempt_active :: duration
  sessions :: "open_session list"
  models :: "string list"
  refused_writes :: "(session_id \<times> tool_target) list"
  stops_refused :: "(session_id \<times> content_hash) list"
  calls :: "tool_call list"
  last_tool_failure :: "run_tool_failed option"
  last_event_at :: "instant option"
  unreachable :: bool
  failed_before :: "failed_attempt option"
  orphaned_session :: "orphaned_session option"
  last_session :: "session_id option"

definition record_default :: node_record where
  "record_default =
     \<lparr>attempts = 0, state = None, open_since = None, last_started = None, first_started = None,
      left_tree = None, failed_tree = None, rec_tree_moved = False, from_tree = None,
      run_scope = None, last_terminal = None, last_terminal_at = None, last_failed = None,
      last_finished = None, failures = [], reroutes = 0, on_failure_reroutes = 0,
      last_reroute = None, runner = None, first_runner = None, rec_spend = 0, attempt_settled = 0,
      rework = 0, working_since = None, active = 0, attempt_active = 0, sessions = [], models = [],
      refused_writes = [], stops_refused = [], calls = [], last_tool_failure = None,
      last_event_at = None, unreachable = False, failed_before = None, orphaned_session = None,
      last_session = None\<rparr>"

definition rec_failed_attempt :: "node_record \<Rightarrow> failed_attempt option" where
  "rec_failed_attempt r =
     (case state r of
        Some (NS_Failed f _) \<Rightarrow> Some \<lparr>fa_attempt = attempts r, fa_failure = f\<rparr>
      | _ \<Rightarrow> None)"

definition rec_rerouted :: "node_record \<Rightarrow> node_rerouted \<Rightarrow> event_meta \<Rightarrow> node_record" where
  "rec_rerouted r p m =
     r\<lparr>reroutes := reroutes r + 1,
       on_failure_reroutes :=
         (if nr_origin p = OnFailure then on_failure_reroutes r + 1 else on_failure_reroutes r),
       last_reroute := Some (reroute_of p m)\<rparr>"

definition rec_resolved :: "node_record \<Rightarrow> runner_resolved \<Rightarrow> event_meta \<Rightarrow> node_record" where
  "rec_resolved r p m =
     r\<lparr>first_runner := (if first_runner r = None then Some (m_seq m, p) else first_runner r),
       runner := Some p\<rparr>"

section \<open>Attempts\<close>

definition rec_started :: "node_record \<Rightarrow> node_started \<Rightarrow> event_meta \<Rightarrow> node_record" where
  "rec_started r p m =
     r\<lparr>failed_before := rec_failed_attempt r,
       from_tree := ns_from_tree p,
       run_scope := ns_run_scope p,
       orphaned_session :=
         (if open_since r \<noteq> None
          then Some (case last_opt (sessions r) of
                       Some s \<Rightarrow> Orphan_Open (opn_session s)
                     | None \<Rightarrow> Orphan_NoneRecorded)
          else None),
       attempts := max (attempts r) (ns_attempt p),
       state := Some (NS_Running (ns_attempt p)),
       open_since := Some (m_seq m, m_at m),
       last_started := Some (m_seq m),
       first_started := or_else (first_started r) (Some (m_at m)),
       rec_tree_moved := False,
       sessions := [],
       calls := [],
       last_tool_failure := None,
       working_since := Some (m_at m),
       attempt_active := 0,
       attempt_settled := 0,
       rec_spend := Spend (settled (rec_spend r)) 0\<rparr>"

definition close_working :: "node_record \<Rightarrow> instant \<Rightarrow> suspensions \<Rightarrow> node_record" where
  "close_working r at asleep =
     (case working_since r of
        None \<Rightarrow> r
      | Some since \<Rightarrow>
          (let stretch = awake_between asleep since at in
           r\<lparr>working_since := None, active := active r + stretch,
             attempt_active := attempt_active r + stretch\<rparr>))"

definition end_attempt ::
  "node_record \<Rightarrow> token_usage \<Rightarrow> event_meta \<Rightarrow> suspensions \<Rightarrow> node_record \<times> token_usage" where
  "end_attempt r tokens m asleep =
     (let attempt = attempt_settled r + tokens;
          r1 = r\<lparr>rec_spend := Spend (settled (rec_spend r) + tokens) 0,
                 rework := (if attempts r > 1 then rework r + tokens else rework r),
                 attempt_settled := 0\<rparr>;
          r2 = close_working r1 (m_at m) asleep
      in (r2\<lparr>open_since := None, last_terminal := Some (m_seq m), last_terminal_at := Some (m_at m),
             unreachable := False, sessions := [], calls := []\<rparr>,
          attempt))"

definition rec_finished ::
  "node_record \<Rightarrow> node_finished \<Rightarrow> event_meta \<Rightarrow> suspensions \<Rightarrow> node_record" where
  "rec_finished r p m asleep =
     (case end_attempt r (nf_tokens p) m asleep of
        (r', attempt) \<Rightarrow>
          r'\<lparr>last_finished := Some (m_seq m), left_tree := nf_tree p,
             state := Some (NS_Finished (nf_outcome p) attempt)\<rparr>)"

definition rec_failed ::
  "node_record \<Rightarrow> node_failed \<Rightarrow> event_meta \<Rightarrow> suspensions \<Rightarrow> node_record" where
  "rec_failed r p m asleep =
     (case end_attempt r (nd_tokens p) m asleep of
        (r', attempt) \<Rightarrow>
          r'\<lparr>last_failed := Some (m_seq m), failed_tree := nd_tree p,
             failures := failures r' @ [nd_failure p],
             state := Some (NS_Failed (nd_failure p) attempt)\<rparr>)"

section \<open>Sessions\<close>

definition ran_on :: "node_record \<Rightarrow> string \<Rightarrow> node_record" where
  "ran_on r model = (if model \<in> set (models r) then r else r\<lparr>models := models r @ [model]\<rparr>)"

definition rec_opened :: "node_record \<Rightarrow> session_opened \<Rightarrow> instant \<Rightarrow> node_record" where
  "rec_opened r p at =
     (let r1 = r\<lparr>last_session := (if so_task p = None then Some (so_session p) else last_session r),
                 sessions := sessions r @
                   [\<lparr>opn_session = so_session p, opn_agent = so_agent p, opn_model = so_model p,
                     opn_fence = so_fence p, opn_confinement = so_confinement p, opn_at = at\<rparr>]\<rparr>
      in case so_model p of None \<Rightarrow> r1 | Some model \<Rightarrow> ran_on r1 model)"

text \<open>The write through \<open>iter_mut().find(...)\<close>: the first session of that id, when it opened
  without a model, gets the one the rail heard.\<close>

fun name_model :: "session_id \<Rightarrow> string option \<Rightarrow> open_session list \<Rightarrow> open_session list option" where
  "name_model sid model [] = None"
| "name_model sid model (s # ss) =
     (if opn_session s = sid
      then (if opn_model s = None then Some (s\<lparr>opn_model := model\<rparr> # ss) else None)
      else map_option ((#) s) (name_model sid model ss))"

definition heard_model :: "node_record \<Rightarrow> rail_summary \<Rightarrow> node_record" where
  "heard_model r p =
     (case name_model (rsum_session p) (rsum_model p) (sessions r) of
        None \<Rightarrow> r
      | Some ss \<Rightarrow>
          (let r1 = r\<lparr>sessions := ss\<rparr> in
           case rsum_model p of None \<Rightarrow> r1 | Some model \<Rightarrow> ran_on r1 model))"

definition rec_message :: "node_record \<Rightarrow> agent_message \<Rightarrow> instant \<Rightarrow> node_record" where
  "rec_message r p at =
     (case am_type p of
        ToolUse \<Rightarrow>
          r\<lparr>calls := calls r @ [\<lparr>tc_tool_name = am_tool_name p, tc_action = message_action p,
                                 tc_target = am_target p, tc_at = at\<rparr>]\<rparr>
      | Usage \<Rightarrow>
          if open_since r \<noteq> None
          then r\<lparr>rec_spend := Spend (settled (rec_spend r))
                   (in_flight (rec_spend r) +
                    TokenUsage (unwrap_or (am_input_tokens p) 0) (unwrap_or (am_output_tokens p) 0)
                      (am_cached_tokens p))\<rparr>
          else r
      | Note \<Rightarrow> r)"

fun rec_session :: "node_record \<Rightarrow> session_event \<Rightarrow> event_meta \<Rightarrow> node_record" where
  "rec_session r (Session_Opened p) m = rec_opened r p (m_at m)"
| "rec_session r (WriteRefused p) m =
     r\<lparr>refused_writes := refused_writes r @ [(wr_session p, wr_target p)]\<rparr>"
| "rec_session r (StopRefused p) m =
     r\<lparr>stops_refused := stops_refused r @ [(sf_session p, sf_state p)]\<rparr>"
| "rec_session r (RunToolFailed p) m = r\<lparr>last_tool_failure := Some p\<rparr>"
| "rec_session r (RailSummary p) m = heard_model r p"
| "rec_session r (ServiceUnreachable _ _) m = r\<lparr>unreachable := True\<rparr>"
| "rec_session r (ServiceReachable _) m = r\<lparr>unreachable := False\<rparr>"
| "rec_session r (Session_Message p) m = rec_message r p (m_at m)"
| "rec_session r _ m = r"

section \<open>The tally\<close>

record standing =
  st_open :: bool
  st_offline :: bool

definition rec_standing :: "node_record \<Rightarrow> standing" where
  "rec_standing r = \<lparr>st_open = (open_since r \<noteq> None), st_offline = unreachable r\<rparr>"

record tally =
  ty_open :: nat
  ty_offline :: nat
  ty_open_offline :: nat

definition tally_default :: tally where
  "tally_default = \<lparr>ty_open = 0, ty_offline = 0, ty_open_offline = 0\<rparr>"

definition tally_add :: "tally \<Rightarrow> standing \<Rightarrow> tally" where
  "tally_add t s =
     \<lparr>ty_open = ty_open t + of_bool (st_open s), ty_offline = ty_offline t + of_bool (st_offline s),
      ty_open_offline = ty_open_offline t + of_bool (st_open s \<and> st_offline s)\<rparr>"

definition tally_take :: "tally \<Rightarrow> standing \<Rightarrow> tally" where
  "tally_take t s =
     \<lparr>ty_open = ty_open t - of_bool (st_open s), ty_offline = ty_offline t - of_bool (st_offline s),
      ty_open_offline = ty_open_offline t - of_bool (st_open s \<and> st_offline s)\<rparr>"

section \<open>The ledger\<close>

record node_ledger =
  per_node :: "(node_id, node_record) omap"
  nl_tally :: tally

definition nodes_new :: node_ledger where
  "nodes_new = \<lparr>per_node = [], nl_tally = tally_default\<rparr>"

definition nodes_get :: "node_ledger \<Rightarrow> node_id \<Rightarrow> node_record option" where
  "nodes_get L n = om_get (per_node L) n"

definition node_state_of :: "node_ledger \<Rightarrow> node_id \<Rightarrow> node_state option" where
  "node_state_of L n = Option.bind (om_get (per_node L) n) state"

definition has_state :: "node_ledger \<Rightarrow> node_id \<Rightarrow> bool" where
  "has_state L n = is_some_and (om_get (per_node L) n) (\<lambda>r. state r \<noteq> None)"

definition track :: "node_ledger \<Rightarrow> standing \<Rightarrow> standing \<Rightarrow> node_ledger" where
  "track L before after = L\<lparr>nl_tally := tally_take (tally_add (nl_tally L) after) before\<rparr>"

definition attempting :: "node_ledger \<Rightarrow> bool" where
  "attempting L \<longleftrightarrow> ty_open (nl_tally L) > 0"

definition attempts_offline :: "node_ledger \<Rightarrow> bool" where
  "attempts_offline L \<longleftrightarrow>
     ty_offline (nl_tally L) > 0 \<and> ty_open_offline (nl_tally L) = ty_open (nl_tally L)"

definition set_state :: "node_ledger \<Rightarrow> node_id \<Rightarrow> node_state option \<Rightarrow> node_ledger" where
  "set_state L n st = L\<lparr>per_node := om_entry record_default n (\<lambda>r. r\<lparr>state := st\<rparr>) (per_node L)\<rparr>"

definition overlapped_by :: "seq \<Rightarrow> node_record \<Rightarrow> bool" where
  "overlapped_by started beside_rec \<longleftrightarrow>
     (case state beside_rec of Some (NS_Running _) \<Rightarrow> True | _ \<Rightarrow> False) \<or>
     is_some_and (last_terminal beside_rec) (\<lambda>closed. closed > started)"

definition moved_beside :: "node_ledger \<Rightarrow> node_id \<Rightarrow> tree_id \<Rightarrow> node_ledger" where
  "moved_beside L writer left =
     (case om_get (per_node L) writer of
        None \<Rightarrow> L
      | Some r \<Rightarrow>
          (case (from_tree r, last_started r) of
             (Some from_t, Some started) \<Rightarrow>
               if from_t = left then L
               else L\<lparr>per_node := map (\<lambda>(n, b).
                        if n \<noteq> writer \<and> overlapped_by started b \<and> from_tree b \<noteq> Some left
                        then (n, b\<lparr>rec_tree_moved := True\<rparr>) else (n, b)) (per_node L)\<rparr>
           | _ \<Rightarrow> L))"

definition left_by_close :: "node_event \<Rightarrow> tree_id option" where
  "left_by_close e =
     (case e of Node_Finished p \<Rightarrow> nf_tree p | Node_Failed p \<Rightarrow> nd_tree p | _ \<Rightarrow> None)"

fun rec_node :: "node_record \<Rightarrow> node_event \<Rightarrow> event_meta \<Rightarrow> suspensions \<Rightarrow> node_record" where
  "rec_node r (Node_Started p) m asleep = rec_started r p m"
| "rec_node r (Node_Finished p) m asleep = rec_finished r p m asleep"
| "rec_node r (Node_Failed p) m asleep = rec_failed r p m asleep"
| "rec_node r (NodeRerouted p) m asleep = rec_rerouted r p m"
| "rec_node r (RunnerResolved p) m asleep = rec_resolved r p m"
| "rec_node r _ m asleep = r"

text \<open>One event on one record, with the tally moved from what the record was to what it is.\<close>

definition update_record ::
  "node_ledger \<Rightarrow> node_id \<Rightarrow> instant \<Rightarrow> (node_record \<Rightarrow> node_record) \<Rightarrow> node_ledger" where
  "update_record L n at f =
     (let r = unwrap_or (om_get (per_node L) n) record_default;
          before = rec_standing r;
          r' = f (r\<lparr>last_event_at := Some at\<rparr>)
      in track (L\<lparr>per_node := om_put n r' (per_node L)\<rparr>) before (rec_standing r'))"

definition nodes_apply :: "node_ledger \<Rightarrow> node_event \<Rightarrow> event_meta \<Rightarrow> suspensions \<Rightarrow> node_ledger" where
  "nodes_apply L e m asleep =
     (case m_node m of
        None \<Rightarrow> L
      | Some n \<Rightarrow>
          (let L' = update_record L n (m_at m) (\<lambda>r. rec_node r e m asleep) in
           case left_by_close e of None \<Rightarrow> L' | Some left \<Rightarrow> moved_beside L' n left))"

definition nodes_apply_session ::
  "node_ledger \<Rightarrow> session_event \<Rightarrow> event_meta \<Rightarrow> subject_error + node_ledger" where
  "nodes_apply_session L e m =
     (case m_node m of
        None \<Rightarrow> Inl SessionWithoutNode
      | Some n \<Rightarrow> Inr (update_record L n (m_at m) (\<lambda>r. rec_session r e m)))"

definition stop_refused_on :: "node_ledger \<Rightarrow> node_id \<Rightarrow> session_id \<Rightarrow> content_hash \<Rightarrow> bool" where
  "stop_refused_on L n sid st =
     is_some_and (om_get (per_node L) n) (\<lambda>r. list_ex (\<lambda>(s, h). s = sid \<and> h = st) (stops_refused r))"

definition stop_working :: "node_ledger \<Rightarrow> node_id \<Rightarrow> event_meta \<Rightarrow> suspensions \<Rightarrow> node_ledger" where
  "stop_working L n m asleep =
     L\<lparr>per_node := om_adjust n (\<lambda>r. close_working r (m_at m) asleep) (per_node L)\<rparr>"

definition rec_settle :: "node_record \<Rightarrow> token_usage \<Rightarrow> node_record" where
  "rec_settle r asked =
     r\<lparr>rec_spend := Spend (settled (rec_spend r) + asked)
                     (usage_saturating_sub (in_flight (rec_spend r)) asked),
       attempt_settled := attempt_settled r + asked,
       rework := (if attempts r > 1 then rework r + asked else rework r)\<rparr>"

definition settle_asking ::
  "node_ledger \<Rightarrow> node_id \<Rightarrow> token_usage \<Rightarrow> event_meta \<Rightarrow> suspensions \<Rightarrow> node_ledger" where
  "settle_asking L n asked m asleep =
     stop_working
       (L\<lparr>per_node := om_entry record_default n (\<lambda>r. rec_settle r asked) (per_node L)\<rparr>) n m asleep"

definition rec_resume :: "node_record \<Rightarrow> instant \<Rightarrow> node_record" where
  "rec_resume r at =
     (if open_since r \<noteq> None then r\<lparr>working_since := or_else (working_since r) (Some at)\<rparr> else r)"

definition resume_working :: "node_ledger \<Rightarrow> node_id \<Rightarrow> instant \<Rightarrow> node_ledger" where
  "resume_working L n at = L\<lparr>per_node := om_adjust n (\<lambda>r. rec_resume r at) (per_node L)\<rparr>"

text \<open>The trees a node's record names, and the newest over every node.\<close>

definition tree_marks :: "bool \<Rightarrow> node_record \<Rightarrow> (seq \<times> tree_id) list" where
  "tree_marks closes r =
     List.map_filter (\<lambda>x. x)
       [zip_opt (last_started r) (from_tree r),
        filter_opt (\<lambda>_. closes) (zip_opt (last_finished r) (left_tree r)),
        filter_opt (\<lambda>_. closes) (zip_opt (last_failed r) (failed_tree r))]"

definition latest_tree :: "node_ledger \<Rightarrow> (node_id \<Rightarrow> bool) \<Rightarrow> (seq \<times> tree_id) option" where
  "latest_tree L counts_close =
     max_by_key fst (concat (map (\<lambda>(n, r). tree_marks (counts_close n) r) (per_node L)))"

text \<open>Every way the replay drives the ledger.\<close>

datatype node_op =
  Op_Node node_event event_meta suspensions
| Op_Session session_event event_meta
| Op_State node_id "node_state option"
| Op_Settle node_id token_usage event_meta suspensions
| Op_Stop node_id event_meta suspensions
| Op_Resume node_id instant

fun node_step :: "node_ledger \<Rightarrow> node_op \<Rightarrow> subject_error + node_ledger" where
  "node_step L (Op_Node e m asleep) = Inr (nodes_apply L e m asleep)"
| "node_step L (Op_Session e m) = nodes_apply_session L e m"
| "node_step L (Op_State n st) = Inr (set_state L n st)"
| "node_step L (Op_Settle n asked m asleep) = Inr (settle_asking L n asked m asleep)"
| "node_step L (Op_Stop n m asleep) = Inr (stop_working L n m asleep)"
| "node_step L (Op_Resume n at) = Inr (resume_working L n at)"

section \<open>The tally counts what stands\<close>

definition count_of :: "('v \<Rightarrow> bool) \<Rightarrow> ('k, 'v) omap \<Rightarrow> nat" where
  "count_of p m = length (filter (\<lambda>e. p (snd e)) m)"

lemma om_get_below:
  assumes "om_ok ((k', v') # m)" "k \<le> k'"
  shows "om_get m k = None"
proof -
  have "\<forall>x \<in> set (map fst m). k' < x" using assms(1) by (simp add: om_ok_def)
  then have "k \<notin> set (map fst m)" using assms(2) by (metis leD)
  then show ?thesis by (simp add: om_get_def map_of_eq_None_iff)
qed

lemma count_of_put:
  "om_ok m \<Longrightarrow> count_of p (om_put k v m) + of_bool (is_some_and (om_get m k) p) = count_of p m + of_bool (p v)"
proof (induction k v m rule: om_put.induct)
  case (1 k v)
  then show ?case by (simp add: count_of_def)
next
  case (2 k v k' v' m)
  have ok: "om_ok m" using "2.prems" by (simp add: om_ok_def)
  consider "k < k'" | "k = k'" | "k' < k" by (meson linorder_less_linear)
  then show ?case
  proof cases
    case 1
    then have "om_get ((k', v') # m) k = None"
      using om_get_below [OF "2.prems"] by (simp add: om_get_def)
    with 1 show ?thesis by (simp add: count_of_def)
  next
    case 2
    then show ?thesis by (simp add: count_of_def om_get_def)
  next
    case 3
    then have "\<not> k < k'" "k \<noteq> k'" by auto
    from "2.IH" [OF this ok] this show ?thesis by (auto simp: count_of_def om_get_def)
  qed
qed

lemma count_of_pos: "om_ok m \<Longrightarrow> count_of p m > 0 \<longleftrightarrow> (\<exists>k v. om_get m k = Some v \<and> p v)"
  by (simp add: count_of_def filter_empty_conv flip: om.entries_iff) force

lemma count_of_conj_eq:
  "om_ok m \<Longrightarrow> count_of (\<lambda>v. p v \<and> q v) m = count_of p m \<longleftrightarrow>
     (\<forall>k v. om_get m k = Some v \<longrightarrow> p v \<longrightarrow> q v)"
proof -
  assume ok: "om_ok m"
  have le: "length (filter (\<lambda>e. p (snd e) \<and> q (snd e)) m) \<le> length (filter (\<lambda>e. p (snd e)) m)" for m
    by (induction m) auto
  have "length (filter (\<lambda>e. p (snd e) \<and> q (snd e)) m) = length (filter (\<lambda>e. p (snd e)) m) \<longleftrightarrow>
      (\<forall>e \<in> set m. p (snd e) \<longrightarrow> q (snd e))" for m
  proof (induction m)
    case (Cons e m)
    then show ?case using le [of m] by auto
  qed simp
  then show ?thesis by (force simp: count_of_def simp flip: om.entries_iff [OF ok])
qed

definition tally_of :: "(node_id, node_record) omap \<Rightarrow> tally" where
  "tally_of m =
     \<lparr>ty_open = count_of (\<lambda>r. st_open (rec_standing r)) m,
      ty_offline = count_of (\<lambda>r. st_offline (rec_standing r)) m,
      ty_open_offline = count_of (\<lambda>r. st_open (rec_standing r) \<and> st_offline (rec_standing r)) m\<rparr>"

lemma standing_default [simp]: "rec_standing record_default = \<lparr>st_open = False, st_offline = False\<rparr>"
  by (simp add: rec_standing_def record_default_def)

lemma tally_put:
  assumes "om_ok m"
  shows "tally_of (om_put n r m) =
    tally_take (tally_add (tally_of m) (rec_standing r))
      (rec_standing (unwrap_or (om_get m n) record_default))"
proof -
  have old: "is_some_and (om_get m n) p = p (unwrap_or (om_get m n) record_default)"
    if "\<not> p record_default" for p :: "node_record \<Rightarrow> bool"
    using that by (cases "om_get m n") auto
  have count: "count_of p (om_put n r m) =
      count_of p m + of_bool (p r) - of_bool (p (unwrap_or (om_get m n) record_default))"
    if "\<not> p record_default" for p :: "node_record \<Rightarrow> bool"
    using count_of_put [OF assms, of p n r] old [of p] that by simp
  show ?thesis
    by (simp add: tally_of_def tally_take_def tally_add_def count)
qed

lemma tally_take_add [simp]: "tally_take (tally_add t s) s = t"
  by (cases t) (simp add: tally_take_def tally_add_def)

lemma tally_put_same:
  "om_ok m \<Longrightarrow> rec_standing r = rec_standing (unwrap_or (om_get m n) record_default)
     \<Longrightarrow> tally_of (om_put n r m) = tally_of m"
  by (simp add: tally_put)

section \<open>The invariant of a record\<close>

definition rec_inv :: "node_record \<Rightarrow> bool" where
  "rec_inv r \<longleftrightarrow>
     (open_since r = None \<longrightarrow> in_flight (rec_spend r) = 0 \<and> working_since r = None) \<and>
     (\<forall>sq at. open_since r = Some (sq, at) \<longrightarrow> last_started r = Some sq) \<and>
     attempt_active r \<le> active r \<and>
     (last_terminal r = last_failed r \<or> last_terminal r = last_finished r)"

lemma rec_inv_default [simp]: "rec_inv record_default"
  by (simp add: rec_inv_def record_default_def)

lemma close_working_frame [frame_simps]:
  "open_since (close_working r at asleep) = open_since r"
  "unreachable (close_working r at asleep) = unreachable r"
  "rec_spend (close_working r at asleep) = rec_spend r"
  "attempts (close_working r at asleep) = attempts r"
  "state (close_working r at asleep) = state r"
  "last_started (close_working r at asleep) = last_started r"
  "last_terminal (close_working r at asleep) = last_terminal r"
  "last_failed (close_working r at asleep) = last_failed r"
  "last_finished (close_working r at asleep) = last_finished r"
  "from_tree (close_working r at asleep) = from_tree r"
  "rec_tree_moved (close_working r at asleep) = rec_tree_moved r"
  "attempt_settled (close_working r at asleep) = attempt_settled r"
  "working_since (close_working r at asleep) = None"
  by (simp_all add: close_working_def Let_def split: option.split)

lemma close_working_active:
  "attempt_active r \<le> active r \<Longrightarrow>
     attempt_active (close_working r at asleep) \<le> active (close_working r at asleep)"
  by (simp add: close_working_def Let_def split: option.split)

lemma ran_on_frame [frame_simps]:
  "open_since (ran_on r md) = open_since r" "unreachable (ran_on r md) = unreachable r"
  "rec_spend (ran_on r md) = rec_spend r" "attempts (ran_on r md) = attempts r"
  "last_started (ran_on r md) = last_started r" "last_terminal (ran_on r md) = last_terminal r"
  "last_failed (ran_on r md) = last_failed r" "last_finished (ran_on r md) = last_finished r"
  "working_since (ran_on r md) = working_since r" "active (ran_on r md) = active r"
  "attempt_active (ran_on r md) = attempt_active r"
  by (simp_all add: ran_on_def)

lemma rec_inv_close_working: "rec_inv r \<Longrightarrow> rec_inv (close_working r at asleep)"
  by (auto simp: rec_inv_def frame_simps close_working_active)

lemma rec_inv_started: "rec_inv r \<Longrightarrow> rec_inv (rec_started r p m)"
  by (simp add: rec_inv_def rec_started_def)

lemma rec_inv_closed: "rec_inv r \<Longrightarrow> rec_inv (rec_finished r p m asleep)"
  "rec_inv r \<Longrightarrow> rec_inv (rec_failed r q m asleep)"
proof -
  let ?r1 = "\<lambda>tokens. r\<lparr>rec_spend := Spend (settled (rec_spend r) + tokens) 0,
      rework := (if attempts r > 1 then rework r + tokens else rework r), attempt_settled := 0\<rparr>"
  assume "rec_inv r"
  then have "attempt_active (?r1 tokens) \<le> active (?r1 tokens)" for tokens
    by (simp add: rec_inv_def)
  note act = close_working_active [OF this]
  show "rec_inv (rec_finished r p m asleep)" "rec_inv (rec_failed r q m asleep)"
    using act by (simp_all add: rec_inv_def rec_finished_def rec_failed_def end_attempt_def Let_def frame_simps)
qed

lemma rec_inv_event_at [simp]: "rec_inv (r\<lparr>last_event_at := at\<rparr>) = rec_inv r"
  by (simp add: rec_inv_def)

lemma rec_inv_node: "rec_inv r \<Longrightarrow> rec_inv (rec_node r e m asleep)"
  by (cases e) (simp_all add: rec_inv_started rec_inv_closed, simp_all add: rec_inv_def rec_rerouted_def rec_resolved_def)

lemma rec_inv_session: "rec_inv r \<Longrightarrow> rec_inv (rec_session r e m)"
  by (cases e)
    (auto simp: rec_inv_def rec_opened_def heard_model_def rec_message_def frame_simps Let_def
      split: option.split agent_message_type.split)

lemma rec_inv_settle: "rec_inv r \<Longrightarrow> rec_inv (rec_settle r asked)"
proof -
  have "usage_saturating_sub 0 asked = 0"
    by (rule token_usage.expand) (simp add: usage_saturating_sub_def saturating_sub64_def)
  then show "rec_inv r \<Longrightarrow> rec_inv (rec_settle r asked)"
    by (simp add: rec_inv_def rec_settle_def)
qed

lemma rec_inv_resume: "rec_inv r \<Longrightarrow> rec_inv (rec_resume r at)"
  by (simp add: rec_inv_def rec_resume_def)

lemma rec_inv_set: "rec_inv r \<Longrightarrow> rec_inv (r\<lparr>state := st\<rparr>)"
  "rec_inv r \<Longrightarrow> rec_inv (r\<lparr>rec_tree_moved := b\<rparr>)"
  by (simp_all add: rec_inv_def)

section \<open>The invariant of the ledger\<close>

definition nodes_inv :: "node_ledger \<Rightarrow> bool" where
  "nodes_inv L \<longleftrightarrow> om_ok (per_node L) \<and> nl_tally L = tally_of (per_node L) \<and>
     (\<forall>n r. om_get (per_node L) n = Some r \<longrightarrow> rec_inv r)"

lemma nodes_inv_record: "nodes_inv L \<Longrightarrow> rec_inv (unwrap_or (om_get (per_node L) n) record_default)"
  by (cases "om_get (per_node L) n") (auto simp: nodes_inv_def)

lemma nodes_inv_update:
  assumes "nodes_inv L" "\<And>r. rec_inv r \<Longrightarrow> rec_inv (f r)"
  shows "nodes_inv (update_record L n at f)"
proof -
  have "rec_inv (f ((unwrap_or (om_get (per_node L) n) record_default)\<lparr>last_event_at := Some at\<rparr>))"
    using assms(2) nodes_inv_record [OF assms(1)] by simp
  with assms(1) show ?thesis
    by (auto simp: nodes_inv_def update_record_def track_def Let_def tally_put)
qed

lemma nodes_inv_same:
  assumes "nodes_inv L" "rec_inv r"
    and "rec_standing r = rec_standing (unwrap_or (om_get (per_node L) n) record_default)"
  shows "nodes_inv (L\<lparr>per_node := om_put n r (per_node L)\<rparr>)"
  using assms by (auto simp: nodes_inv_def tally_put_same)

lemma nodes_inv_entry:
  assumes "nodes_inv L" "\<And>r. rec_inv r \<Longrightarrow> rec_inv (f r)" "\<And>r. rec_standing (f r) = rec_standing r"
  shows "nodes_inv (L\<lparr>per_node := om_entry record_default n f (per_node L)\<rparr>)"
  unfolding om_entry_def using assms nodes_inv_record [OF assms(1)] by (intro nodes_inv_same) auto

lemma nodes_inv_adjust:
  assumes "nodes_inv L" "\<And>r. rec_inv r \<Longrightarrow> rec_inv (f r)" "\<And>r. rec_standing (f r) = rec_standing r"
  shows "nodes_inv (L\<lparr>per_node := om_adjust n f (per_node L)\<rparr>)"
proof (cases "om_get (per_node L) n")
  case None
  with assms(1) show ?thesis by (simp add: om_adjust_def)
next
  case (Some r)
  with assms(1,2) have "rec_inv (f r)" by (auto simp: nodes_inv_def)
  with Some show ?thesis unfolding om_adjust_def
    using nodes_inv_same [OF assms(1), of "f r" n] assms(3) by simp
qed

lemma om_get_map_values:
  "om_get (map (\<lambda>(k, v). (k, g k v)) m) k = map_option (g k) (om_get m k)"
  by (induction m) (auto simp: om_get_def)

lemma om_ok_map_values: "om_ok (map (\<lambda>(k, v). (k, g k v)) m) = om_ok m"
  by (simp add: om_ok_def comp_def split_def)

lemma count_of_map_values:
  "(\<And>k v. p (g k v) = p v) \<Longrightarrow> count_of p (map (\<lambda>(k, v). (k, g k v)) m) = count_of p m"
  by (induction m) (auto simp: count_of_def)

definition mark_moved :: "node_id \<Rightarrow> tree_id \<Rightarrow> seq \<Rightarrow> node_id \<Rightarrow> node_record \<Rightarrow> node_record" where
  "mark_moved writer left started n b =
     (if n \<noteq> writer \<and> overlapped_by started b \<and> from_tree b \<noteq> Some left
      then b\<lparr>rec_tree_moved := True\<rparr> else b)"

lemma moved_beside_alt:
  "moved_beside L writer left =
     (case om_get (per_node L) writer of
        None \<Rightarrow> L
      | Some r \<Rightarrow>
          (case (from_tree r, last_started r) of
             (Some from_t, Some started) \<Rightarrow>
               if from_t = left then L
               else L\<lparr>per_node := map (\<lambda>(n, b). (n, mark_moved writer left started n b)) (per_node L)\<rparr>
           | _ \<Rightarrow> L))"
proof -
  have "(\<lambda>(n, b). if n \<noteq> writer \<and> overlapped_by started b \<and> from_tree b \<noteq> Some left
        then (n, b\<lparr>rec_tree_moved := True\<rparr>) else (n, b)) =
      (\<lambda>(n, b). (n, mark_moved writer left started n b))" for started
    by (auto simp: mark_moved_def)
  then show ?thesis unfolding moved_beside_def by (simp only:)
qed

lemma rec_standing_mark [simp]: "rec_standing (mark_moved w l s n b) = rec_standing b"
  by (simp add: mark_moved_def rec_standing_def)

lemma rec_inv_mark: "rec_inv b \<Longrightarrow> rec_inv (mark_moved w l s n b)"
  by (simp add: mark_moved_def rec_inv_set)

lemma nodes_inv_moved_beside: "nodes_inv L \<Longrightarrow> nodes_inv (moved_beside L writer left)"
proof -
  assume inv: "nodes_inv L"
  have "nodes_inv (L\<lparr>per_node := map (\<lambda>(n, b). (n, mark_moved writer left started n b)) (per_node L)\<rparr>)"
    for started
    using inv
    by (auto simp: nodes_inv_def om_ok_map_values om_get_map_values tally_of_def count_of_map_values
        rec_inv_mark)
  with inv show ?thesis
    by (auto simp: moved_beside_alt split: option.splits)
qed

lemma standing_frame [frame_simps]:
  "rec_standing (close_working r at asleep) = rec_standing r"
  "rec_standing (rec_settle r asked) = rec_standing r"
  "rec_standing (rec_resume r at) = rec_standing r"
  "rec_standing (r\<lparr>state := st\<rparr>) = rec_standing r"
  by (simp_all add: rec_standing_def frame_simps rec_settle_def rec_resume_def)

lemma nodes_inv_step: "nodes_inv L \<Longrightarrow> node_step L x = Inr L' \<Longrightarrow> nodes_inv L'"
proof (cases x)
  case (Op_Node e m asleep)
  assume "nodes_inv L" "node_step L x = Inr L'"
  with Op_Node show ?thesis
    by (auto simp: nodes_apply_def Let_def rec_inv_node
        intro!: nodes_inv_update nodes_inv_moved_beside split: option.splits)
next
  case (Op_Session e m)
  assume "nodes_inv L" "node_step L x = Inr L'"
  with Op_Session show ?thesis
    by (auto simp: nodes_apply_session_def rec_inv_session intro!: nodes_inv_update split: option.splits)
next
  case (Op_State n st)
  assume "nodes_inv L" "node_step L x = Inr L'"
  with Op_State show ?thesis
    by (auto simp: set_state_def rec_inv_set frame_simps intro!: nodes_inv_entry)
next
  case (Op_Settle n asked m asleep)
  assume "nodes_inv L" "node_step L x = Inr L'"
  with Op_Settle show ?thesis
    by (auto simp: settle_asking_def stop_working_def rec_inv_settle rec_inv_close_working frame_simps
        intro!: nodes_inv_adjust [where L = "L\<lparr>per_node := p\<rparr>" for p, simplified] nodes_inv_entry)
next
  case (Op_Stop n m asleep)
  assume "nodes_inv L" "node_step L x = Inr L'"
  with Op_Stop show ?thesis
    by (auto simp: stop_working_def rec_inv_close_working frame_simps intro!: nodes_inv_adjust)
next
  case (Op_Resume n at)
  assume "nodes_inv L" "node_step L x = Inr L'"
  with Op_Resume show ?thesis
    by (auto simp: resume_working_def rec_inv_resume frame_simps intro!: nodes_inv_adjust)
qed

interpretation nodes: event_fold nodes_new node_step nodes_inv
proof
  show "nodes_inv nodes_new"
    by (simp add: nodes_inv_def nodes_new_def tally_of_def tally_default_def count_of_def)
  show "nodes_inv s \<Longrightarrow> node_step s e = Inr s' \<Longrightarrow> nodes_inv s'" for s e s'
    by (rule nodes_inv_step)
qed

section \<open>What a log of operations adds up to\<close>

definition rec_of :: "node_ledger \<Rightarrow> node_id \<Rightarrow> node_record" where
  "rec_of L n = unwrap_or (om_get (per_node L) n) record_default"

lemma rec_of_update [simp]:
  "rec_of (update_record L n at f) k =
     (if k = n then f ((rec_of L n)\<lparr>last_event_at := Some at\<rparr>) else rec_of L k)"
  by (simp add: rec_of_def update_record_def track_def Let_def)

lemma rec_of_moved_beside:
  "rec_of (moved_beside L w left) n =
     (case (from_tree (rec_of L w), last_started (rec_of L w)) of
        (Some from_t, Some started) \<Rightarrow>
          if from_t = left then rec_of L n
          else if om_get (per_node L) n = None then record_default
          else mark_moved w left started n (rec_of L n)
      | _ \<Rightarrow> rec_of L n)"
  by (cases "om_get (per_node L) w"; cases "om_get (per_node L) n")
    (auto simp: moved_beside_alt rec_of_def om_get_map_values record_default_def split: option.splits)

lemma mark_moved_frame [frame_simps]:
  "rec_spend (mark_moved w l s n b) = rec_spend b" "attempts (mark_moved w l s n b) = attempts b"
  by (simp_all add: mark_moved_def)

lemma moved_beside_frame [frame_simps]:
  "rec_spend (rec_of (moved_beside L w left) n) = rec_spend (rec_of L n)"
  "attempts (rec_of (moved_beside L w left) n) = attempts (rec_of L n)"
  by (simp_all add: rec_of_moved_beside frame_simps split: option.split)
    (auto simp: rec_of_def)

definition terminal_tokens :: "node_event \<Rightarrow> token_usage" where
  "terminal_tokens e =
     (case e of Node_Finished p \<Rightarrow> nf_tokens p | Node_Failed p \<Rightarrow> nd_tokens p | _ \<Rightarrow> 0)"

definition settles_in :: "node_id \<Rightarrow> node_op \<Rightarrow> token_usage" where
  "settles_in n x =
     (case x of
        Op_Node e m _ \<Rightarrow> if m_node m = Some n then terminal_tokens e else 0
      | Op_Settle n' asked _ _ \<Rightarrow> if n' = n then asked else 0
      | _ \<Rightarrow> 0)"

definition start_number :: "node_event \<Rightarrow> u32" where
  "start_number e = (case e of Node_Started p \<Rightarrow> ns_attempt p | _ \<Rightarrow> 0)"

definition starts_in :: "node_id \<Rightarrow> node_op \<Rightarrow> u32" where
  "starts_in n x =
     (case x of Op_Node e m _ \<Rightarrow> if m_node m = Some n then start_number e else 0 | _ \<Rightarrow> 0)"

lemma rec_node_settled:
  "settled (rec_spend (rec_node r e m asleep)) = settled (rec_spend r) + terminal_tokens e"
  by (cases e) (auto simp: rec_started_def rec_finished_def rec_failed_def end_attempt_def Let_def
      rec_rerouted_def rec_resolved_def terminal_tokens_def frame_simps)

lemma rec_node_attempts:
  "attempts (rec_node r e m asleep) = max (attempts r) (start_number e)"
  by (cases e) (auto simp: start_number_def rec_started_def rec_finished_def rec_failed_def end_attempt_def Let_def
      rec_rerouted_def rec_resolved_def frame_simps max_def)

lemma rec_session_frame [frame_simps]:
  "settled (rec_spend (rec_session r e m)) = settled (rec_spend r)"
  "attempts (rec_session r e m) = attempts r"
  by (cases e; auto simp: rec_opened_def heard_model_def rec_message_def frame_simps Let_def
      split: option.split agent_message_type.split)+

lemma rec_of_entry:
  "rec_of (L\<lparr>per_node := om_entry record_default n f (per_node L)\<rparr>) k =
     (if k = n then f (rec_of L n) else rec_of L k)"
  by (simp add: rec_of_def)

lemma rec_of_adjust:
  "f record_default = record_default \<Longrightarrow>
     rec_of (L\<lparr>per_node := om_adjust n f (per_node L)\<rparr>) k =
     (if k = n then f (rec_of L n) else rec_of L k)"
  by (cases "om_get (per_node L) n") (auto simp: rec_of_def)

lemma close_working_default [simp]: "close_working record_default at asleep = record_default"
  by (simp add: close_working_def record_default_def)

lemma rec_resume_default [simp]: "rec_resume record_default at = record_default"
  by (simp add: rec_resume_def record_default_def)

lemma rec_resume_frame [frame_simps]:
  "rec_spend (rec_resume r at) = rec_spend r" "attempts (rec_resume r at) = attempts r"
  by (simp_all add: rec_resume_def)

lemma node_step_totals [fold_simps]:
  assumes "node_step L x = Inr L'"
  shows "settled (rec_spend (rec_of L' n)) = settled (rec_spend (rec_of L n)) + settles_in n x"
    and "attempts (rec_of L' n) = max (attempts (rec_of L n)) (starts_in n x)"
proof -
  have "settled (rec_spend (rec_of L' n)) = settled (rec_spend (rec_of L n)) + settles_in n x \<and>
    attempts (rec_of L' n) = max (attempts (rec_of L n)) (starts_in n x)"
  proof (cases x)
    case (Op_Node e m asleep)
    with assms show ?thesis
      by (auto simp: nodes_apply_def Let_def settles_in_def starts_in_def frame_simps rec_node_settled
          rec_node_attempts split: option.splits)
  next
    case (Op_Session e m)
    with assms show ?thesis
      by (auto simp: nodes_apply_session_def settles_in_def starts_in_def frame_simps split: option.splits)
  next
    case (Op_State k st)
    with assms show ?thesis
      by (auto simp: set_state_def settles_in_def starts_in_def rec_of_entry)
  next
    case (Op_Settle k asked m asleep)
    with assms show ?thesis
      by (auto simp: settle_asking_def stop_working_def settles_in_def starts_in_def rec_of_def
          frame_simps rec_settle_def)
  next
    case (Op_Stop k m asleep)
    with assms show ?thesis
      by (auto simp: stop_working_def settles_in_def starts_in_def rec_of_adjust frame_simps)
  next
    case (Op_Resume k at)
    with assms show ?thesis
      by (auto simp: resume_working_def settles_in_def starts_in_def rec_of_adjust frame_simps)
  qed
  then show "settled (rec_spend (rec_of L' n)) = settled (rec_spend (rec_of L n)) + settles_in n x"
    and "attempts (rec_of L' n) = max (attempts (rec_of L n)) (starts_in n x)" by simp_all
qed

lemma fold_nodes_totals:
  "fold_until node_step L ops = (L', None) \<Longrightarrow>
     settled (rec_spend (rec_of L' n)) =
       settled (rec_spend (rec_of L n)) + sum_list (map (settles_in n) ops) \<and>
     attempts (rec_of L' n) = foldr max (map (starts_in n) ops) (attempts (rec_of L n))"
proof (induction ops arbitrary: L)
  case Nil
  then show ?case by simp
next
  case (Cons x ops)
  then obtain L1 where step: "node_step L x = Inr L1"
    and rest: "fold_until node_step L1 ops = (L', None)"
    by (auto split: sum.splits)
  have "foldr max (map (starts_in n) ops) (max a b) = max b (foldr max (map (starts_in n) ops) a)"
    for a b :: u32
    by (induction ops) (auto simp: max.left_commute max.commute)
  with Cons.IH [OF rest] show ?case
    by (simp add: node_step_totals [OF step] add.assoc)
qed

section \<open>The properties\<close>

text \<open>The operations the witnesses run: a node starts, reports usage and fails; a second node ran
  beside it.\<close>

definition sample_meta :: "seq \<Rightarrow> node_id \<Rightarrow> event_meta" where
  "sample_meta k n = \<lparr>m_seq = k, m_at = int k, m_node = Some n\<rparr>"

definition sample_start :: "seq \<Rightarrow> node_id \<Rightarrow> tree_id \<Rightarrow> node_op" where
  "sample_start k n tree = Op_Node (Node_Started (attempt_from 1 tree)) (sample_meta k n) []"

definition sample_failed :: "tree_id \<Rightarrow> node_event" where
  "sample_failed tree =
     Node_Failed \<lparr>nd_failure = FrozenInput ''i'', nd_tokens = TokenUsage 5 2 None, nd_retryable = None,
       nd_tree = Some tree, nd_commit = None, nd_refused = []\<rparr>"

definition sample_ops :: "node_op list" where
  "sample_ops =
     [sample_start 1 ''a'' ''t0'', sample_start 2 ''b'' ''t0'',
      Op_Session (Session_Message \<lparr>am_type = Usage, am_tool_name = None, am_action = None,
        am_target = None, am_input_tokens = Some 5, am_output_tokens = Some 2,
        am_cached_tokens = None, am_note = None, am_text = None\<rparr>) (sample_meta 3 ''a''),
      Op_Node (sample_failed ''t1'') (sample_meta 4 ''a'') []]"

text \<open>Over every sequence of operations, refused ones included, the two questions a reader asks on
  every event without reading a record are answered exactly: some attempt is open iff some record's
  attempt is open, and everything is offline iff some session lost its service and every node whose
  attempt is open lost its own.\<close>

lemma tally_answers_exactly:
  fixes ops :: "node_op list"
  defines "L \<equiv> fst (fold_until node_step nodes_new ops)"
  shows "attempting L = (\<exists>n r. nodes_get L n = Some r \<and> open_since r \<noteq> None) \<and>
    attempts_offline L =
      ((\<exists>n r. nodes_get L n = Some r \<and> unreachable r) \<and>
       (\<nexists>n r. nodes_get L n = Some r \<and> open_since r \<noteq> None \<and> \<not> unreachable r))"
proof -
  have "nodes_inv L" unfolding L_def by (rule nodes.inv_fold)
  then have ok: "om_ok (per_node L)" and t: "nl_tally L = tally_of (per_node L)"
    by (simp_all add: nodes_inv_def)
  show ?thesis
    using count_of_pos [OF ok, of "\<lambda>r. st_open (rec_standing r)"]
      count_of_pos [OF ok, of "\<lambda>r. st_offline (rec_standing r)"]
      count_of_conj_eq [OF ok, of "\<lambda>r. st_open (rec_standing r)" "\<lambda>r. st_offline (rec_standing r)"]
    by (auto simp: attempting_def attempts_offline_def t tally_of_def nodes_get_def rec_standing_def)
qed

text \<open>C9. What a node spent is settled exactly once: over a log no operation of which is refused, the
  settled spend of a node is the sum of what its terminals carried and what its rounds of questions
  settled, and the attempt a reader reports is the highest a start of the node carried.\<close>

theorem node_spend_conserved:
  assumes "fold_until node_step nodes_new ops = (L, None)"
  shows "settled (rec_spend (rec_of L n)) = sum_list (map (settles_in n) ops) \<and>
    attempts (rec_of L n) = foldr max (map (starts_in n) ops) 0"
  using fold_nodes_totals [OF assms, of n] by (simp add: nodes_new_def rec_of_def record_default_def)

theorem node_spend_conserved_witness:
  "settled (rec_spend (rec_of (fst (fold_until node_step nodes_new sample_ops)) ''a'')) =
     sum_list (map (settles_in ''a'') sample_ops)"
proof -
  have "snd (fold_until node_step nodes_new sample_ops) = None" by code_simp
  then have "fold_until node_step nodes_new sample_ops =
      (fst (fold_until node_step nodes_new sample_ops), None)"
    by (metis prod.collapse)
  from node_spend_conserved [OF this, of "''a''"] show ?thesis by simp
qed

text \<open>Nothing is in flight outside an attempt: whatever the operations, a node with no attempt
  open has no usage in flight and is not working, and an open attempt is the one last started.\<close>

lemma nothing_in_flight_when_closed:
  fixes ops :: "node_op list" and n :: node_id
  defines "r \<equiv> rec_of (fst (fold_until node_step nodes_new ops)) n"
  shows "(open_since r = None \<longrightarrow> in_flight (rec_spend r) = 0 \<and> working_since r = None) \<and>
    (\<forall>sq at. open_since r = Some (sq, at) \<longrightarrow> last_started r = Some sq) \<and>
    attempt_active r \<le> active r"
proof -
  have "rec_inv r"
    unfolding r_def rec_of_def by (rule nodes_inv_record) (rule nodes.inv_fold)
  then show ?thesis by (simp add: rec_inv_def)
qed

text \<open>A close marks exactly the attempts it may have misled: when a node's close leaves the run's
  tree at another tree than the one its attempt started on, every other node whose attempt ran
  beside it, and that did not itself start on the tree left, is marked moved; nobody else is.\<close>

lemma close_marks_attempts_beside:
  assumes "m_node m = Some w" "left_by_close e = Some left"
    and "from_tree (rec_of L w) = Some from_t" "last_started (rec_of L w) = Some started"
    and "nodes_get L n = Some b" "n \<noteq> w"
  shows "rec_tree_moved (rec_of (nodes_apply L e m asleep) n) \<longleftrightarrow>
    rec_tree_moved b \<or>
    (from_t \<noteq> left \<and> overlapped_by started b \<and> from_tree b \<noteq> Some left)"
proof -
  let ?L = "update_record L w (m_at m) (\<lambda>r. rec_node r e m asleep)"
  have close: "from_tree (rec_of ?L w) = Some from_t" "last_started (rec_of ?L w) = Some started"
    using assms(2,3,4)
    by (cases e; simp add: left_by_close_def rec_finished_def rec_failed_def end_attempt_def Let_def
        frame_simps)+
  have b: "rec_of ?L n = b" "om_get (per_node ?L) n = Some b"
    using assms(5,6) by (simp_all add: nodes_get_def rec_of_def update_record_def track_def Let_def)
  have "rec_of (nodes_apply L e m asleep) n = rec_of (moved_beside ?L w left) n"
    using assms(1,2) by (simp add: nodes_apply_def Let_def)
  then show ?thesis
    using assms(6) b by (auto simp: rec_of_moved_beside close mark_moved_def simp del: rec_of_update)
qed

end
