(* ===== verification/Gate_Ledger.thy ===== *)
theory Gate_Ledger
  imports Node_Ledger Remedies
begin

text \<open>
  Every decision a person was asked for (\<open>events/gates/\<close>): an escalation with its menu and its
  options (\<open>payloads.rs\<close>, \<open>menu.rs\<close>, \<open>offer.rs\<close>, \<open>withheld.rs\<close>, \<open>escalation.rs\<close>), the resolution
  that answers it and its form on the log, the questions a node asks, and the ledger that folds
  them (\<open>ledger.rs\<close>). The lemmas show what an answer needs to count, that a resolution survives the
  log, and that what stands open is exactly what the last event about it opened.
\<close>

section \<open>Menus and options\<close>

record author_gate =
  ag_assignee :: string
  ag_node :: "node_id option"

record exhausted_reroute =
  er_goto :: node_id
  er_max :: u32
  er_next_mode :: "mode_name option"

record failure_menu =
  fm_attempt :: u32
  fm_failure :: failure
  fm_remedies :: "remedy list"
  fm_stuck :: "stuck option"
  fm_reroute :: "exhausted_reroute option"

record departure_menu =
  dm_deviations :: "deviation_declared list"
  dm_waived :: "string list"
  dm_rewritten_by :: "node_id option"
  dm_accept_offered :: bool

record scope_wait =
  sw_because :: waiting
  swt_paths :: "scope_glob list"
  sw_proposed :: "proposal option"

record published_gate =
  pg_url :: string
  pg_folder :: "string option"

datatype menu =
  Gate_Menu author_gate
| Failure_Menu failure_menu
| Departure_Menu departure_menu
| Scope_Menu scope_wait
| Budget_Menu u64 u64
| LoopCap_Menu u32 u32
| Console_Menu
| Published_Menu published_gate

definition answers_a_task :: "menu \<Rightarrow> bool" where
  "answers_a_task mn = (case mn of Scope_Menu _ \<Rightarrow> True | Departure_Menu _ \<Rightarrow> True | _ \<Rightarrow> False)"

datatype gate_folder = Run_Folder string | Root_Folder

definition folder_of :: "run_id \<Rightarrow> node_id \<Rightarrow> gate_folder" where
  "folder_of run n = Run_Folder (''.yunta/gates/'' @ run @ ''/'' @ n)"

definition folder_at :: "gate_folder \<Rightarrow> string \<Rightarrow> string" where
  "folder_at f name = (case f of Run_Folder d \<Rightarrow> d @ ''/'' @ name | Root_Folder \<Rightarrow> name)"

definition folder_recorded :: "gate_folder \<Rightarrow> string option" where
  "folder_recorded f = (case f of Run_Folder d \<Rightarrow> Some d | Root_Folder \<Rightarrow> None)"

datatype leads = Back node_id bool | On "node_id list" bool

datatype asks = Asks_Change | Asks_Instead | Asks_Logged string

record gate_option =
  go_id :: option_id
  go_leads :: "leads option"
  go_label :: "string option"
  go_tradeoff :: "string option"
  go_asks :: "string option"

definition option_reserved :: "reserved_option \<Rightarrow> gate_option" where
  "option_reserved opt =
     \<lparr>go_id = reserved_id opt, go_leads = None, go_label = None, go_tradeoff = None, go_asks = None\<rparr>"

definition option_leading :: "option_id \<Rightarrow> leads \<Rightarrow> gate_option" where
  "option_leading i l =
     \<lparr>go_id = i, go_leads = Some l, go_label = None, go_tradeoff = None, go_asks = None\<rparr>"

definition option_asks :: "gate_option \<Rightarrow> asks option" where
  "option_asks opt =
     (case go_asks opt of
        Some asked \<Rightarrow> Some (Asks_Logged asked)
      | None \<Rightarrow>
          (case (go_leads opt, reserved_of (go_id opt)) of
             (Some (Back _ True), _) \<Rightarrow> Some Asks_Change
           | (None, Some SendBack) \<Rightarrow> Some Asks_Instead
           | _ \<Rightarrow> None))"

datatype why_withheld = Unprovable "json nonempty" | Why_Logged string

record withheld =
  wh_option :: option_id
  wh_because :: why_withheld

datatype claim =
  NeedsDecision node_id
| ApprovePlan string
| NodeFailed_Claim node_id
| AwaitsReview node_id "string option"
| ForgeUnreachable node_id string
| RecheckUnreachable node_id string
| TokensSpent run_id
| LoopCapSpent node_id
| ScopeAsked task_id "string option"
| Departs task_id
| Written_Claim string

record shown =
  shn_producer :: "node_id option"
  shn_artifact :: json
  shn_hash :: content_hash

record gate_waiting =
  gw_summary :: claim
  gw_evidence :: "json list"
  gw_options :: "gate_option list"
  gw_external_ref :: "string option"
  gw_shows :: "shown list"
  gw_withheld :: "withheld list"
  gw_menu :: "menu option"

definition escalation_new :: "claim \<Rightarrow> menu \<Rightarrow> gate_option nonempty \<Rightarrow> gate_waiting" where
  "escalation_new c mn opts =
     \<lparr>gw_summary = c, gw_evidence = [], gw_options = as_slice opts, gw_external_ref = None,
      gw_shows = [], gw_withheld = [], gw_menu = Some mn\<rparr>"

definition escalation_published :: "claim \<Rightarrow> published_gate \<Rightarrow> string \<Rightarrow> gate_waiting" where
  "escalation_published c pub ref =
     \<lparr>gw_summary = c, gw_evidence = [], gw_options = [], gw_external_ref = Some ref, gw_shows = [],
      gw_withheld = [], gw_menu = Some (Published_Menu pub)\<rparr>"

definition gate_of_waiting :: "gate_waiting \<Rightarrow> node_id option" where
  "gate_of_waiting p = (case gw_menu p of Some (Gate_Menu g) \<Rightarrow> ag_node g | _ \<Rightarrow> None)"

definition waiting_failure :: "gate_waiting \<Rightarrow> failure_menu option" where
  "waiting_failure p = (case gw_menu p of Some (Failure_Menu mn) \<Rightarrow> Some mn | _ \<Rightarrow> None)"

definition offers :: "gate_waiting \<Rightarrow> option_id \<Rightarrow> bool" where
  "offers p i = list_ex (\<lambda>opt. go_id opt = i) (gw_options p)"

definition offered :: "gate_waiting \<Rightarrow> string" where
  "offered p = join_with '', '' (map go_id (gw_options p))"

record human_choice =
  hc_option :: option_id
  hc_by :: string
  hc_free_text :: "string option"

datatype refusal = OffMenu option_id string | Unsaid option_id asks | Refused_Withheld withheld

text \<open>\<open>text.trim().is_empty()\<close>, on text in ASCII.\<close>

definition blank :: "string \<Rightarrow> bool" where
  "blank text = list_all (\<lambda>c. c \<in> {CHR 0x09, CHR 0x0A, CHR 0x0B, CHR 0x0C, CHR 0x0D, CHR 0x20}) text"

definition refused_as_withheld :: "gate_waiting \<Rightarrow> option_id \<Rightarrow> refusal option" where
  "refused_as_withheld p i =
     map_option Refused_Withheld (List.find (\<lambda>w. wh_option w = i) (gw_withheld p))"

definition accepts :: "gate_waiting \<Rightarrow> human_choice \<Rightarrow> refusal option" where
  "accepts p choice =
     (case refused_as_withheld p (hc_option choice) of
        Some r \<Rightarrow> Some r
      | None \<Rightarrow>
     (case List.find (\<lambda>opt. go_id opt = hc_option choice) (gw_options p) of
        None \<Rightarrow> Some (OffMenu (hc_option choice) (offered p))
      | Some opt \<Rightarrow>
          let said = is_some_and (hc_free_text choice) (\<lambda>t. \<not> blank t) in
          (case option_asks opt of
             Some asked \<Rightarrow> if \<not> said then Some (Unsaid (hc_option choice) asked) else None
           | None \<Rightarrow> None)))"

text \<open>\<open>Escalation::withholding\<close>: the options the menu holds that are taken off it.\<close>

definition withhold_one :: "gate_waiting \<Rightarrow> withheld \<Rightarrow> gate_waiting" where
  "withhold_one p gone =
     (if \<not> offers p (wh_option gone) then p
      else p\<lparr>gw_options := filter (\<lambda>opt. go_id opt \<noteq> wh_option gone) (gw_options p),
             gw_withheld := gw_withheld p @ [gone]\<rparr>)"

definition withholding :: "gate_waiting \<Rightarrow> withheld list \<Rightarrow> gate_waiting" where
  "withholding p gone = foldl withhold_one p gone"

section \<open>Resolutions and their form on the log\<close>

record resolved_wire =
  w_chosen_option :: "option_id option"
  w_resolved_by :: "string option"
  w_free_text :: "string option"
  w_approved_sha :: "commit_sha option"

datatype gate_resolved =
  Chosen human_choice
| Approved string commit_sha
| ChangesRequested string
| Closed
| Unrecognized resolved_wire

definition wire_default :: resolved_wire where
  "wire_default =
     \<lparr>w_chosen_option = None, w_resolved_by = None, w_free_text = None, w_approved_sha = None\<rparr>"

definition resolved_from_wire :: "resolved_wire \<Rightarrow> gate_resolved" where
  "resolved_from_wire w =
     (case (w_chosen_option w, w_resolved_by w, w_free_text w, w_approved_sha w) of
        (Some opt, Some who, text, None) \<Rightarrow>
          Chosen \<lparr>hc_option = opt, hc_by = who, hc_free_text = text\<rparr>
      | (None, Some who, None, Some sha) \<Rightarrow> Approved who sha
      | (None, Some who, None, None) \<Rightarrow> ChangesRequested who
      | (None, None, None, None) \<Rightarrow> Closed
      | _ \<Rightarrow> Unrecognized w)"

fun resolved_to_wire :: "gate_resolved \<Rightarrow> resolved_wire" where
  "resolved_to_wire (Chosen c) =
     \<lparr>w_chosen_option = Some (hc_option c), w_resolved_by = Some (hc_by c),
      w_free_text = hc_free_text c, w_approved_sha = None\<rparr>"
| "resolved_to_wire (Approved who sha) =
     wire_default\<lparr>w_resolved_by := Some who, w_approved_sha := Some sha\<rparr>"
| "resolved_to_wire (ChangesRequested who) = wire_default\<lparr>w_resolved_by := Some who\<rparr>"
| "resolved_to_wire Closed = wire_default"
| "resolved_to_wire (Unrecognized w) = w"

section \<open>Gate events\<close>

datatype channel = Tty | Mcp | Assumed

record questions_asked =
  qa_hash :: content_hash
  qa_questions :: "question_id list"
  qa_tokens :: token_usage

definition questions_asked_new ::
  "content_hash \<Rightarrow> question_id list \<Rightarrow> token_usage \<Rightarrow> questions_asked option" where
  "questions_asked_new h qs used =
     (if qs \<noteq> [] then Some \<lparr>qa_hash = h, qa_questions = qs, qa_tokens = used\<rparr> else None)"

record questions_answered =
  qw_hash :: content_hash
  qw_channel :: channel
  qw_responder :: "string option"

datatype gate_event =
  Gate_Waiting gate_waiting
| Gate_Resolved gate_resolved
| QuestionsAsked questions_asked
| QuestionsAnswered questions_answered
| AskingOpened "task_id option"

section \<open>The ledger\<close>

record question_round =
  answered_with :: "questions_answered option"
  answered_at :: "seq option"

record gate_record =
  gr_waiting :: "(gate_waiting \<times> seq) option"
  resolved :: "(gate_resolved \<times> seq) list"
  task_answers :: "seq list"
  gr_external_ref :: "string option"
  gr_folder :: "gate_folder option"
  gr_approved_sha :: "commit_sha option"
  rounds :: "question_round list"

definition gate_record_default :: gate_record where
  "gate_record_default =
     \<lparr>gr_waiting = None, resolved = [], task_answers = [], gr_external_ref = None, gr_folder = None,
      gr_approved_sha = None, rounds = []\<rparr>"

record gate_ledger =
  gates_of :: "(node_id, gate_record) omap"
  asking :: "node_id option list"
  awaiting :: "node_id list"

definition gates_new :: gate_ledger where
  "gates_new = \<lparr>gates_of = [], asking = [], awaiting = []\<rparr>"

definition gate_get :: "gate_ledger \<Rightarrow> node_id \<Rightarrow> gate_record option" where
  "gate_get L n = om_get (gates_of L) n"

definition clear_asking :: "gate_ledger \<Rightarrow> gate_ledger" where
  "clear_asking L = L\<lparr>asking := []\<rparr>"

definition gate_folder_for :: "gate_ledger \<Rightarrow> run_id \<Rightarrow> node_id \<Rightarrow> gate_folder" where
  "gate_folder_for L run n = unwrap_or (Option.bind (gate_get L n) gr_folder) (folder_of run n)"

definition last_external_ref :: "gate_ledger \<Rightarrow> node_id \<Rightarrow> string option" where
  "last_external_ref L n = Option.bind (gate_get L n) gr_external_ref"

definition approved_sha_of :: "gate_ledger \<Rightarrow> node_id \<Rightarrow> commit_sha option" where
  "approved_sha_of L n = Option.bind (gate_get L n) gr_approved_sha"

definition answered :: "gate_ledger \<Rightarrow> node_id \<Rightarrow> bool" where
  "answered L n =
     is_some_and (Option.bind (gate_get L n) (\<lambda>r. last_opt (rounds r)))
       (\<lambda>round. answered_with round \<noteq> None)"

definition own_resolutions :: "gate_record \<Rightarrow> (gate_resolved \<times> seq) list" where
  "own_resolutions r = filter (\<lambda>(_, at). at \<notin> set (task_answers r)) (resolved r)"

definition published_folder :: "gate_waiting \<Rightarrow> gate_folder" where
  "published_folder p =
     (case gw_menu p of
        Some (Published_Menu pub) \<Rightarrow>
          (case pg_folder pub of Some f \<Rightarrow> Run_Folder f | None \<Rightarrow> Root_Folder)
      | _ \<Rightarrow> Root_Folder)"

text \<open>\<open>rounds.last_mut()\<close>: the answer lands on the last round, when there is one.\<close>

definition answer_last :: "question_round list \<Rightarrow> questions_answered \<Rightarrow> seq \<Rightarrow> question_round list" where
  "answer_last rs p at =
     (if rs = [] then rs
      else butlast rs @ [(last rs)\<lparr>answered_with := Some p, answered_at := Some at\<rparr>])"

fun gate_record_apply :: "gate_record \<Rightarrow> gate_event \<Rightarrow> seq \<Rightarrow> gate_record" where
  "gate_record_apply r (Gate_Waiting p) at =
     (case gw_external_ref p of
        Some ref \<Rightarrow> r\<lparr>gr_external_ref := Some ref, gr_folder := Some (published_folder p),
                      gr_waiting := Some (p, at)\<rparr>
      | None \<Rightarrow> r\<lparr>gr_waiting := Some (p, at)\<rparr>)"
| "gate_record_apply r (Gate_Resolved p) at =
     (let r1 = (case p of
                  Approved _ sha \<Rightarrow> r\<lparr>gr_approved_sha := Some sha\<rparr>
                | ChangesRequested _ \<Rightarrow> r\<lparr>gr_external_ref := None\<rparr>
                | Closed \<Rightarrow> r\<lparr>gr_external_ref := None\<rparr>
                | _ \<Rightarrow> r);
          answers_task = is_some_and (gr_waiting r1)
                           (\<lambda>(asked, _). is_some_and (gw_menu asked) answers_a_task)
      in r1\<lparr>resolved := resolved r1 @ [(p, at)],
            task_answers := (if answers_task then os_insert at (task_answers r1) else task_answers r1),
            gr_waiting := None\<rparr>)"
| "gate_record_apply r (QuestionsAsked _) at =
     r\<lparr>rounds := rounds r @ [\<lparr>answered_with = None, answered_at = None\<rparr>]\<rparr>"
| "gate_record_apply r (QuestionsAnswered p) at = r\<lparr>rounds := answer_last (rounds r) p at\<rparr>"
| "gate_record_apply r (AskingOpened _) at = r"

fun gates_track :: "gate_ledger \<Rightarrow> gate_event \<Rightarrow> event_meta \<Rightarrow> gate_ledger" where
  "gates_track L (AskingOpened _) m = L\<lparr>asking := os_insert (m_node m) (asking L)\<rparr>"
| "gates_track L (QuestionsAsked _) m =
     (case m_node m of None \<Rightarrow> L | Some n \<Rightarrow> L\<lparr>awaiting := os_insert n (awaiting L)\<rparr>)"
| "gates_track L (Gate_Waiting p) m =
     (if gw_external_ref p \<noteq> None
      then (case m_node m of None \<Rightarrow> L | Some n \<Rightarrow> L\<lparr>awaiting := os_insert n (awaiting L)\<rparr>)
      else L)"
| "gates_track L _ m =
     (let L1 = L\<lparr>asking := os_remove (m_node m) (asking L)\<rparr> in
      case m_node m of None \<Rightarrow> L1 | Some n \<Rightarrow> L1\<lparr>awaiting := os_remove n (awaiting L1)\<rparr>)"

definition gates_apply :: "gate_ledger \<Rightarrow> gate_event \<Rightarrow> event_meta \<Rightarrow> gate_ledger" where
  "gates_apply L e m =
     (let L1 = gates_track L e m in
      case e of
        AskingOpened _ \<Rightarrow> L1
      | _ \<Rightarrow>
          (case m_node m of
             None \<Rightarrow> L1
           | Some n \<Rightarrow>
               L1\<lparr>gates_of := om_entry gate_record_default n (\<lambda>r. gate_record_apply r e (m_seq m))
                                (gates_of L1)\<rparr>))"

text \<open>Every way the replay drives the ledger: an event, or a pause, a resume or a close of the run.\<close>

datatype gate_op = Op_Gate gate_event event_meta | Op_Clear_Asking

fun gates_step :: "gate_ledger \<Rightarrow> gate_op \<Rightarrow> unit + gate_ledger" where
  "gates_step L (Op_Gate e m) = Inr (gates_apply L e m)"
| "gates_step L Op_Clear_Asking = Inr (clear_asking L)"

section \<open>What stands open is what the last event opened\<close>

lemma os_insert_mem [simp]: "y \<in> set (os_insert x ys) \<longleftrightarrow> y = x \<or> y \<in> set ys"
  by simp

lemma gates_apply_frame [frame_simps]:
  "asking (gates_apply L e m) = asking (gates_track L e m)"
  "awaiting (gates_apply L e m) = awaiting (gates_track L e m)"
  by (auto simp: gates_apply_def Let_def split: gate_event.split option.split)

lemma gates_track_gates_of [frame_simps]: "gates_of (gates_track L e m) = gates_of L"
  by (cases e) (auto simp: Let_def split: option.split)

definition gate_rec_of :: "gate_ledger \<Rightarrow> node_id \<Rightarrow> gate_record" where
  "gate_rec_of L n = unwrap_or (gate_get L n) gate_record_default"

lemma gate_rec_of_apply:
  "gate_rec_of (gates_apply L e m) n =
     (if m_node m = Some n then gate_record_apply (gate_rec_of L n) e (m_seq m) else gate_rec_of L n)"
  by (cases e; cases "m_node m")
    (auto simp: gates_apply_def Let_def gate_rec_of_def gate_get_def frame_simps)

lemma gate_rec_of_clear [simp]: "gate_rec_of (clear_asking L) n = gate_rec_of L n"
  by (simp add: gate_rec_of_def gate_get_def clear_asking_def)

definition awaiting_write :: "node_id \<Rightarrow> gate_op \<Rightarrow> bool option" where
  "awaiting_write n x =
     (case x of
        Op_Gate e m \<Rightarrow>
          if m_node m \<noteq> Some n then None
          else (case e of
                  QuestionsAsked _ \<Rightarrow> Some True
                | Gate_Waiting p \<Rightarrow> if gw_external_ref p \<noteq> None then Some True else None
                | AskingOpened _ \<Rightarrow> None
                | _ \<Rightarrow> Some False)
      | Op_Clear_Asking \<Rightarrow> None)"

definition asking_write :: "node_id option \<Rightarrow> gate_op \<Rightarrow> bool option" where
  "asking_write who x =
     (case x of
        Op_Gate e m \<Rightarrow>
          if m_node m \<noteq> who then None
          else (case e of
                  AskingOpened _ \<Rightarrow> Some True
                | Gate_Resolved _ \<Rightarrow> Some False
                | QuestionsAnswered _ \<Rightarrow> Some False
                | _ \<Rightarrow> None)
      | Op_Clear_Asking \<Rightarrow> Some False)"

definition waiting_write :: "node_id \<Rightarrow> gate_op \<Rightarrow> (gate_waiting \<times> seq) option option" where
  "waiting_write n x =
     (case x of
        Op_Gate e m \<Rightarrow>
          if m_node m \<noteq> Some n then None
          else (case e of
                  Gate_Waiting p \<Rightarrow> Some (Some (p, m_seq m))
                | Gate_Resolved _ \<Rightarrow> Some None
                | _ \<Rightarrow> None)
      | Op_Clear_Asking \<Rightarrow> None)"

interpretation awaiting: last_write gates_step "\<lambda>L. n \<in> set (awaiting L)" "awaiting_write n" for n
proof
  fix L :: gate_ledger and x and L' :: gate_ledger
  assume "gates_step L x = Inr L'"
  then show "(n \<in> set (awaiting L')) = unwrap_or (awaiting_write n x) (n \<in> set (awaiting L))"
    by (cases x; (cases "case x of Op_Gate e m \<Rightarrow> e | _ \<Rightarrow> AskingOpened None")?)
      (auto simp: awaiting_write_def frame_simps clear_asking_def Let_def split: option.splits gate_event.splits)
qed

interpretation asking: last_write gates_step "\<lambda>L. who \<in> set (asking L)" "asking_write who" for who
proof
  fix L :: gate_ledger and x and L' :: gate_ledger
  assume "gates_step L x = Inr L'"
  then show "(who \<in> set (asking L')) = unwrap_or (asking_write who x) (who \<in> set (asking L))"
    by (cases x; cases who)
      (auto simp: asking_write_def frame_simps clear_asking_def Let_def
        split: option.splits gate_event.splits if_splits)
qed

interpretation standing: last_write gates_step "\<lambda>L. gr_waiting (gate_rec_of L n)" "waiting_write n" for n
proof
  fix L :: gate_ledger and x and L' :: gate_ledger
  assume "gates_step L x = Inr L'"
  then show "gr_waiting (gate_rec_of L' n) = unwrap_or (waiting_write n x) (gr_waiting (gate_rec_of L n))"
    by (cases x)
      (auto simp: waiting_write_def gate_rec_of_apply Let_def split: option.splits gate_event.splits gate_resolved.splits)
qed

section \<open>The menu of a gate that withholds\<close>

lemma withhold_one_offers:
  "offers (withhold_one p g) i \<longleftrightarrow> offers p i \<and> i \<noteq> wh_option g"
  by (auto simp: withhold_one_def offers_def list_ex_iff)

lemma withholding_offers: "offers (withholding p gs) i \<longleftrightarrow> offers p i \<and> i \<notin> wh_option ` set gs"
  unfolding withholding_def by (induction gs arbitrary: p) (auto simp: withhold_one_offers)

lemma withhold_one_withheld:
  "wh_option ` set (gw_withheld (withhold_one p g)) =
     wh_option ` set (gw_withheld p) \<union> (if offers p (wh_option g) then {wh_option g} else {})"
  by (auto simp: withhold_one_def)

lemma withholding_withheld:
  "wh_option ` set (gw_withheld (withholding p gs)) =
     wh_option ` set (gw_withheld p) \<union> {i. offers p i \<and> i \<in> wh_option ` set gs}"
  unfolding withholding_def
  by (induction gs arbitrary: p) (auto simp: withhold_one_offers withhold_one_withheld)

lemma refused_as_withheld_iff:
  "refused_as_withheld p i = None \<longleftrightarrow> i \<notin> wh_option ` set (gw_withheld p)"
  by (auto simp: refused_as_withheld_def find_None_iff)

lemma accepts_None_iff:
  "accepts p choice = None \<longleftrightarrow>
     hc_option choice \<notin> wh_option ` set (gw_withheld p) \<and>
     (\<exists>opt. List.find (\<lambda>opt. go_id opt = hc_option choice) (gw_options p) = Some opt \<and>
            (option_asks opt = None \<or> is_some_and (hc_free_text choice) (\<lambda>t. \<not> blank t)))"
proof (cases "refused_as_withheld p (hc_option choice)")
  case None
  then show ?thesis
    unfolding refused_as_withheld_iff [symmetric]
    by (cases "List.find (\<lambda>opt. go_id opt = hc_option choice) (gw_options p)")
      (auto simp: accepts_def Let_def split: option.split)
next
  case (Some r)
  then have "\<not> refused_as_withheld p (hc_option choice) = None" by simp
  with Some show ?thesis unfolding refused_as_withheld_iff by (simp add: accepts_def)
qed

section \<open>The properties\<close>

text \<open>What stands open about a person is exactly what the last event about it opened, over every
  log: a node's escalation stands until its resolution; a node awaits an answer given elsewhere from
  the round it asked or the gate it published until a resolution or an answer; and an ask in progress
  ends with its answer and with every pause, resume or close of the run.\<close>

lemma gates_stand_by_last_event:
  assumes "fold_until gates_step gates_new ops = (L, None)"
  shows "gr_waiting (gate_rec_of L n) =
      unwrap_or (last_opt (List.map_filter (waiting_write n) ops)) None \<and>
    (n \<in> set (awaiting L)) = unwrap_or (last_opt (List.map_filter (awaiting_write n) ops)) False \<and>
    (who \<in> set (asking L)) = unwrap_or (last_opt (List.map_filter (asking_write who) ops)) False"
  using standing.view_fold [OF assms, of n] awaiting.view_fold [OF assms, of n]
    asking.view_fold [OF assms, of who]
  by (simp add: gates_new_def gate_rec_of_def gate_get_def gate_record_default_def)

text \<open>An answer counts exactly when the gate offers its option, does not withhold it, and has the
  words the option asks for; and taking options off a gate leaves the rest on offer, refuses the ones
  taken with the reason, and changes nothing about an option it never offered.\<close>

lemma answer_counts_iff:
  "(accepts p choice = None \<longleftrightarrow>
      hc_option choice \<notin> wh_option ` set (gw_withheld p) \<and>
      (\<exists>opt. List.find (\<lambda>opt. go_id opt = hc_option choice) (gw_options p) = Some opt \<and>
             (option_asks opt = None \<or> is_some_and (hc_free_text choice) (\<lambda>t. \<not> blank t)))) \<and>
   (offers (withholding p gone) i \<longleftrightarrow> offers p i \<and> i \<notin> wh_option ` set gone) \<and>
   (refused_as_withheld (withholding p gone) i = None \<longleftrightarrow>
      i \<notin> wh_option ` set (gw_withheld p) \<and> \<not> (offers p i \<and> i \<in> wh_option ` set gone))"
  by (simp add: withholding_offers refused_as_withheld_iff withholding_withheld accepts_None_iff)

text \<open>A resolution survives the log: every form the log can hold is written back as it was read,
  so no resolution an older or a newer binary wrote is lost, and a resolution this binary names reads
  back as itself.\<close>

lemma resolution_survives_log:
  "resolved_to_wire (resolved_from_wire w) = w \<and>
   (case p of Unrecognized _ \<Rightarrow> True | _ \<Rightarrow> resolved_from_wire (resolved_to_wire p) = p)"
  by (cases w; cases p) (auto simp: resolved_from_wire_def wire_default_def split: option.splits)

end
