(* ===== verification/Run_Ledger.thy ===== *)
theory Run_Ledger
  imports Gate_Ledger
begin

text \<open>
  What the run itself is doing, from its own events (\<open>events/run/\<close>): why it is parked
  (\<open>pause.rs\<close>), what its commands run with and how that drifted (\<open>payloads.rs\<close>), and the ledger
  that folds the run's events (\<open>ledger.rs\<close>). The lemmas show that a pause is one kind of wait, that
  a drift is reported exactly when the environments differ, and that a run is parked exactly when no
  wake followed its last pause.
\<close>

section \<open>Why a run is parked\<close>

datatype (plugins only: code size) pause_reason =
  Pause_Escalation gate_waiting
| Pause_Cancelled
| Pause_CancelledAfterCrash
| Pause_BudgetExhausted u64 u64
| Pause_NoRoom u64 u64 u64
| Pause_LoopOverrun node_id u32
| Pause_ExternalGate string
| Pause_UncertainOrphans "node_id list"
| Pause_NodeFailed node_id failure
| Pause_AwaitingReset node_id instant
| Pause_Blocked node_id "node_id list"
| Pause_GateAborted node_id "string option"
| Pause_PullRequestClosed node_id string
| Pause_ChildPaused node_id run_id pause_reason
| Pause_Questions node_id "question_id nonempty"
| Pause_AnswersRefused node_id json
| Pause_Recorded string

definition reset_wait :: "pause_reason \<Rightarrow> (node_id \<times> instant) option" where
  "reset_wait p = (case p of Pause_AwaitingReset n at \<Rightarrow> Some (n, at) | _ \<Rightarrow> None)"

definition pause_gate :: "pause_reason \<Rightarrow> node_id option" where
  "pause_gate p = (case p of Pause_Escalation e \<Rightarrow> gate_of_waiting e | _ \<Rightarrow> None)"

fun by_a_person :: "pause_reason \<Rightarrow> bool" where
  "by_a_person Pause_Cancelled = True"
| "by_a_person Pause_CancelledAfterCrash = True"
| "by_a_person (Pause_GateAborted _ _) = True"
| "by_a_person (Pause_PullRequestClosed _ _) = True"
| "by_a_person (Pause_ChildPaused _ _ child) = by_a_person child"
| "by_a_person _ = False"

fun waits_on_a_person :: "pause_reason \<Rightarrow> bool" where
  "waits_on_a_person (Pause_Recorded _) = False"
| "waits_on_a_person (Pause_ChildPaused _ _ child) = waits_on_a_person child"
| "waits_on_a_person reason = (\<not> by_a_person reason \<and> reset_wait reason = None)"

text \<open>The line of a pause: a writer writes the pause, an older one wrote a sentence.\<close>

definition run_paused_read :: "pause_reason option \<Rightarrow> string option \<Rightarrow> string + pause_reason" where
  "run_paused_read pause reason =
     (case (pause, reason) of
        (Some p, _) \<Rightarrow> Inr p
      | (None, Some sentence) \<Rightarrow> Inr (Pause_Recorded sentence)
      | (None, None) \<Rightarrow> Inl ''a run_paused names its pause or its reason'')"

definition run_paused_line :: "pause_reason \<Rightarrow> pause_reason option \<times> string option" where
  "run_paused_line p = (Some p, None)"

section \<open>What the run's commands run with\<close>

record execution_environment =
  env_shell :: string
  env_path :: "string list"

record environment_drift =
  dr_shell :: "(string \<times> string) option"
  dr_gained :: "string list"
  dr_lost :: "string list"
  dr_reordered :: bool

definition drift_to :: "execution_environment \<Rightarrow> execution_environment \<Rightarrow> environment_drift option" where
  "drift_to was now =
     (let gained = filter (\<lambda>dir. \<not> List.member (env_path was) dir) (env_path now);
          lost = filter (\<lambda>dir. \<not> List.member (env_path now) dir) (env_path was);
          shell = (if env_shell was \<noteq> env_shell now then Some (env_shell was, env_shell now) else None);
          reordered = (gained = [] \<and> lost = [] \<and> env_path was \<noteq> env_path now)
      in if shell \<noteq> None \<or> reordered \<or> gained \<noteq> [] \<or> lost \<noteq> []
         then Some \<lparr>dr_shell = shell, dr_gained = gained, dr_lost = lost, dr_reordered = reordered\<rparr>
         else None)"

section \<open>The run's events\<close>

datatype terminal_state = Terminal_Done | Terminal_Failed | Terminal_Cancelled | Terminal_Promoted

record run_metrics =
  rm_cptv :: "json option"
  rm_tokens :: token_usage

record baseline_results =
  br_exit_code :: int
  br_summary :: string

datatype baseline_origin = Measured | Inherited run_id

record baseline_captured =
  bc_command :: string
  bc_results :: baseline_results
  bc_hash :: content_hash
  bc_origin :: baseline_origin
  bc_tree :: "tree_id option"
  bc_duration_ms :: "u64 option"

definition baseline_passed :: "baseline_captured \<Rightarrow> bool" where
  "baseline_passed p \<longleftrightarrow> br_exit_code (bc_results p) = 0"

record baseline_held =
  bh_name :: string
  bh_command :: string
  bh_results :: baseline_results
  bh_origin :: baseline_origin
  bh_tree :: "tree_id option"
  bh_duration_ms :: "u64 option"

definition held_passed :: "baseline_held \<Rightarrow> bool" where
  "held_passed p \<longleftrightarrow> br_exit_code (bh_results p) = 0"

record host_suspended =
  hs_slept_ms :: u64

definition host_slept :: "duration \<Rightarrow> host_suspended" where
  "host_slept d = \<lparr>hs_slept_ms = (let ms = d div 1000000 in if ms < 2 ^ 64 then of_nat ms else - 1)\<rparr>"

definition host_duration :: "host_suspended \<Rightarrow> duration" where
  "host_duration p = unat (hs_slept_ms p) * 1000000"

datatype because_out = Lacks "json list" | Through node_id

record left_out =
  lo_node :: node_id
  lo_because :: because_out

record run_created =
  rc_manifest_hash :: content_hash
  rc_checkout :: "path option"
  rc_inputs :: "(string, json) omap"
  rc_mode :: mode_name
  rc_promoted_from :: "run_id option"
  rc_yunta_schema :: "json option"
  rc_base_branch :: string
  rc_base_commit :: commit_sha
  rc_environment :: "execution_environment option"
  rc_left_out :: "left_out list"
  rc_opens_on_base :: bool

record promotion_cause =
  prc_node :: node_id
  prc_goto :: node_id
  prc_failure :: "failure option"

record promotion_signaled =
  ps_cause :: "promotion_cause option"
  ps_evidence :: "json list"
  ps_suggested_mode :: mode_name
  ps_reason :: "string option"

definition promotion_signaled_new ::
  "promotion_cause \<Rightarrow> json list \<Rightarrow> mode_name \<Rightarrow> promotion_signaled" where
  "promotion_signaled_new c ev md =
     \<lparr>ps_cause = Some c, ps_evidence = ev, ps_suggested_mode = md, ps_reason = None\<rparr>"

datatype on_interrupt = RestartNode | FailIfUncertain | ResumeSession

definition on_interrupt_str :: "on_interrupt \<Rightarrow> string" where
  "on_interrupt_str x =
     (case x of RestartNode \<Rightarrow> ''restart_node'' | FailIfUncertain \<Rightarrow> ''fail_if_uncertain''
      | ResumeSession \<Rightarrow> ''resume_session'')"

record resume_policy =
  rp_node :: node_id
  rp_on_interrupt :: on_interrupt

record run_resumed =
  rr_policies :: "resume_policy list"
  rr_environment :: "execution_environment option"
  rr_checkout :: "path option"
  rr_tree :: "tree_id option"

definition run_resumed_new ::
  "resume_policy list \<Rightarrow> execution_environment option \<Rightarrow> run_resumed" where
  "run_resumed_new ps env =
     \<lparr>rr_policies = ps, rr_environment = env, rr_checkout = None, rr_tree = None\<rparr>"

definition agreed_policy :: "run_resumed \<Rightarrow> string option" where
  "agreed_policy p =
     (case rr_policies p of
        [] \<Rightarrow> None
      | first # rest \<Rightarrow>
          if list_all (\<lambda>q. rp_on_interrupt q = rp_on_interrupt first) rest
          then Some (on_interrupt_str (rp_on_interrupt first)) else None)"

record run_finished =
  rf_terminal_state :: terminal_state
  rf_metrics :: run_metrics
  rf_closed_by :: "string option"

definition run_closed :: "terminal_state \<Rightarrow> run_metrics \<Rightarrow> run_finished" where
  "run_closed t ms = \<lparr>rf_terminal_state = t, rf_metrics = ms, rf_closed_by = None\<rparr>"

record file_change =
  fc_path :: string
  fc_added :: u64
  fc_removed :: u64

record changes_counted =
  cc_tree :: tree_id
  cc_files :: u32
  cc_added :: u64
  cc_removed :: u64
  cc_largest :: "file_change list"

datatype (plugins only: code size) run_event =
  Run_Created run_created
| PromotionSignaled promotion_signaled
| Run_Paused pause_reason
| Run_Resumed run_resumed
| Run_Moved path
| Run_Finished run_finished
| BaselineCaptured baseline_captured
| BaselineHeld baseline_held
| HostSuspended host_suspended
| ChangesCounted changes_counted

section \<open>The ledger\<close>

datatype run_phase_raw = Unborn | Open | Paused | Phase_Closed

record promotion =
  pro_to :: mode_name
  pro_cause :: "promotion_cause option"
  pro_evidence :: "json list"
  pro_at :: seq

record finished =
  fin_terminal :: terminal_state
  fin_seq :: seq
  fin_at :: instant
  fin_metrics :: run_metrics
  fin_closed_by :: "string option"

definition finished_of :: "run_finished \<Rightarrow> event_meta \<Rightarrow> finished" where
  "finished_of p m =
     \<lparr>fin_terminal = rf_terminal_state p, fin_seq = m_seq m, fin_at = m_at m,
      fin_metrics = rf_metrics p, fin_closed_by = rf_closed_by p\<rparr>"

record run_ledger =
  rl_phase :: run_phase_raw
  rl_mode :: mode_name
  rl_left_out :: "left_out list"
  rl_finished :: "finished option"
  rl_paused :: "(pause_reason \<times> seq) option"
  rl_resumed_after :: "seq option"
  rl_promotion :: "promotion option"
  rl_baseline :: "baseline_captured option"
  rl_held :: "(string, baseline_held) omap"
  rl_suspensions :: suspensions
  rl_changes :: "changes_counted option"
  rl_woken :: bool
  rl_invocations :: "(seq \<times> execution_environment option) list"
  rl_opens_on_base :: bool
  rl_checkout :: "path option"
  rl_moved_at :: "seq option"
  rl_bound_at :: "seq option"
  rl_woke_on :: "(seq \<times> tree_id) option"
  rl_resumed_at :: "instant option"

text \<open>The default \<open>ModeName\<close> is \<open>default\<close> (\<open>ids.rs\<close>).\<close>

definition run_new :: run_ledger where
  "run_new =
     \<lparr>rl_phase = Unborn, rl_mode = ''default'', rl_left_out = [], rl_finished = None, rl_paused = None,
      rl_resumed_after = None, rl_promotion = None, rl_baseline = None, rl_held = [],
      rl_suspensions = [], rl_changes = None, rl_woken = False, rl_invocations = [],
      rl_opens_on_base = False, rl_checkout = None, rl_moved_at = None, rl_bound_at = None,
      rl_woke_on = None, rl_resumed_at = None\<rparr>"

definition moved_on_waking :: "run_ledger \<Rightarrow> bool" where
  "moved_on_waking L \<longleftrightarrow> rl_moved_at L \<noteq> None \<and> rl_moved_at L = rl_resumed_after L"

text \<open>\<open>iter().rev().find_map(|(_, in_force)| in_force.as_ref())\<close>.\<close>

definition latest_recorded :: "(seq \<times> execution_environment option) list \<Rightarrow> execution_environment option" where
  "latest_recorded wakes = last_opt (List.map_filter snd wakes)"

definition environment_drift_of :: "run_ledger \<Rightarrow> environment_drift option" where
  "environment_drift_of L =
     (case rl_invocations L of
        [] \<Rightarrow> None
      | born # wakes \<Rightarrow>
          (case latest_recorded wakes of
             None \<Rightarrow> None
           | Some woken \<Rightarrow>
               (case snd born of None \<Rightarrow> None | Some env \<Rightarrow> drift_to env woken)))"

definition environment_at :: "run_ledger \<Rightarrow> seq \<Rightarrow> execution_environment option" where
  "environment_at L sq =
     Option.bind (List.find (\<lambda>(began, _). began \<le> sq) (rev (rl_invocations L))) snd"

definition environment_now :: "run_ledger \<Rightarrow> execution_environment option" where
  "environment_now L = Option.bind (last_opt (rl_invocations L)) snd"

definition run_paused :: "run_ledger \<Rightarrow> (pause_reason \<times> seq) option" where
  "run_paused L =
     filter_opt (\<lambda>(_, at). is_none_or (rl_resumed_after L) (\<lambda>resumed. resumed < at)) (rl_paused L)"

definition last_paused_at :: "run_ledger \<Rightarrow> seq option" where
  "last_paused_at L = map_option snd (rl_paused L)"

definition rl_created :: "run_ledger \<Rightarrow> run_created \<Rightarrow> event_meta \<Rightarrow> run_ledger" where
  "rl_created L p m =
     L\<lparr>rl_phase := Open,
       rl_mode := rc_mode p,
       rl_left_out := rc_left_out p,
       rl_opens_on_base := rc_opens_on_base p,
       rl_checkout := rc_checkout p,
       rl_bound_at := map_option (\<lambda>_. m_seq m) (rc_checkout p),
       rl_invocations := rl_invocations L @ [(m_seq m, rc_environment p)]\<rparr>"

definition rl_resumed :: "run_ledger \<Rightarrow> run_resumed \<Rightarrow> event_meta \<Rightarrow> run_ledger" where
  "rl_resumed L p m =
     (let L1 = L\<lparr>rl_woken := True,
                 rl_phase := Open,
                 rl_resumed_after := Some (m_seq m),
                 rl_resumed_at := Some (m_at m),
                 rl_woke_on := map_option (\<lambda>tree. (m_seq m, tree)) (rr_tree p),
                 rl_invocations := rl_invocations L @ [(m_seq m, rr_environment p)]\<rparr>
      in case rr_checkout p of
           None \<Rightarrow> L1
         | Some checkout \<Rightarrow>
             L1\<lparr>rl_checkout := Some checkout, rl_moved_at := Some (m_seq m),
                rl_bound_at := Some (m_seq m)\<rparr>)"

fun run_apply :: "run_ledger \<Rightarrow> run_event \<Rightarrow> event_meta \<Rightarrow> run_ledger" where
  "run_apply L (Run_Created p) m = rl_created L p m"
| "run_apply L (Run_Paused p) m =
     L\<lparr>rl_woken := True, rl_phase := Paused, rl_paused := Some (p, m_seq m)\<rparr>"
| "run_apply L (Run_Resumed p) m = rl_resumed L p m"
| "run_apply L (Run_Moved c) m = L\<lparr>rl_checkout := Some c, rl_bound_at := Some (m_seq m)\<rparr>"
| "run_apply L (Run_Finished p) m =
     L\<lparr>rl_phase := Phase_Closed, rl_finished := Some (finished_of p m)\<rparr>"
| "run_apply L (BaselineCaptured p) m =
     L\<lparr>rl_woken := rl_woken L \<or> bc_origin p = Measured, rl_baseline := Some p\<rparr>"
| "run_apply L (BaselineHeld p) m =
     L\<lparr>rl_woken := rl_woken L \<or> bh_origin p = Measured, rl_held := om_put (bh_name p) p (rl_held L)\<rparr>"
| "run_apply L (HostSuspended p) m =
     L\<lparr>rl_suspensions :=
         push_suspension \<lparr>woke_at = m_at m, slept = host_duration p\<rparr> (rl_suspensions L)\<rparr>"
| "run_apply L (ChangesCounted p) m = L\<lparr>rl_changes := Some p\<rparr>"
| "run_apply L (PromotionSignaled p) m =
     L\<lparr>rl_promotion :=
         Some \<lparr>pro_to = ps_suggested_mode p, pro_cause = ps_cause p, pro_evidence = ps_evidence p,
               pro_at = m_seq m\<rparr>\<rparr>"

type_synonym run_op = "run_event \<times> event_meta"

definition run_step :: "run_ledger \<Rightarrow> run_op \<Rightarrow> unit + run_ledger" where
  "run_step L x = Inr (run_apply L (fst x) (snd x))"

section \<open>Pauses and drifts\<close>

fun innermost :: "pause_reason \<Rightarrow> pause_reason" where
  "innermost (Pause_ChildPaused _ _ child) = innermost child"
| "innermost p = p"

lemma by_a_person_innermost: "by_a_person p = by_a_person (innermost p)"
  by (induction p) simp_all

lemma waits_innermost: "waits_on_a_person p = waits_on_a_person (innermost p)"
  by (induction p) simp_all

lemma innermost_not_child: "innermost p \<noteq> Pause_ChildPaused n r c"
  by (induction p) simp_all

lemma waits_leaf:
  "waits_on_a_person (innermost p) \<longleftrightarrow>
     \<not> by_a_person (innermost p) \<and> reset_wait (innermost p) = None \<and>
     (\<nexists>s. innermost p = Pause_Recorded s)"
proof (cases "innermost p")
  case (Pause_ChildPaused n r c)
  then show ?thesis using innermost_not_child by blast
qed (simp_all add: reset_wait_def)

lemma filter_not_member_self: "filter (\<lambda>d. \<not> List.member xs d) xs = []"
  by (simp add: filter_empty_conv)

section \<open>A run's fields, over its log\<close>

lemma run_step_Inr [simp]: "run_step L x = Inr L' \<longleftrightarrow> L' = run_apply L (fst x) (snd x)"
  by (auto simp: run_step_def)

lemma rl_resumed_frame [frame_simps]:
  "rl_phase (rl_resumed L p m) = Open"
  "rl_paused (rl_resumed L p m) = rl_paused L"
  "rl_resumed_after (rl_resumed L p m) = Some (m_seq m)"
  "rl_resumed_at (rl_resumed L p m) = Some (m_at m)"
  "rl_woken (rl_resumed L p m)"
  "rl_promotion (rl_resumed L p m) = rl_promotion L"
  "rl_finished (rl_resumed L p m) = rl_finished L"
  "rl_baseline (rl_resumed L p m) = rl_baseline L"
  "rl_suspensions (rl_resumed L p m) = rl_suspensions L"
  "rl_mode (rl_resumed L p m) = rl_mode L"
  "rl_invocations (rl_resumed L p m) = rl_invocations L @ [(m_seq m, rr_environment p)]"
  "rl_checkout (rl_resumed L p m) = or_else (rr_checkout p) (rl_checkout L)"
  "rl_moved_at (rl_resumed L p m) = (if rr_checkout p = None then rl_moved_at L else Some (m_seq m))"
  "rl_bound_at (rl_resumed L p m) = (if rr_checkout p = None then rl_bound_at L else Some (m_seq m))"
  by (simp_all add: rl_resumed_def Let_def split: option.split)

lemmas rl_created_frame [frame_simps] = rl_created_def

definition phase_write :: "run_op \<Rightarrow> run_phase_raw option" where
  "phase_write x =
     (case fst x of
        Run_Created _ \<Rightarrow> Some Open
      | Run_Paused _ \<Rightarrow> Some Paused
      | Run_Resumed _ \<Rightarrow> Some Open
      | Run_Finished _ \<Rightarrow> Some Phase_Closed
      | _ \<Rightarrow> None)"

definition checkout_write :: "run_op \<Rightarrow> path option option" where
  "checkout_write x =
     (case fst x of
        Run_Created p \<Rightarrow> Some (rc_checkout p)
      | Run_Resumed p \<Rightarrow> map_option Some (rr_checkout p)
      | Run_Moved c \<Rightarrow> Some (Some c)
      | _ \<Rightarrow> None)"

definition bound_write :: "run_op \<Rightarrow> seq option option" where
  "bound_write x = map_option (map_option (\<lambda>_. m_seq (snd x))) (checkout_write x)"

definition wakes_run :: "run_op \<Rightarrow> bool" where
  "wakes_run x =
     (case fst x of
        Run_Paused _ \<Rightarrow> True
      | Run_Resumed _ \<Rightarrow> True
      | BaselineCaptured p \<Rightarrow> bc_origin p = Measured
      | BaselineHeld p \<Rightarrow> bh_origin p = Measured
      | _ \<Rightarrow> False)"

definition invocation :: "run_op \<Rightarrow> (seq \<times> execution_environment option) option" where
  "invocation x =
     (case fst x of
        Run_Created p \<Rightarrow> Some (m_seq (snd x), rc_environment p)
      | Run_Resumed p \<Rightarrow> Some (m_seq (snd x), rr_environment p)
      | _ \<Rightarrow> None)"

text \<open>What last moved the run in or out of a pause.\<close>

definition pause_or_wake :: "run_op \<Rightarrow> pause_reason option option" where
  "pause_or_wake x =
     (case fst x of Run_Paused p \<Rightarrow> Some (Some p) | Run_Resumed _ \<Rightarrow> Some None | _ \<Rightarrow> None)"

interpretation phase: last_write run_step rl_phase phase_write
  by unfold_locales (auto simp: phase_write_def frame_simps split: run_event.split)

interpretation checkout: last_write run_step rl_checkout checkout_write
  by unfold_locales (auto simp: checkout_write_def frame_simps or_else_def split: run_event.split option.split)

interpretation bound: last_write run_step rl_bound_at bound_write
  by unfold_locales (auto simp: bound_write_def checkout_write_def frame_simps split: run_event.split option.split)

lemma fold_run: "fold_until run_step L ops = (foldl (\<lambda>L x. run_apply L (fst x) (snd x)) L ops, None)"
  unfolding run_step_def by (rule fold_until_total)

definition run_of :: "run_op list \<Rightarrow> run_ledger" where
  "run_of ops = fst (fold_until run_step run_new ops)"

lemma fold_run_of: "fold_until run_step run_new ops = (run_of ops, None)"
  by (simp add: run_of_def fold_run)

lemma run_of_Nil [simp]: "run_of [] = run_new"
  by (simp add: run_of_def)

lemma run_of_snoc [simp]: "run_of (ops @ [x]) = run_apply (run_of ops) (fst x) (snd x)"
  by (simp add: run_of_def fold_run)

lemma invocations_of: "rl_invocations (run_of ops) = List.map_filter invocation ops"
proof (induction ops rule: rev_induct)
  case Nil
  then show ?case by (simp add: run_new_def List.map_filter_simps)
next
  case (snoc x ops)
  then show ?case
    by (simp add: List.map_filter_def invocation_def frame_simps split: run_event.split)
qed

text \<open>The seqs of a log ascend: every seq an event of it carried is below the next one's.\<close>

definition ascending :: "run_op list \<Rightarrow> bool" where
  "ascending ops \<longleftrightarrow> sorted_wrt (<) (map (\<lambda>x. m_seq (snd x)) ops)"

lemma ascending_snoc:
  "ascending (ops @ [x]) \<longleftrightarrow> ascending ops \<and> (\<forall>y \<in> set ops. m_seq (snd y) < m_seq (snd x))"
  by (auto simp: ascending_def sorted_wrt_append)

lemma pause_seqs_from_log:
  "(\<forall>p at. rl_paused (run_of ops) = Some (p, at) \<longrightarrow> at \<in> (\<lambda>x. m_seq (snd x)) ` set ops) \<and>
   (\<forall>at. rl_resumed_after (run_of ops) = Some at \<longrightarrow> at \<in> (\<lambda>x. m_seq (snd x)) ` set ops)"
proof (induction ops rule: rev_induct)
  case Nil
  then show ?case by (simp add: run_new_def)
next
  case (snoc x ops)
  then show ?case by (cases "fst x") (auto simp: frame_simps)
qed

definition paused_spec :: "run_op list \<Rightarrow> pause_reason option" where
  "paused_spec ops = Option.bind (last_opt (List.map_filter pause_or_wake ops)) (\<lambda>p. p)"

lemma paused_spec_snoc:
  "paused_spec (ops @ [x]) = (case pause_or_wake x of None \<Rightarrow> paused_spec ops | Some p \<Rightarrow> p)"
  by (simp add: paused_spec_def List.map_filter_def last_opt_def split: option.split)

lemma run_paused_frame:
  "pause_or_wake x = None \<Longrightarrow> run_paused (run_apply L (fst x) (snd x)) = run_paused L"
  by (cases "fst x") (simp_all add: run_paused_def pause_or_wake_def frame_simps)

lemma run_paused_spec: "ascending ops \<Longrightarrow> map_option fst (run_paused (run_of ops)) = paused_spec ops"
proof (induction ops rule: rev_induct)
  case Nil
  then show ?case by (simp add: run_paused_def run_new_def paused_spec_def List.map_filter_simps)
next
  case (snoc x ops)
  have IH: "map_option fst (run_paused (run_of ops)) = paused_spec ops"
    using snoc by (simp add: ascending_snoc)
  note seqs = pause_seqs_from_log [of ops]
  have below: "at < m_seq (snd x)" if "at \<in> (\<lambda>x. m_seq (snd x)) ` set ops" for at
    using snoc.prems that by (auto simp: ascending_snoc)
  consider (wake) p where "fst x = Run_Resumed p" | (pause) p where "fst x = Run_Paused p"
    | (other) "pause_or_wake x = None"
    by (cases "fst x") (auto simp: pause_or_wake_def)
  then show ?case
  proof cases
    case (pause p)
    have "is_none_or (rl_resumed_after (run_of ops)) (\<lambda>resumed. resumed < m_seq (snd x))"
      using seqs below by (cases "rl_resumed_after (run_of ops)") auto
    with pause show ?thesis by (simp add: run_paused_def paused_spec_snoc pause_or_wake_def)
  next
    case (wake p)
    have "filter_opt (\<lambda>(_, at). m_seq (snd x) < at) (rl_paused (run_of ops)) = None"
    proof (cases "rl_paused (run_of ops)")
      case (Some pa)
      with seqs have "snd pa < m_seq (snd x)" by (intro below) (cases pa; auto)
      with Some show ?thesis by (simp add: split_def)
    qed simp
    with wake show ?thesis
      by (simp add: run_paused_def paused_spec_snoc pause_or_wake_def frame_simps)
  next
    case other
    with IH show ?thesis by (simp only: run_of_snoc run_paused_frame paused_spec_snoc option.case)
  qed
qed

lemma woken_of: "rl_woken (run_of ops) \<longleftrightarrow> (\<exists>x \<in> set ops. wakes_run x)"
proof (induction ops rule: rev_induct)
  case Nil
  then show ?case by (simp add: run_new_def)
next
  case (snoc x ops)
  have "rl_woken (run_apply L (fst x) (snd x)) \<longleftrightarrow> rl_woken L \<or> wakes_run x" for L
    by (cases "fst x") (simp_all add: wakes_run_def frame_simps)
  with snoc show ?case by auto
qed

section \<open>The properties\<close>

text \<open>A pause is one kind of wait: what it waits on is decided by the innermost pause of the child
  runs it names, never by both a person's stop and a person's answer at once, and the pauses that are
  neither are exactly a limit's reset and a sentence an older log kept.\<close>

lemma pause_is_one_kind_of_wait:
  "by_a_person p = by_a_person (innermost p) \<and> waits_on_a_person p = waits_on_a_person (innermost p) \<and>
   \<not> (by_a_person p \<and> waits_on_a_person p) \<and>
   (\<not> by_a_person p \<and> \<not> waits_on_a_person p \<longleftrightarrow>
      reset_wait (innermost p) \<noteq> None \<or> (\<exists>s. innermost p = Pause_Recorded s))"
proof -
  have "\<not> by_a_person (innermost p)"
    if "reset_wait (innermost p) \<noteq> None \<or> (\<exists>s. innermost p = Pause_Recorded s)"
    using that by (cases "innermost p") (auto simp: reset_wait_def)
  then show ?thesis
    using by_a_person_innermost [of p] waits_innermost [of p] waits_leaf [of p] by metis
qed

text \<open>A drift is reported exactly when the environment changed: none iff the shell and the path are
  the same, the directories gained and lost are exactly the ones only one path holds, and it is called
  a reordering exactly when the same directories come in another order or number.\<close>

lemma drift_reported_iff_changed:
  "(drift_to was now = None \<longleftrightarrow> env_shell was = env_shell now \<and> env_path was = env_path now) \<and>
   (case drift_to was now of
      None \<Rightarrow> True
    | Some d \<Rightarrow>
        set (dr_gained d) = set (env_path now) - set (env_path was) \<and>
        set (dr_lost d) = set (env_path was) - set (env_path now) \<and>
        (dr_shell d \<noteq> None \<longleftrightarrow> env_shell was \<noteq> env_shell now) \<and>
        (dr_reordered d \<longleftrightarrow>
           set (env_path was) = set (env_path now) \<and> env_path was \<noteq> env_path now))"
proof -
  have "filter (\<lambda>dir. \<not> List.member xs dir) ys = [] \<longleftrightarrow> set ys \<subseteq> set xs" for xs ys :: "string list"
    by (auto simp: filter_empty_conv)
  then show ?thesis
    by (auto simp: drift_to_def Let_def)
qed

text \<open>A run is parked exactly when nothing woke it since its last pause: on any log whose seqs
  ascend, the pause a reader sees is the last pause when no resume follows it, and none otherwise;
  whatever the seqs, its phase is what the last event that moves it says, it has been woken iff some
  event of an invocation is on the log, and it works where its birth, a wake or a move last put it.\<close>

lemma run_parked_until_woken:
  "(ascending ops \<longrightarrow>
      map_option fst (run_paused (run_of ops)) =
        Option.bind (last_opt (List.map_filter pause_or_wake ops)) (\<lambda>p. p)) \<and>
   rl_phase (run_of ops) = unwrap_or (last_opt (List.map_filter phase_write ops)) Unborn \<and>
   rl_checkout (run_of ops) = unwrap_or (last_opt (List.map_filter checkout_write ops)) None \<and>
   rl_bound_at (run_of ops) = unwrap_or (last_opt (List.map_filter bound_write ops)) None \<and>
   (rl_woken (run_of ops) \<longleftrightarrow> (\<exists>x \<in> set ops. wakes_run x))"
proof -
  note views = phase.view_fold [OF fold_run_of, of ops] checkout.view_fold [OF fold_run_of, of ops]
    bound.view_fold [OF fold_run_of, of ops]
  have new: "rl_phase run_new = Unborn" "rl_checkout run_new = None" "rl_bound_at run_new = None"
    by (simp_all add: run_new_def)
  show ?thesis
    using run_paused_spec [of ops, unfolded paused_spec_def] woken_of [of ops] views [unfolded new]
    by blast
qed

definition sample_run_ops :: "run_op list" where
  "sample_run_ops =
     [(Run_Paused (Pause_LoopOverrun ''n'' 3), \<lparr>m_seq = 2, m_at = 5, m_node = None\<rparr>),
      (Run_Resumed (run_resumed_new [] None), \<lparr>m_seq = 4, m_at = 9, m_node = None\<rparr>),
      (Run_Moved ''/w'', \<lparr>m_seq = 5, m_at = 9, m_node = None\<rparr>),
      (Run_Paused (Pause_GateAborted ''g'' None), \<lparr>m_seq = 7, m_at = 10, m_node = None\<rparr>)]"

end
