(* ===== verification/Child_Ledger.thy ===== *)
theory Child_Ledger
  imports Run_Ledger
begin

text \<open>
  The runs this run started (\<open>events/children/\<close>), folded once: the child open under a node, how each
  closed, and what they spent (\<open>ledger.rs\<close>). The lemmas show that every closed child's spend is
  counted once, that a child is closed iff the last thing the log says of it is a close, and that
  nothing stays open under a node once the child it bore closed.
\<close>

record child_link =
  cl_run_id :: run_id
  cl_node :: "node_id option"
  cl_workflow_hash :: content_hash
  cl_terminal :: "terminal_state option"

record loop_iteration =
  li_iteration :: u32
  li_until_result :: bool

record child_created =
  cn_child_run_id :: run_id
  cn_child_workflow_hash :: content_hash

record child_finished =
  cf_child_run_id :: run_id
  cf_child_workflow_hash :: content_hash
  cf_terminal_state :: terminal_state
  cf_tokens :: token_usage

datatype child_event =
  LoopIteration loop_iteration
| Child_Created child_created
| Child_Finished child_finished

record child_ledger =
  ch_links :: "child_link list"
  ch_tokens :: token_usage
  ch_iterations :: u32
  ch_finished_by :: "(node_id, run_id) omap"

definition children_new :: child_ledger where
  "children_new = \<lparr>ch_links = [], ch_tokens = usage_default, ch_iterations = 0, ch_finished_by = []\<rparr>"

definition finished_for :: "child_ledger \<Rightarrow> node_id \<Rightarrow> run_id option" where
  "finished_for L n = om_get (ch_finished_by L) n"

definition is_child :: "child_ledger \<Rightarrow> run_id \<Rightarrow> bool" where
  "is_child L run = list_ex (\<lambda>link. cl_run_id link = run) (ch_links L)"

definition open_under :: "child_ledger \<Rightarrow> node_id \<Rightarrow> child_link option" where
  "open_under L n =
     List.find (\<lambda>link. cl_node link = Some n \<and> cl_terminal link = None) (rev (ch_links L))"

text \<open>\<open>links.iter_mut().rev().find(..)\<close>: the last link of the run is the one that closes.\<close>

fun close_first :: "run_id \<Rightarrow> terminal_state \<Rightarrow> child_link list \<Rightarrow> child_link list option" where
  "close_first run t [] = None"
| "close_first run t (link # links) =
     (if cl_run_id link = run then Some (link\<lparr>cl_terminal := Some t\<rparr> # links)
      else map_option ((#) link) (close_first run t links))"

definition close_last :: "run_id \<Rightarrow> terminal_state \<Rightarrow> child_link list \<Rightarrow> child_link list option" where
  "close_last run t links = map_option rev (close_first run t (rev links))"

fun children_apply :: "child_ledger \<Rightarrow> child_event \<Rightarrow> event_meta \<Rightarrow> child_ledger" where
  "children_apply L (Child_Created p) m =
     L\<lparr>ch_links := ch_links L @
         [\<lparr>cl_run_id = cn_child_run_id p, cl_node = m_node m,
           cl_workflow_hash = cn_child_workflow_hash p, cl_terminal = None\<rparr>]\<rparr>"
| "children_apply L (Child_Finished p) m =
     (let L1 = L\<lparr>ch_tokens := usage_add (ch_tokens L) (cf_tokens p)\<rparr>;
          L2 = (case m_node m of
                  Some n \<Rightarrow> L1\<lparr>ch_finished_by := om_put n (cf_child_run_id p) (ch_finished_by L1)\<rparr>
                | None \<Rightarrow> L1)
      in case close_last (cf_child_run_id p) (cf_terminal_state p) (ch_links L2) of
           Some links \<Rightarrow> L2\<lparr>ch_links := links\<rparr>
         | None \<Rightarrow>
             L2\<lparr>ch_links := ch_links L2 @
                 [\<lparr>cl_run_id = cf_child_run_id p, cl_node = m_node m,
                   cl_workflow_hash = cf_child_workflow_hash p,
                   cl_terminal = Some (cf_terminal_state p)\<rparr>]\<rparr>)"
| "children_apply L (LoopIteration p) m = L\<lparr>ch_iterations := max (ch_iterations L) (li_iteration p)\<rparr>"

type_synonym child_op = "child_event \<times> event_meta"

definition children_step :: "child_ledger \<Rightarrow> child_op \<Rightarrow> unit + child_ledger" where
  "children_step L x = Inr (children_apply L (fst x) (snd x))"

section \<open>Closing a link\<close>

lemma close_first_None: "close_first run t links = None \<longleftrightarrow> (\<forall>l \<in> set links. cl_run_id l \<noteq> run)"
  by (induction links) auto

lemma close_first_Some:
  "close_first run t links = Some links' \<Longrightarrow>
     \<exists>pre link post. links = pre @ link # post \<and> links' = pre @ link\<lparr>cl_terminal := Some t\<rparr> # post \<and>
       cl_run_id link = run \<and> (\<forall>l \<in> set pre. cl_run_id l \<noteq> run)"
proof (induction links arbitrary: links')
  case Nil
  then show ?case by simp
next
  case (Cons a links)
  show ?case
  proof (cases "cl_run_id a = run")
    case True
    with Cons.prems show ?thesis by (intro exI [of _ "[]"]) auto
  next
    case False
    with Cons.prems obtain rest where "close_first run t links = Some rest" "links' = a # rest"
      by auto
    with Cons.IH obtain pre link post where "links = pre @ link # post"
      "rest = pre @ link\<lparr>cl_terminal := Some t\<rparr> # post" "cl_run_id link = run"
      "\<forall>l \<in> set pre. cl_run_id l \<noteq> run" by blast
    with False \<open>links' = a # rest\<close> show ?thesis by (intro exI [of _ "a # pre"]) auto
  qed
qed

text \<open>The last link of a run, and what closing does to it.\<close>

definition last_link :: "run_id \<Rightarrow> child_ledger \<Rightarrow> child_link option" where
  "last_link run L = List.find (\<lambda>l. cl_run_id l = run) (rev (ch_links L))"

lemma find_append: "List.find P (xs @ ys) = or_else (List.find P xs) (List.find P ys)"
  by (induction xs) auto

lemma find_none: "\<forall>x \<in> set xs. \<not> P x \<Longrightarrow> List.find P xs = None"
  by (simp add: find_None_iff)

lemma close_first_find:
  assumes "close_first run t links = Some links'"
  shows "List.find (\<lambda>l. cl_run_id l = r) links' =
    (if r = run then map_option (\<lambda>l. l\<lparr>cl_terminal := Some t\<rparr>) (List.find (\<lambda>l. cl_run_id l = r) links)
     else List.find (\<lambda>l. cl_run_id l = r) links)"
proof -
  from close_first_Some [OF assms] obtain pre link post where
    "links = pre @ link # post" "links' = pre @ link\<lparr>cl_terminal := Some t\<rparr> # post"
    "cl_run_id link = run" "\<forall>l \<in> set pre. cl_run_id l \<noteq> run" by blast
  then show ?thesis by (auto simp: find_append find_none)
qed

definition child_word :: "run_id \<Rightarrow> child_op \<Rightarrow> terminal_state option option" where
  "child_word run x =
     (case fst x of
        Child_Created p \<Rightarrow> if cn_child_run_id p = run then Some None else None
      | Child_Finished p \<Rightarrow> if cf_child_run_id p = run then Some (Some (cf_terminal_state p)) else None
      | LoopIteration _ \<Rightarrow> None)"

definition finished_write :: "node_id \<Rightarrow> child_op \<Rightarrow> run_id option option" where
  "finished_write n x =
     (case fst x of
        Child_Finished p \<Rightarrow> if m_node (snd x) = Some n then Some (Some (cf_child_run_id p)) else None
      | _ \<Rightarrow> None)"

definition child_spent :: "child_op \<Rightarrow> token_usage" where
  "child_spent x = (case fst x of Child_Finished p \<Rightarrow> cf_tokens p | _ \<Rightarrow> 0)"

lemma last_link_apply:
  "map_option cl_terminal (last_link run (children_apply L e m)) =
     or_else (child_word run (e, m)) (map_option cl_terminal (last_link run L))" (is "?l = ?r")
proof (cases e)
  case (LoopIteration p)
  then show ?thesis by (simp add: last_link_def child_word_def)
next
  case (Child_Created p)
  then show ?thesis by (simp add: last_link_def child_word_def)
next
  case (Child_Finished p)
  show ?thesis
  proof (cases "close_first (cf_child_run_id p) (cf_terminal_state p) (rev (ch_links L))")
    case None
    then have "List.find (\<lambda>l. cl_run_id l = cf_child_run_id p) (rev (ch_links L)) = None"
      by (simp add: close_first_None find_None_iff)
    with None Child_Finished show ?thesis
      by (auto simp: last_link_def child_word_def Let_def close_last_def split: option.split)
  next
    case (Some links')
    then have "List.find (\<lambda>l. cl_run_id l = cf_child_run_id p) (rev (ch_links L)) \<noteq> None"
      unfolding find_None_iff using close_first_None [of "cf_child_run_id p" "cf_terminal_state p" "rev (ch_links L)"] Some
      by auto
    moreover have "ch_links (children_apply L e m) = rev links'"
      using Some Child_Finished by (simp add: Let_def close_last_def split: option.split)
    ultimately show ?thesis
      using close_first_find [OF Some, of run] Child_Finished
      by (auto simp: last_link_def child_word_def)
  qed
qed

lemma children_step_Inr [simp]:
  "children_step L x = Inr L' \<longleftrightarrow> L' = children_apply L (fst x) (snd x)"
  by (auto simp: children_step_def)

lemma or_else_unwrap: "or_else (x :: 'a option) y = unwrap_or (map_option Some x) y"
  by (cases x) simp_all

interpretation child_word: last_write children_step "\<lambda>L. map_option cl_terminal (last_link run L)"
  "\<lambda>x. map_option Some (child_word run x)" for run
  by unfold_locales (simp add: last_link_apply or_else_unwrap)

interpretation finished_for: last_write children_step "\<lambda>L. finished_for L n" "finished_write n" for n
proof
  fix L L' :: child_ledger and x
  assume "children_step L x = Inr L'"
  then show "finished_for L' n = unwrap_or (finished_write n x) (finished_for L n)"
    by (cases "fst x") (auto simp: finished_for_def finished_write_def Let_def split: option.split)
qed

interpretation child_spend: running_total children_step ch_tokens child_spent
proof
  fix L L' :: child_ledger and x
  assume "children_step L x = Inr L'"
  then show "ch_tokens L' = ch_tokens L + child_spent x"
    by (cases "fst x") (auto simp: child_spent_def plus_token_usage_def [symmetric] Let_def split: option.split)
qed

section \<open>A ledger of a log\<close>

definition children_of :: "child_op list \<Rightarrow> child_ledger" where
  "children_of ops = fst (fold_until children_step children_new ops)"

lemma fold_children:
  "fold_until children_step L ops = (foldl (\<lambda>L x. children_apply L (fst x) (snd x)) L ops, None)"
  unfolding children_step_def by (rule fold_until_total)

lemma children_of_Nil [simp]: "children_of [] = children_new"
  by (simp add: children_of_def)

lemma children_of_snoc [simp]: "children_of (ops @ [x]) = children_apply (children_of ops) (fst x) (snd x)"
  by (simp add: children_of_def fold_children)

lemma fold_children_of: "fold_until children_step children_new ops = (children_of ops, None)"
  by (simp add: children_of_def fold_children)

lemma child_word_of:
  "map_option cl_terminal (last_link run (children_of ops)) = last_opt (List.map_filter (child_word run) ops)"
proof -
  have "List.map_filter (\<lambda>x. map_option Some (child_word run x)) ops =
      map Some (List.map_filter (child_word run) ops)"
    by (induction ops) (auto simp: List.map_filter_simps split: option.split)
  moreover have "last_opt (map Some (List.map_filter (child_word run) ops)) =
      map_option Some (last_opt (List.map_filter (child_word run) ops))"
    by (simp add: last_opt_def last_map)
  ultimately show ?thesis
    using child_word.view_fold [OF fold_children_of, of run ops]
    by (cases "last_opt (List.map_filter (child_word run) ops)")
      (simp_all add: children_new_def last_link_def)
qed

definition born :: "child_op \<Rightarrow> (run_id \<times> node_id option) option" where
  "born x = (case fst x of Child_Created p \<Rightarrow> Some (cn_child_run_id p, m_node (snd x)) | _ \<Rightarrow> None)"

text \<open>A run is born once: no birth names a run the log named before.\<close>

definition fresh_births :: "child_op list \<Rightarrow> bool" where
  "fresh_births ops \<longleftrightarrow>
     sorted_wrt (\<lambda>x y. case born y of None \<Rightarrow> True | Some (run, _) \<Rightarrow> child_word run x = None) ops"

lemma close_last_members:
  assumes "close_last run t links = Some links'"
  shows "map cl_run_id links' = map cl_run_id links \<and>
    map (\<lambda>l. (cl_run_id l, cl_node l)) links' = map (\<lambda>l. (cl_run_id l, cl_node l)) links \<and>
    (\<forall>l \<in> set links'. cl_terminal l = None \<longrightarrow> l \<in> set links)"
proof -
  from assms obtain rs where "close_first run t (rev links) = Some rs" "links' = rev rs"
    by (auto simp: close_last_def)
  with close_first_Some obtain pre link post where "rev links = pre @ link # post"
    "rs = pre @ link\<lparr>cl_terminal := Some t\<rparr> # post" by blast
  then have "links = rev post @ link # rev pre"
    by (metis append_assoc append_Cons append_Nil rev.simps rev_append rev_rev_ident)
  with \<open>links' = rev rs\<close> \<open>rs = _\<close> show ?thesis by auto
qed

lemma links_apply_cases:
  obtains (same) "ch_links (children_apply L e m) = ch_links L" "born (e, m) = None"
  | (birth) p where "e = Child_Created p"
      "ch_links (children_apply L e m) = ch_links L @
         [\<lparr>cl_run_id = cn_child_run_id p, cl_node = m_node m,
           cl_workflow_hash = cn_child_workflow_hash p, cl_terminal = None\<rparr>]"
  | (closed) p where "e = Child_Finished p"
      "close_last (cf_child_run_id p) (cf_terminal_state p) (ch_links L) =
         Some (ch_links (children_apply L e m))"
  | (orphan) p where "e = Child_Finished p"
      "close_last (cf_child_run_id p) (cf_terminal_state p) (ch_links L) = None"
      "ch_links (children_apply L e m) = ch_links L @
         [\<lparr>cl_run_id = cf_child_run_id p, cl_node = m_node m,
           cl_workflow_hash = cf_child_workflow_hash p, cl_terminal = Some (cf_terminal_state p)\<rparr>]"
proof (cases e)
  case (Child_Finished p)
  then show ?thesis
  proof (cases "close_last (cf_child_run_id p) (cf_terminal_state p) (ch_links L)")
    case None
    with Child_Finished show ?thesis by (intro orphan [of p]) (auto simp: Let_def split: option.split)
  next
    case (Some links)
    with Child_Finished show ?thesis by (intro closed [of p]) (auto simp: Let_def split: option.split)
  qed
qed (auto simp: born_def intro: same birth)

lemma links_named:
  "cl_run_id ` set (ch_links (children_of ops)) \<subseteq> {run. \<exists>x \<in> set ops. child_word run x \<noteq> None}"
proof (induction ops rule: rev_induct)
  case Nil
  then show ?case by (simp add: children_new_def)
next
  case (snoc x ops)
  show ?case
  proof (rule links_apply_cases [of "children_of ops" "fst x" "snd x"])
    fix p assume "fst x = Child_Finished p" and c: "close_last (cf_child_run_id p) (cf_terminal_state p)
        (ch_links (children_of ops)) = Some (ch_links (children_apply (children_of ops) (fst x) (snd x)))"
    have "cl_run_id ` set (ch_links (children_apply (children_of ops) (fst x) (snd x))) =
        cl_run_id ` set (ch_links (children_of ops))"
      unfolding list.set_map [symmetric] using close_last_members [OF c] by presburger
    with snoc show ?case by auto
  qed (use snoc in \<open>auto simp: child_word_def\<close>)
qed

lemma links_distinct: "fresh_births ops \<Longrightarrow> distinct (map cl_run_id (ch_links (children_of ops)))"
proof (induction ops rule: rev_induct)
  case Nil
  then show ?case by (simp add: children_new_def)
next
  case (snoc x ops)
  have fresh: "fresh_births ops" "\<And>run nd y. born x = Some (run, nd) \<Longrightarrow> y \<in> set ops \<Longrightarrow> child_word run y = None"
    using snoc.prems by (auto simp: fresh_births_def sorted_wrt_append)
  note IH = snoc.IH [OF fresh(1)]
  show ?case
  proof (rule links_apply_cases [of "children_of ops" "fst x" "snd x"])
    fix p assume p: "fst x = Child_Created p" and l: "ch_links (children_apply (children_of ops) (fst x) (snd x)) =
        ch_links (children_of ops) @
         [\<lparr>cl_run_id = cn_child_run_id p, cl_node = m_node (snd x),
           cl_workflow_hash = cn_child_workflow_hash p, cl_terminal = None\<rparr>]"
    have "\<forall>y \<in> set ops. child_word (cn_child_run_id p) y = None"
      using fresh(2) [of "cn_child_run_id p" "m_node (snd x)"] p by (simp add: born_def)
    then have "cn_child_run_id p \<notin> cl_run_id ` set (ch_links (children_of ops))"
      using links_named [of ops] by (auto dest!: subsetD)
    with IH l show ?case by simp
  next
    fix p assume "fst x = Child_Finished p" and c: "close_last (cf_child_run_id p) (cf_terminal_state p)
        (ch_links (children_of ops)) = Some (ch_links (children_apply (children_of ops) (fst x) (snd x)))"
    with IH show ?case using close_last_members [OF c] by simp
  next
    fix p assume c: "close_last (cf_child_run_id p) (cf_terminal_state p) (ch_links (children_of ops)) = None"
      and l: "ch_links (children_apply (children_of ops) (fst x) (snd x)) = ch_links (children_of ops) @
         [\<lparr>cl_run_id = cf_child_run_id p, cl_node = m_node (snd x),
           cl_workflow_hash = cf_child_workflow_hash p, cl_terminal = Some (cf_terminal_state p)\<rparr>]"
    from c have "cf_child_run_id p \<notin> cl_run_id ` set (ch_links (children_of ops))"
      by (auto simp: close_last_def close_first_None)
    with IH l show ?case by simp
  qed (use IH in simp)
qed

lemma births_linked:
  "x \<in> set ops \<Longrightarrow> born x = Some (run, nd) \<Longrightarrow>
     \<exists>l \<in> set (ch_links (children_of ops)). cl_run_id l = run \<and> cl_node l = nd"
proof (induction ops arbitrary: x rule: rev_induct)
  case Nil
  then show ?case by simp
next
  case (snoc y ops)
  let ?links = "ch_links (children_apply (children_of ops) (fst y) (snd y))"
  have kept: "(run, nd) \<in> (\<lambda>l. (cl_run_id l, cl_node l)) ` set ?links"
    if "(run, nd) \<in> (\<lambda>l. (cl_run_id l, cl_node l)) ` set (ch_links (children_of ops))"
  proof (rule links_apply_cases [of "children_of ops" "fst y" "snd y"])
    fix p assume c: "close_last (cf_child_run_id p) (cf_terminal_state p) (ch_links (children_of ops)) = Some ?links"
    have "(\<lambda>l. (cl_run_id l, cl_node l)) ` set ?links =
        (\<lambda>l. (cl_run_id l, cl_node l)) ` set (ch_links (children_of ops))"
      unfolding list.set_map [symmetric] using close_last_members [OF c] by presburger
    then show ?thesis using that by blast
  qed (use that in auto)
  show ?case
  proof (cases "x = y")
    case True
    with snoc.prems show ?thesis by (cases "fst y") (auto simp: born_def)
  next
    case False
    with snoc.prems snoc.IH [of x] have "(run, nd) \<in> (\<lambda>l. (cl_run_id l, cl_node l)) ` set (ch_links (children_of ops))"
      by force
    from kept [OF this] show ?thesis by force
  qed
qed

lemma open_links_born:
  "l \<in> set (ch_links (children_of ops)) \<Longrightarrow> cl_terminal l = None \<Longrightarrow>
     \<exists>x \<in> set ops. born x = Some (cl_run_id l, cl_node l)"
proof (induction ops rule: rev_induct)
  case Nil
  then show ?case by (simp add: children_new_def)
next
  case (snoc x ops)
  show ?case
  proof (rule links_apply_cases [of "children_of ops" "fst x" "snd x"])
    fix p assume c: "close_last (cf_child_run_id p) (cf_terminal_state p)
        (ch_links (children_of ops)) = Some (ch_links (children_apply (children_of ops) (fst x) (snd x)))"
    with snoc show ?case using close_last_members [OF c] by auto
  qed (use snoc in \<open>auto simp: born_def\<close>)
qed

lemma find_distinct_last:
  assumes "distinct (map f xs)" "l \<in> set xs"
  shows "List.find (\<lambda>x. f x = f l) (rev xs) = Some l"
  using assms
proof (induction xs rule: rev_induct)
  case (snoc x xs)
  then show ?case by auto
qed simp

lemma open_under_iff:
  assumes "fresh_births ops"
  shows "open_under (children_of ops) n \<noteq> None \<longleftrightarrow>
    (\<exists>run. Some (run, Some n) \<in> born ` set ops \<and>
       last_opt (List.map_filter (child_word run) ops) = Some None)"
proof -
  let ?links = "ch_links (children_of ops)"
  have word: "last_opt (List.map_filter (child_word (cl_run_id l)) ops) = Some (cl_terminal l)"
    if "l \<in> set ?links" for l
    using find_distinct_last [OF links_distinct [OF assms] that]
    by (simp add: child_word_of [symmetric] last_link_def)
  show ?thesis
  proof
    assume "open_under (children_of ops) n \<noteq> None"
    then obtain l where "open_under (children_of ops) n = Some l" by blast
    then have l: "l \<in> set ?links" "cl_node l = Some n" "cl_terminal l = None"
      unfolding open_under_def by (auto dest!: find_SomeD)
    from open_links_born [OF l(1,3)] l word [OF l(1)]
    show "\<exists>run. Some (run, Some n) \<in> born ` set ops \<and>
       last_opt (List.map_filter (child_word run) ops) = Some None" by (metis image_eqI)
  next
    assume "\<exists>run. Some (run, Some n) \<in> born ` set ops \<and>
       last_opt (List.map_filter (child_word run) ops) = Some None"
    then obtain run x where "x \<in> set ops" "born x = Some (run, Some n)"
      and open_word: "last_opt (List.map_filter (child_word run) ops) = Some None" by (metis imageE)
    with births_linked obtain l where "l \<in> set ?links" "cl_run_id l = run" "cl_node l = Some n" by blast
    moreover from this word open_word have "cl_terminal l = None" by auto
    ultimately show "open_under (children_of ops) n \<noteq> None"
      by (auto simp: open_under_def find_None_iff)
  qed
qed

section \<open>The properties\<close>

text \<open>The run reads its children off its log: what they spent is the sum of every close's tokens,
  each counted once; a child stands as the last birth or close of it says, and is known iff one of
  them names it; and the child a node's latest close closed is the one that close names.\<close>

lemma children_read_log:
  "ch_tokens (children_of ops) = sum_list (map child_spent ops) \<and>
   map_option cl_terminal (last_link run (children_of ops)) =
     last_opt (List.map_filter (child_word run) ops) \<and>
   (is_child (children_of ops) run \<longleftrightarrow> (\<exists>x. x \<in> set ops \<and> child_word run x \<noteq> None)) \<and>
   finished_for (children_of ops) n = unwrap_or (last_opt (List.map_filter (finished_write n) ops)) None"
proof -
  have "is_child (children_of ops) run \<longleftrightarrow> last_link run (children_of ops) \<noteq> None"
    by (auto simp: is_child_def last_link_def list_ex_iff find_None_iff)
  also have "\<dots> \<longleftrightarrow> List.map_filter (child_word run) ops \<noteq> []"
    using child_word_of [of run ops] by (auto simp: last_opt_def split: if_splits)
  also have "\<dots> \<longleftrightarrow> (\<exists>x. x \<in> set ops \<and> child_word run x \<noteq> None)"
    by (auto simp: List.map_filter_def filter_empty_conv)
  finally show ?thesis
    using child_spend.view_fold [OF fold_children_of [of ops]] child_word_of [of run ops]
      finished_for.view_fold [OF fold_children_of [of ops], of n]
    by (simp add: children_new_def finished_for_def zero_token_usage_def [symmetric])
qed

text \<open>Nothing stays open under a node once what it bore closed: on a log that bears each run once, a
  child is open under a node exactly when the node bore one whose last word is its birth; and it is a
  child the node bore.\<close>

lemma open_child_is_unclosed:
  assumes "fresh_births ops"
  shows "(open_under (children_of ops) n \<noteq> None \<longleftrightarrow>
      (\<exists>run. Some (run, Some n) \<in> born ` set ops \<and>
         last_opt (List.map_filter (child_word run) ops) = Some None)) \<and>
    (case open_under (children_of ops) n of
       None \<Rightarrow> True
     | Some link \<Rightarrow> cl_node link = Some n \<and> cl_terminal link = None)"
  using open_under_iff [OF assms, of n]
  by (auto simp: open_under_def dest!: find_SomeD split: option.split)

definition sample_child_ops :: "child_op list" where
  "sample_child_ops =
     [(Child_Created \<lparr>cn_child_run_id = ''r1'', cn_child_workflow_hash = ''h''\<rparr>,
        \<lparr>m_seq = 1, m_at = 0, m_node = Some ''n''\<rparr>),
      (Child_Created \<lparr>cn_child_run_id = ''r2'', cn_child_workflow_hash = ''h''\<rparr>,
        \<lparr>m_seq = 2, m_at = 0, m_node = Some ''k''\<rparr>),
      (Child_Finished \<lparr>cf_child_run_id = ''r1'', cf_child_workflow_hash = ''h'',
          cf_terminal_state = Terminal_Done, cf_tokens = TokenUsage 3 1 None\<rparr>,
        \<lparr>m_seq = 3, m_at = 0, m_node = Some ''n''\<rparr>)]"

end
