(* ===== verification/Artifact_Ledger.thy ===== *)
theory Artifact_Ledger
  imports Node_Events
begin

text \<open>
  The artifacts a run holds (\<open>events/artifacts/\<close>): the identity of an artifact and how the run came
  by it (\<open>payloads.rs\<close>), and the one fold from artifact events to what is held, with how each
  document was handed over (\<open>ledger.rs\<close>). The lemmas show that what a run holds is the last acceptance
  of each identity, that a listing keeps the order of first acceptance, that a question about the run
  is answered by its latest acceptance, and that a handover counts once.
\<close>

section \<open>Identities and origins\<close>

datatype artifact_id = Interpreted artifact_kind | Opaque string

definition artifact_id_of :: "string \<Rightarrow> artifact_kind option \<Rightarrow> artifact_id" where
  "artifact_id_of name k = (case k of Some kind \<Rightarrow> Interpreted kind | None \<Rightarrow> Opaque name)"

fun kind_name :: "artifact_kind \<Rightarrow> string" where
  "kind_name Tasks_Kind = ''tasks''"
| "kind_name Findings_Kind = ''findings''"
| "kind_name Questions_Kind = ''questions''"
| "kind_name Answers_Kind = ''answers''"
| "kind_name Spec_Kind = ''spec''"

definition view_name :: "artifact_id \<Rightarrow> string" where
  "view_name a = (case a of Interpreted k \<Rightarrow> kind_name k @ ''.yaml'' | Opaque name \<Rightarrow> name)"

definition drawn_name :: "artifact_id \<Rightarrow> string option" where
  "drawn_name a = (case a of Interpreted k \<Rightarrow> Some (kind_name k @ ''.md'') | Opaque _ \<Rightarrow> None)"

definition published_names :: "artifact_id \<Rightarrow> string list" where
  "published_names a = (case drawn_name a of None \<Rightarrow> [] | Some n \<Rightarrow> [n]) @ [view_name a]"

text \<open>The order both types derive: the order their constructors are declared in, then their
  contents.\<close>

fun kind_rank :: "artifact_kind \<Rightarrow> nat" where
  "kind_rank Tasks_Kind = 0"
| "kind_rank Findings_Kind = 1"
| "kind_rank Questions_Kind = 2"
| "kind_rank Answers_Kind = 3"
| "kind_rank Spec_Kind = 4"

lemma kind_rank_inj: "kind_rank a = kind_rank b \<longleftrightarrow> a = b"
  by (cases a; cases b) simp_all

instantiation artifact_kind :: linorder
begin

definition less_eq_artifact_kind :: "artifact_kind \<Rightarrow> artifact_kind \<Rightarrow> bool" where
  "less_eq_artifact_kind a b \<longleftrightarrow> kind_rank a \<le> kind_rank b"

definition less_artifact_kind :: "artifact_kind \<Rightarrow> artifact_kind \<Rightarrow> bool" where
  "less_artifact_kind a b \<longleftrightarrow> kind_rank a < kind_rank b"

instance
  by standard (auto simp: less_eq_artifact_kind_def less_artifact_kind_def kind_rank_inj [symmetric])

end

fun artifact_key :: "artifact_id \<Rightarrow> nat \<times> string" where
  "artifact_key (Interpreted k) = (kind_rank k, [])"
| "artifact_key (Opaque name) = (5, name)"

lemma artifact_key_inj: "artifact_key a = artifact_key b \<longleftrightarrow> a = b"
proof (cases a; cases b)
  fix k n
  have "kind_rank k \<noteq> 5" by (cases k) simp_all
  then show "a = Interpreted k \<Longrightarrow> b = Opaque n \<Longrightarrow> ?thesis"
    and "a = Opaque n \<Longrightarrow> b = Interpreted k \<Longrightarrow> ?thesis" by auto
qed (simp_all add: kind_rank_inj)

instantiation artifact_id :: linorder
begin

definition less_eq_artifact_id :: "artifact_id \<Rightarrow> artifact_id \<Rightarrow> bool" where
  "less_eq_artifact_id a b \<longleftrightarrow> artifact_key a \<le> artifact_key b"

definition less_artifact_id :: "artifact_id \<Rightarrow> artifact_id \<Rightarrow> bool" where
  "less_artifact_id a b \<longleftrightarrow> artifact_key a < artifact_key b"

instance
  by standard (auto simp: less_eq_artifact_id_def less_artifact_id_def artifact_key_inj [symmetric])

end

datatype recorded_origin =
  Submitted_Origin
| Ingested
| Derived
| Answered_Origin
| Input_Origin string
| Inherited_Origin run_id "node_id option"

datatype artifact_origin = Recorded_Origin recorded_origin | Legacy

section \<open>The events\<close>

text \<open>A report of a refused submission, as the codes of its diagnostics: the only thing a ledger
  reads of them.\<close>

type_synonym diagnostic_code = string

datatype submission_outcome =
  Submission_Accepted content_hash
| Submission_Refused "diagnostic_code list"

record artifact_written =
  aw_path :: path
  aw_content_hash :: content_hash
  aw_artifact_kind :: "artifact_kind option"

record artifact_submitted =
  as_name :: string
  as_artifact_kind :: artifact_kind
  as_outcome :: submission_outcome
  as_probes :: "json list"

record artifact_accepted =
  aa_artifact :: artifact_id
  aa_content_hash :: content_hash
  aa_origin :: artifact_origin

definition artifact_accepted_new ::
  "artifact_id \<Rightarrow> content_hash \<Rightarrow> recorded_origin \<Rightarrow> artifact_accepted" where
  "artifact_accepted_new a h came =
     \<lparr>aa_artifact = a, aa_content_hash = h, aa_origin = Recorded_Origin came\<rparr>"

datatype artifact_event =
  Artifact_Written artifact_written
| Artifact_Submitted artifact_submitted
| Artifact_Accepted artifact_accepted

section \<open>The name of an older log's artifact\<close>

text \<open>\<open>Path::components\<close> on a Unix path: the root, then every piece between separators, an empty one
  or a \<open>.\<close> dropped unless a \<open>.\<close> opens a relative path.\<close>

fun split_slash :: "string \<Rightarrow> string list" where
  "split_slash [] = [[]]"
| "split_slash (c # cs) =
     (if c = CHR ''/'' then [] # split_slash cs
      else (case split_slash cs of [] \<Rightarrow> [[c]] | w # ws \<Rightarrow> (c # w) # ws))"

definition path_components :: "path \<Rightarrow> string list" where
  "path_components p =
     (let pieces = split_slash p;
          body = filter (\<lambda>w. w \<noteq> [] \<and> w \<noteq> ''.'')
      in case pieces of
           [] \<Rightarrow> []
         | first # rest \<Rightarrow>
             if p = [] then []
             else if first = [] then ''/'' # body rest
             else if first = ''.'' then ''.'' # body rest
             else body pieces)"

fun join_slash :: "string list \<Rightarrow> string" where
  "join_slash [] = []"
| "join_slash [w] = w"
| "join_slash (w # ws) = w @ ''/'' @ join_slash ws"

definition artifact_name :: "path \<Rightarrow> string" where
  "artifact_name p =
     (case path_components p of
        first # rest \<Rightarrow> join_slash (if first = ''artifacts'' then rest else first # rest)
      | [] \<Rightarrow> join_slash [])"

definition legacy_identity :: "artifact_written \<Rightarrow> artifact_id" where
  "legacy_identity w = artifact_id_of (artifact_name (aw_path w)) (aw_artifact_kind w)"

section \<open>The ledger\<close>

type_synonym held_key = "node_id option \<times> artifact_id"

record artifact_ref =
  af_producer :: "node_id option"
  af_artifact :: artifact_id
  af_content_hash :: content_hash
  af_origin :: artifact_origin
  af_seq :: seq

record handed_over =
  ho_submissions :: nat
  ho_refusals :: nat
  ho_refused :: "(diagnostic_code \<times> nat) list"
  ho_counted_through :: "seq option"

definition handed_over_default :: handed_over where
  "handed_over_default =
     \<lparr>ho_submissions = 0, ho_refusals = 0, ho_refused = [], ho_counted_through = None\<rparr>"

fun count_code :: "diagnostic_code \<Rightarrow> (diagnostic_code \<times> nat) list \<Rightarrow> (diagnostic_code \<times> nat) list" where
  "count_code code [] = [(code, 1)]"
| "count_code code ((seen, n) # rest) =
     (if seen = code then (seen, n + 1) # rest else (seen, n) # count_code code rest)"

definition broken_rules :: "diagnostic_code list \<Rightarrow> diagnostic_code list" where
  "broken_rules codes =
     foldl (\<lambda>broken code. if \<not> List.member broken code then broken @ [code] else broken) [] codes"

definition submitted_once :: "handed_over \<Rightarrow> seq \<Rightarrow> submission_outcome \<Rightarrow> handed_over" where
  "submitted_once h at outcome =
     (if is_some_and (ho_counted_through h) (\<lambda>counted. at \<le> counted) then h
      else
        let h1 = h\<lparr>ho_counted_through := Some at, ho_submissions := ho_submissions h + 1\<rparr>
        in case outcome of
             Submission_Accepted _ \<Rightarrow> h1
           | Submission_Refused codes \<Rightarrow>
               h1\<lparr>ho_refusals := ho_refusals h1 + 1,
                  ho_refused := foldl (\<lambda>seen code. count_code code seen) (ho_refused h1) (broken_rules codes)\<rparr>)"

record artifact_ledger =
  current :: "(held_key, artifact_ref) omap"
  first_accepted :: "held_key list"
  handovers :: "(node_id \<times> artifact_kind, handed_over) omap"

definition artifacts_new :: artifact_ledger where
  "artifacts_new = \<lparr>current = [], first_accepted = [], handovers = []\<rparr>"

definition artifact_stated :: "artifact_event \<Rightarrow> (artifact_id \<times> content_hash \<times> artifact_origin) option" where
  "artifact_stated e =
     (case e of
        Artifact_Accepted p \<Rightarrow> Some (aa_artifact p, aa_content_hash p, aa_origin p)
      | Artifact_Written p \<Rightarrow> Some (legacy_identity p, aw_content_hash p, Legacy)
      | Artifact_Submitted _ \<Rightarrow> None)"

definition artifacts_apply ::
  "artifact_ledger \<Rightarrow> node_id option \<Rightarrow> seq \<Rightarrow> artifact_event \<Rightarrow> artifact_ledger" where
  "artifacts_apply L n at e =
     (case artifact_stated e of
        None \<Rightarrow>
          (case (e, n) of
             (Artifact_Submitted p, Some node) \<Rightarrow>
               L\<lparr>handovers := om_entry handed_over_default (node, as_artifact_kind p)
                                (\<lambda>h. submitted_once h at (as_outcome p)) (handovers L)\<rparr>
           | _ \<Rightarrow> L)
      | Some (a, h, came) \<Rightarrow>
          let held = (n, a) in
          L\<lparr>first_accepted :=
              (if om_get (current L) held = None then first_accepted L @ [held] else first_accepted L),
            current :=
              om_put held
                \<lparr>af_producer = n, af_artifact = a, af_content_hash = h, af_origin = came, af_seq = at\<rparr>
                (current L)\<rparr>)"

definition handed_over_of :: "artifact_ledger \<Rightarrow> node_id \<Rightarrow> artifact_kind \<Rightarrow> handed_over option" where
  "handed_over_of L n k = om_get (handovers L) (n, k)"

definition latest_artifact :: "artifact_ledger \<Rightarrow> artifact_id \<Rightarrow> node_id option \<Rightarrow> artifact_ref option" where
  "latest_artifact L a producer =
     (case producer of
        Some node \<Rightarrow> om_get (current L) (Some node, a)
      | None \<Rightarrow> max_by_key af_seq (filter (\<lambda>held. af_artifact held = a) (om_values (current L))))"

definition every_artifact :: "artifact_ledger \<Rightarrow> artifact_ref list" where
  "every_artifact L = List.map_filter (om_get (current L)) (first_accepted L)"

definition artifacts_of_kind :: "artifact_ledger \<Rightarrow> artifact_kind \<Rightarrow> artifact_ref list" where
  "artifacts_of_kind L k = filter (\<lambda>held. af_artifact held = Interpreted k) (every_artifact L)"

definition by_producer :: "artifact_ledger \<Rightarrow> node_id \<Rightarrow> artifact_ref list" where
  "by_producer L n = filter (\<lambda>held. af_producer held = Some n) (every_artifact L)"

record artifact_op =
  ao_node :: "node_id option"
  ao_seq :: seq
  ao_event :: artifact_event

definition artifacts_step :: "artifact_ledger \<Rightarrow> artifact_op \<Rightarrow> unit + artifact_ledger" where
  "artifacts_step L x = Inr (artifacts_apply L (ao_node x) (ao_seq x) (ao_event x))"

section \<open>What a log accepted\<close>

definition acceptance :: "artifact_op \<Rightarrow> artifact_ref option" where
  "acceptance x =
     map_option
       (\<lambda>(a, h, came).
         \<lparr>af_producer = ao_node x, af_artifact = a, af_content_hash = h, af_origin = came, af_seq = ao_seq x\<rparr>)
       (artifact_stated (ao_event x))"

definition held_of :: "artifact_ref \<Rightarrow> held_key" where
  "held_of r = (af_producer r, af_artifact r)"

definition accepts_held :: "held_key \<Rightarrow> artifact_op \<Rightarrow> artifact_ref option" where
  "accepts_held k x = filter_opt (\<lambda>r. held_of r = k) (acceptance x)"

definition accepts_id :: "artifact_id \<Rightarrow> artifact_op \<Rightarrow> artifact_ref option" where
  "accepts_id a x = filter_opt (\<lambda>r. af_artifact r = a) (acceptance x)"

lemma artifacts_step_Inr [simp]:
  "artifacts_step L x = Inr L' \<longleftrightarrow> L' = artifacts_apply L (ao_node x) (ao_seq x) (ao_event x)"
  by (auto simp: artifacts_step_def)

lemma artifacts_apply_current:
  "current (artifacts_apply L (ao_node x) (ao_seq x) (ao_event x)) =
     (case acceptance x of None \<Rightarrow> current L | Some r \<Rightarrow> om_put (held_of r) r (current L))"
  by (auto simp: artifacts_apply_def acceptance_def held_of_def Let_def split: option.split artifact_event.split)

lemma artifacts_apply_first:
  "first_accepted (artifacts_apply L (ao_node x) (ao_seq x) (ao_event x)) =
     (case acceptance x of
        None \<Rightarrow> first_accepted L
      | Some r \<Rightarrow> if om_get (current L) (held_of r) = None then first_accepted L @ [held_of r]
                  else first_accepted L)"
  by (auto simp: artifacts_apply_def acceptance_def held_of_def Let_def split: option.split artifact_event.split)

interpretation held: last_write artifacts_step "\<lambda>L. om_get (current L) k"
  "\<lambda>x. map_option Some (accepts_held k x)" for k
  by unfold_locales (auto simp: artifacts_apply_current accepts_held_def split: option.split)

definition artifacts_inv :: "artifact_ledger \<Rightarrow> bool" where
  "artifacts_inv L \<longleftrightarrow>
     om_ok (current L) \<and> distinct (first_accepted L) \<and>
     set (first_accepted L) = {k. om_get (current L) k \<noteq> None} \<and>
     (\<forall>k r. om_get (current L) k = Some r \<longrightarrow> held_of r = k)"

interpretation artifacts: event_fold artifacts_new artifacts_step artifacts_inv
proof
  show "artifacts_inv artifacts_new" by (simp add: artifacts_inv_def artifacts_new_def)
  show "artifacts_inv s \<Longrightarrow> artifacts_step s x = Inr s' \<Longrightarrow> artifacts_inv s'" for s x s'
    by (cases "acceptance x")
      (auto simp: artifacts_inv_def artifacts_apply_current artifacts_apply_first om_ok_put
        simp del: split_paired_All split_paired_Ex)
qed

definition artifacts_of :: "artifact_op list \<Rightarrow> artifact_ledger" where
  "artifacts_of ops = fst (fold_until artifacts_step artifacts_new ops)"

lemma fold_artifacts:
  "fold_until artifacts_step L ops =
     (foldl (\<lambda>L x. artifacts_apply L (ao_node x) (ao_seq x) (ao_event x)) L ops, None)"
  unfolding artifacts_step_def by (rule fold_until_total)

lemma artifacts_of_Nil [simp]: "artifacts_of [] = artifacts_new"
  by (simp add: artifacts_of_def)

lemma artifacts_of_snoc [simp]:
  "artifacts_of (ops @ [x]) = artifacts_apply (artifacts_of ops) (ao_node x) (ao_seq x) (ao_event x)"
  by (simp add: artifacts_of_def fold_artifacts)

lemma artifacts_inv_of: "artifacts_inv (artifacts_of ops)"
  unfolding artifacts_of_def by (rule artifacts.inv_fold)

lemma last_opt_map_Some: "last_opt (map Some xs) = map_option Some (last_opt xs)"
  by (simp add: last_opt_def last_map)

lemma current_of: "om_get (current (artifacts_of ops)) k = last_opt (List.map_filter (accepts_held k) ops)"
proof -
  have "List.map_filter (\<lambda>x. map_option Some (accepts_held k x)) ops =
      map Some (List.map_filter (accepts_held k) ops)"
    by (induction ops) (auto simp: List.map_filter_simps split: option.split)
  moreover have "fold_until artifacts_step artifacts_new ops = (artifacts_of ops, None)"
    by (simp add: artifacts_of_def fold_artifacts)
  ultimately show ?thesis
    using held.view_fold [of artifacts_new ops "artifacts_of ops" k]
    by (cases "last_opt (List.map_filter (accepts_held k) ops)")
      (simp_all add: last_opt_map_Some artifacts_new_def)
qed

lemma first_accepted_of:
  "first_accepted (artifacts_of ops) = first_order (map held_of (List.map_filter acceptance ops))"
proof (induction ops rule: rev_induct)
  case Nil
  then show ?case by (simp add: artifacts_new_def List.map_filter_simps)
next
  case (snoc x ops)
  have "om_get (current (artifacts_of ops)) k = None \<longleftrightarrow>
      k \<notin> held_of ` set (List.map_filter acceptance ops)" for k
    using artifacts_inv_of [of ops] snoc by (auto simp: artifacts_inv_def)
  with snoc show ?case
    by (cases "acceptance x") (simp_all add: artifacts_apply_first map_filter_snoc first_order_snoc)
qed

section \<open>The latest acceptance answers for the run\<close>

definition artifact_seqs_ascend :: "artifact_op list \<Rightarrow> bool" where
  "artifact_seqs_ascend ops \<longleftrightarrow> sorted_wrt (<) (map ao_seq ops)"

lemma accepts_id_seq: "accepts_id a x = Some r \<Longrightarrow> af_seq r = ao_seq x \<and> af_artifact r = a"
  by (auto simp: accepts_id_def acceptance_def filter_opt_Some_iff)

lemma accepted_ascending:
  "artifact_seqs_ascend ops \<Longrightarrow> sorted_wrt (\<lambda>r s. af_seq r < af_seq s) (List.map_filter (accepts_id a) ops)"
proof (induction ops)
  case Nil
  then show ?case by (simp add: List.map_filter_simps)
next
  case (Cons x ops)
  then show ?case
    by (auto simp: artifact_seqs_ascend_def List.map_filter_simps set_map_filter
        dest!: accepts_id_seq split: option.split)
qed

lemma last_opt_narrower:
  assumes "last_opt (List.map_filter f xs) = Some r"
    and "\<And>x y. g x = Some y \<Longrightarrow> f x = Some y" and "\<And>x. f x = Some r \<Longrightarrow> g x = Some r"
  shows "last_opt (List.map_filter g xs) = Some r"
  using assms(1)
proof (induction xs rule: rev_induct)
  case Nil
  then show ?case by (simp add: List.map_filter_simps)
next
  case (snoc x xs)
  show ?case
  proof (cases "f x")
    case None
    then have "g x = None" using assms(2) by (cases "g x") auto
    with None snoc show ?thesis by (simp add: map_filter_snoc)
  next
    case (Some y)
    with snoc.prems have "y = r" by (simp add: map_filter_snoc)
    with Some assms(3) have "g x = Some r" by simp
    then show ?thesis by (simp add: map_filter_snoc)
  qed
qed

lemma latest_of:
  assumes asc: "artifact_seqs_ascend ops"
  shows "latest_artifact (artifacts_of ops) a None = last_opt (List.map_filter (accepts_id a) ops)"
proof -
  let ?L = "artifacts_of ops" and ?acc = "List.map_filter (accepts_id a) ops"
  let ?vs = "filter (\<lambda>held. af_artifact held = a) (om_values (current ?L))"
  have inv: "om_ok (current ?L)" "\<And>k r. om_get (current ?L) k = Some r \<Longrightarrow> held_of r = k"
    using artifacts_inv_of [of ops] unfolding artifacts_inv_def by blast+
  have narrower: "accepts_held k x = Some y \<Longrightarrow> snd k = a \<Longrightarrow> accepts_id a x = Some y" for k x y
    by (auto simp: accepts_held_def accepts_id_def filter_opt_Some_iff held_of_def)
  have vs: "set ?vs \<subseteq> set ?acc"
  proof
    fix r assume "r \<in> set ?vs"
    then obtain k where k: "om_get (current ?L) k = Some r" and a: "af_artifact r = a"
      using om_values_mem [OF inv(1)] by auto
    then have "r \<in> set (List.map_filter (accepts_held k) ops)"
      by (auto simp: current_of dest: last_opt_Some_in)
    moreover have "snd k = a" using inv(2) [OF k] a by (auto simp: held_of_def)
    ultimately show "r \<in> set ?acc" using narrower by (fastforce simp: set_map_filter)
  qed
  show ?thesis
  proof (cases "last_opt ?acc")
    case None
    then have "?acc = []" by (simp add: last_opt_def split: if_splits)
    with vs have "?vs = []" by simp
    with None show ?thesis by (simp add: latest_artifact_def)
  next
    case (Some r)
    then have a: "af_artifact r = a"
      by (auto dest!: last_opt_Some_in simp: set_map_filter dest: accepts_id_seq)
    have "last_opt (List.map_filter (accepts_held (held_of r)) ops) = Some r"
      using Some
    proof (rule last_opt_narrower)
      show "accepts_held (held_of r) x = Some y \<Longrightarrow> accepts_id a x = Some y" for x y
        using narrower [of "held_of r" x y] a by (simp add: held_of_def)
      show "accepts_id a x = Some r \<Longrightarrow> accepts_held (held_of r) x = Some r" for x
        by (simp add: accepts_id_def accepts_held_def filter_opt_Some_iff)
    qed
    then have "om_get (current ?L) (held_of r) = Some r" by (simp only: current_of)
    then have "r \<in> set (om_values (current ?L))"
      using om_values_mem [OF inv(1)] by blast
    then have "r \<in> set ?vs" using a by simp
    moreover have "max_by_key af_seq ?vs \<noteq> None"
      unfolding max_by_key_None using \<open>r \<in> set ?vs\<close> by (metis empty_iff empty_set)
    then obtain q where q: "max_by_key af_seq ?vs = Some q" by blast
    ultimately have "q \<in> set ?acc" "af_seq r \<le> af_seq q"
      using max_by_key_SomeD [OF q] vs by blast+
    moreover have "q = r \<or> af_seq q < af_seq r" if "q \<in> set ?acc"
      using accepted_ascending [OF asc, of a] Some that
      by (cases ?acc rule: rev_cases) (auto simp: sorted_wrt_append)
    ultimately show ?thesis using Some q by (auto simp: latest_artifact_def)
  qed
qed

section \<open>How a document was handed over\<close>

definition times_broken :: "handed_over \<Rightarrow> diagnostic_code \<Rightarrow> nat" where
  "times_broken h c = unwrap_or (map_of (ho_refused h) c) 0"

definition submission :: "node_id \<Rightarrow> artifact_kind \<Rightarrow> artifact_op \<Rightarrow> (seq \<times> submission_outcome) option" where
  "submission n k x =
     (case ao_event x of
        Artifact_Submitted p \<Rightarrow>
          if ao_node x = Some n \<and> as_artifact_kind p = k then Some (ao_seq x, as_outcome p) else None
      | _ \<Rightarrow> None)"

definition handed_after :: "(seq \<times> submission_outcome) list \<Rightarrow> handed_over" where
  "handed_after subs = foldl (\<lambda>h (at, out). submitted_once h at out) handed_over_default subs"

lemma handed_over_of_log:
  "unwrap_or (handed_over_of (artifacts_of ops) n k) handed_over_default =
     handed_after (List.map_filter (submission n k) ops)"
proof (induction ops rule: rev_induct)
  case Nil
  then show ?case
    by (simp add: handed_over_of_def artifacts_new_def handed_after_def List.map_filter_simps)
next
  case (snoc x ops)
  then show ?case
    by (cases "ao_event x"; cases "ao_node x")
      (auto simp: handed_over_of_def artifacts_apply_def artifact_stated_def submission_def map_filter_snoc
        handed_after_def Let_def)
qed

lemma broken_rules_snoc:
  "broken_rules (cs @ [c]) = (if c \<in> set (broken_rules cs) then broken_rules cs else broken_rules cs @ [c])"
  by (simp add: broken_rules_def)

lemma broken_rules_set: "set (broken_rules cs) = set cs \<and> distinct (broken_rules cs)"
proof (induction cs rule: rev_induct)
  case Nil
  then show ?case by (simp add: broken_rules_def)
next
  case (snoc c cs)
  then show ?case by (auto simp: broken_rules_snoc)
qed

lemma count_code_get:
  "unwrap_or (map_of (count_code c seen) d) 0 = unwrap_or (map_of seen d) 0 + (if d = c then 1 else 0)"
  by (induction c seen rule: count_code.induct) auto

lemma count_codes_get:
  "distinct cs \<Longrightarrow> unwrap_or (map_of (foldl (\<lambda>seen c. count_code c seen) seen cs) d) 0 =
     unwrap_or (map_of seen d) 0 + (if d \<in> set cs then 1 else 0)"
  by (induction cs arbitrary: seen) (auto simp: count_code_get)

definition breaks :: "diagnostic_code \<Rightarrow> seq \<times> submission_outcome \<Rightarrow> bool" where
  "breaks c s = (case snd s of Submission_Refused codes \<Rightarrow> c \<in> set codes | Submission_Accepted _ \<Rightarrow> False)"

definition refused_submission :: "seq \<times> submission_outcome \<Rightarrow> bool" where
  "refused_submission s = (case snd s of Submission_Refused _ \<Rightarrow> True | Submission_Accepted _ \<Rightarrow> False)"

lemma submitted_once_again:
  "ho_counted_through h = Some at' \<Longrightarrow> at \<le> at' \<Longrightarrow> submitted_once h at out = h"
  by (simp add: submitted_once_def)

lemma submitted_once_new:
  assumes "is_none_or (ho_counted_through h) (\<lambda>counted. counted < at)"
  shows "ho_counted_through (submitted_once h at out) = Some at"
    and "ho_submissions (submitted_once h at out) = ho_submissions h + 1"
    and "ho_refusals (submitted_once h at out) =
      ho_refusals h + (if refused_submission (at, out) then 1 else 0)"
    and "times_broken (submitted_once h at out) c =
      times_broken h c + (if breaks c (at, out) then 1 else 0)"
  using assms broken_rules_set
  by (cases out; cases "ho_counted_through h";
      simp add: submitted_once_def Let_def refused_submission_def times_broken_def breaks_def count_codes_get)+

lemma card_filter_insert:
  "finite A \<Longrightarrow> x \<notin> A \<Longrightarrow> card {y \<in> insert x A. P y} = card {y \<in> A. P y} + (if P x then 1 else 0)"
proof -
  assume "finite A" "x \<notin> A"
  moreover have "{y \<in> insert x A. P y} = (if P x then insert x {y \<in> A. P y} else {y \<in> A. P y})" by auto
  ultimately show ?thesis by simp
qed

text \<open>A submission handed over again is a copy of it: the same position, the same outcome.\<close>

definition copies_agree :: "(seq \<times> submission_outcome) list \<Rightarrow> bool" where
  "copies_agree subs \<longleftrightarrow> (\<forall>s \<in> set subs. \<forall>t \<in> set subs. fst s = fst t \<longrightarrow> s = t)"

lemma handed_after_counts:
  "sorted (map fst subs) \<Longrightarrow> copies_agree subs \<Longrightarrow>
     ho_counted_through (handed_after subs) = map_option fst (last_opt subs) \<and>
     ho_submissions (handed_after subs) = card (set subs) \<and>
     ho_refusals (handed_after subs) = card {s \<in> set subs. refused_submission s} \<and>
     times_broken (handed_after subs) c = card {s \<in> set subs. breaks c s}"
proof (induction subs rule: rev_induct)
  case Nil
  then show ?case by (simp add: handed_after_def handed_over_default_def times_broken_def)
next
  case (snoc s subs)
  obtain at out where s: "s = (at, out)" by (cases s)
  have IH: "ho_counted_through (handed_after subs) = map_option fst (last_opt subs)"
    "ho_submissions (handed_after subs) = card (set subs)"
    "ho_refusals (handed_after subs) = card {s \<in> set subs. refused_submission s}"
    "times_broken (handed_after subs) c = card {s \<in> set subs. breaks c s}"
    using snoc by (simp_all add: copies_agree_def sorted_append)
  have after: "handed_after (subs @ [s]) = submitted_once (handed_after subs) at out"
    by (simp add: handed_after_def s)
  have below: "\<forall>t \<in> set subs. fst t \<le> at" using snoc.prems(1) by (simp add: s sorted_append)
  show ?case
  proof (cases "s \<in> set subs")
    case True
    then have ne: "subs \<noteq> []" by auto
    have "fst (last subs) = at"
    proof -
      from True obtain ys zs where split: "subs = ys @ s # zs" by (meson split_list)
      then have "at \<le> fst (last subs)"
        using snoc.prems(1) by (cases zs rule: rev_cases) (auto simp: s sorted_append)
      with below ne show ?thesis by (simp add: order_antisym)
    qed
    then have "handed_after (subs @ [s]) = handed_after subs"
      unfolding after using IH(1) ne by (simp add: submitted_once_again last_opt_def)
    with True IH ne \<open>fst (last subs) = at\<close> show ?thesis
      by (simp add: insert_absorb last_opt_def s)
  next
    case False
    have "fst t \<noteq> at" if "t \<in> set subs" for t
      using snoc.prems(2) that False by (auto simp: copies_agree_def s)
    with below have "\<forall>t \<in> set subs. fst t < at" by (simp add: order_less_le)
    then have "is_none_or (ho_counted_through (handed_after subs)) (\<lambda>counted. counted < at)"
      using IH(1) by (cases "last_opt subs") (auto dest: last_opt_Some_in)
    note new = submitted_once_new [OF this, of out]
    have card: "card {t \<in> set (subs @ [s]). P t} = card {t \<in> set subs. P t} + (if P s then 1 else 0)" for P
      using card_filter_insert [OF finite_set False, of P] by simp
    have "last_opt (subs @ [s]) = Some s" "card (set (subs @ [s])) = card (set subs) + 1"
      using False by simp_all
    then show ?thesis
      unfolding after card using IH(2-4) by (simp only: new) (simp add: s)
  qed
qed

section \<open>The properties\<close>

text \<open>What a run holds is what its log accepted last: after any log the artifact a node holds under
  an identity is the last acceptance of it, and every artifact is listed once, where its identity was
  first accepted, whatever re-accepted it since.\<close>

lemma artifacts_are_last_accepted:
  "om_get (current (artifacts_of ops)) (n, a) = last_opt (List.map_filter (accepts_held (n, a)) ops) \<and>
   map held_of (every_artifact (artifacts_of ops)) =
     first_order (map held_of (List.map_filter acceptance ops))"
proof -
  have "map held_of (List.map_filter (om_get (current L)) ks) = ks"
    if "\<forall>k \<in> set ks. \<exists>r. om_get (current L) k = Some r \<and> held_of r = k" for L ks
    using that by (induction ks) (auto simp: List.map_filter_simps)
  moreover have "\<forall>k \<in> set (first_accepted (artifacts_of ops)).
      \<exists>r. om_get (current (artifacts_of ops)) k = Some r \<and> held_of r = k"
    using artifacts_inv_of [of ops] unfolding artifacts_inv_def by blast
  ultimately have "map held_of (every_artifact (artifacts_of ops)) = first_accepted (artifacts_of ops)"
    unfolding every_artifact_def by blast
  then show ?thesis by (simp add: current_of first_accepted_of)
qed

text \<open>A question about the run is answered by its latest acceptance: on a log whose seqs ascend,
  whichever node accepted it, the artifact answering an identity is the last one the log accepted; and
  a question about a node is answered by that node's last acceptance alone.\<close>

lemma latest_artifact_is_last_accepted:
  assumes "artifact_seqs_ascend ops"
  shows "latest_artifact (artifacts_of ops) a None = last_opt (List.map_filter (accepts_id a) ops) \<and>
    latest_artifact (artifacts_of ops) a (Some n) =
      last_opt (List.map_filter (accepts_held (Some n, a)) ops)"
  using latest_of [OF assms, of a] by (simp add: latest_artifact_def current_of)

definition sample_artifact_ops :: "artifact_op list" where
  "sample_artifact_ops =
     [\<lparr>ao_node = Some ''z'', ao_seq = 3,
       ao_event = Artifact_Accepted (artifact_accepted_new (Interpreted Tasks_Kind) ''h1'' Ingested)\<rparr>,
      \<lparr>ao_node = Some ''a'', ao_seq = 5,
       ao_event = Artifact_Written \<lparr>aw_path = ''artifacts/plan.yaml'', aw_content_hash = ''h2'',
         aw_artifact_kind = Some Tasks_Kind\<rparr>\<rparr>,
      \<lparr>ao_node = Some ''a'', ao_seq = 6,
       ao_event = Artifact_Submitted \<lparr>as_name = ''t'', as_artifact_kind = Tasks_Kind,
         as_outcome = Submission_Refused [''e1'', ''e1'', ''e2''], as_probes = []\<rparr>\<rparr>,
      \<lparr>ao_node = Some ''a'', ao_seq = 6,
       ao_event = Artifact_Submitted \<lparr>as_name = ''t'', as_artifact_kind = Tasks_Kind,
         as_outcome = Submission_Refused [''e1'', ''e1'', ''e2''], as_probes = []\<rparr>\<rparr>]"

text \<open>A handover counts once: on a log in which positions do not go back and a copy of a submission
  is the submission again, a node's submissions of a document are counted as many times as there are
  distinct ones, its refusals as the refused ones among them, and each rule as the refusals that broke
  it - once per refusal, however often the report names it.\<close>

lemma handover_counts_once:
  assumes "sorted (map fst (List.map_filter (submission n k) ops))"
    and "copies_agree (List.map_filter (submission n k) ops)"
  defines "h \<equiv> unwrap_or (handed_over_of (artifacts_of ops) n k) handed_over_default"
    and "subs \<equiv> set (List.map_filter (submission n k) ops)"
  shows "ho_submissions h = card subs \<and>
    ho_refusals h = card {s \<in> subs. refused_submission s} \<and>
    unwrap_or (map_of (ho_refused h) c) 0 = card {s \<in> subs. breaks c s}"
  using handed_after_counts [OF assms(1,2), of c]
  by (simp add: h_def subs_def handed_over_of_log times_broken_def)

end
