(* ===== verification/Finding_Ledger.thy ===== *)
theory Finding_Ledger
  imports Node_Events
begin

text \<open>
  What the sessions of a run found (\<open>events/findings/\<close>): a finding and its form on the log
  (\<open>payloads.rs\<close>), and the one fold from finding events to the set a run holds (\<open>ledger.rs\<close>,
  \<open>standing.rs\<close>). The lemmas show that what stands is what the log posted, last updated and never
  withdrew, that an answer or a settlement lasts while what it was about does, and that nothing but a
  passing criterion or a person at a gate settles a finding.
\<close>

section \<open>A finding and its form on the log\<close>

datatype finding_severity = Blocking | Major | Minor | Note

datatype finding_says = Written string string | Found json

record finding =
  fi_id :: string
  fi_severity :: finding_severity
  fi_says :: finding_says
  fi_location :: string
  fi_proposed :: "string option"

record finding_wire =
  fw_id :: string
  fw_severity :: finding_severity
  fw_title :: "string option"
  fw_location :: string
  fw_detail :: "string option"
  fw_cause :: "json option"
  fw_proposed :: "string option"

definition finding_to_wire :: "finding \<Rightarrow> finding_wire" where
  "finding_to_wire f =
     (let (title, detail, cause) =
        (case fi_says f of
           Written t d \<Rightarrow> (Some t, Some d, None)
         | Found c \<Rightarrow> (None, None, Some c))
      in \<lparr>fw_id = fi_id f, fw_severity = fi_severity f, fw_title = title,
          fw_location = fi_location f, fw_detail = detail, fw_cause = cause,
          fw_proposed = fi_proposed f\<rparr>)"

datatype unsaid_finding = UnsaidFinding

definition finding_from_wire :: "finding_wire \<Rightarrow> unsaid_finding + finding" where
  "finding_from_wire w =
     (let mk = (\<lambda>says. \<lparr>fi_id = fw_id w, fi_severity = fw_severity w, fi_says = says,
                       fi_location = fw_location w, fi_proposed = fw_proposed w\<rparr>)
      in case (fw_title w, fw_detail w, fw_cause w) of
           (Some title, Some detail, None) \<Rightarrow> Inr (mk (Written title detail))
         | (None, None, Some cause) \<Rightarrow> Inr (mk (Found cause))
         | _ \<Rightarrow> Inl UnsaidFinding)"

section \<open>The events\<close>

record finding_withdrawn =
  fwd_id :: string
  fwd_reason :: string

datatype finding_answer = Fixed | Declined

record finding_answered =
  fa_node :: node_id
  fa_id :: string
  fa_answer :: finding_answer
  fa_why :: string

record finding_proved =
  fp_node :: node_id
  fp_id :: string
  fp_result :: criterion_result

record finding_settled =
  fs_node :: "node_id option"
  fs_id :: string
  fs_caused_by :: seq

datatype finding_operation = Post | Update | Withdraw

record finding_refused =
  fr_operation :: finding_operation
  fr_id :: "string option"
  fr_report :: json

datatype finding_event =
  Finding_Posted finding
| Finding_Updated finding
| Finding_Withdrawn finding_withdrawn
| Finding_Refused finding_refused
| Finding_Answered finding_answered
| Finding_Proved finding_proved
| Finding_Settled finding_settled

section \<open>The ledger\<close>

record posted_finding =
  pf_node :: "node_id option"
  pf_finding :: finding

record answer_given =
  ag_by :: "node_id option"
  ag_answer :: finding_answer
  ag_why :: string

record proof_given =
  pg_by :: "node_id option"
  pg_cmd :: string
  pg_exit_code :: int

datatype settled_by = Settled_Proof string | Settled_Person node_id

datatype slot = Live finding | Withdrawn string

type_synonym finding_key = "node_id option \<times> string"

record finding_ledger =
  slots :: "(finding_key, slot) omap"
  first_post :: "finding_key list"
  answers_to :: "(finding_key, answer_given list) omap"
  proofs_of :: "(finding_key, proof_given) omap"
  settled_of :: "(finding_key, settled_by) omap"

definition findings_new :: finding_ledger where
  "findings_new =
     \<lparr>slots = [], first_post = [], answers_to = [], proofs_of = [], settled_of = []\<rparr>"

definition is_live :: "slot option \<Rightarrow> bool" where
  "is_live s = (case s of Some (Live _) \<Rightarrow> True | _ \<Rightarrow> False)"

definition forget :: "finding_key \<Rightarrow> finding_ledger \<Rightarrow> finding_ledger" where
  "forget k L =
     L\<lparr>answers_to := om_del k (answers_to L), proofs_of := om_del k (proofs_of L),
       settled_of := om_del k (settled_of L)\<rparr>"

text \<open>\<open>entry(key).or_insert(v)\<close>: only an entry not there yet is written.\<close>

definition om_or_insert :: "'k::linorder \<Rightarrow> 'v \<Rightarrow> ('k, 'v) omap \<Rightarrow> ('k, 'v) omap" where
  "om_or_insert k v m = (case om_get m k of None \<Rightarrow> om_put k v m | Some _ \<Rightarrow> m)"

definition findings_proved :: "finding_ledger \<Rightarrow> node_id option \<Rightarrow> finding_proved \<Rightarrow> finding_ledger" where
  "findings_proved L who p =
     (let key = (Some (fp_node p), fp_id p) in
      if \<not> is_live (om_get (slots L) key) then L
      else
        let cmd = cr_cmd (fp_result p);
            L1 = (if cr_exit_code (fp_result p) = 0
                  then L\<lparr>settled_of := om_or_insert key (Settled_Proof cmd) (settled_of L)\<rparr>
                  else L)
        in L1\<lparr>proofs_of :=
               om_put key \<lparr>pg_by = who, pg_cmd = cmd, pg_exit_code = cr_exit_code (fp_result p)\<rparr>
                 (proofs_of L1)\<rparr>)"

text \<open>\<open>answers.iter_mut().find(..)\<close>: the earlier answer of the same node is replaced in place.\<close>

fun replace_answer :: "answer_given \<Rightarrow> answer_given list \<Rightarrow> answer_given list" where
  "replace_answer given [] = [given]"
| "replace_answer given (earlier # rest) =
     (if ag_by earlier = ag_by given then given # rest else earlier # replace_answer given rest)"

definition findings_answered ::
  "finding_ledger \<Rightarrow> node_id option \<Rightarrow> finding_answered \<Rightarrow> finding_ledger" where
  "findings_answered L who p =
     (let key = (Some (fa_node p), fa_id p) in
      if \<not> is_live (om_get (slots L) key) then L
      else
        let given = \<lparr>ag_by = who, ag_answer = fa_answer p, ag_why = fa_why p\<rparr>
        in L\<lparr>answers_to := om_entry [] key (replace_answer given) (answers_to L)\<rparr>)"

fun findings_apply :: "finding_ledger \<Rightarrow> node_id option \<Rightarrow> finding_event \<Rightarrow> finding_ledger" where
  "findings_apply L n (Finding_Posted f) =
     (let key = (n, fi_id f) in
      case om_get (slots L) key of
        Some _ \<Rightarrow> L
      | None \<Rightarrow> L\<lparr>first_post := first_post L @ [key], slots := om_put key (Live f) (slots L)\<rparr>)"
| "findings_apply L n (Finding_Updated f) =
     (let key = (n, fi_id f) in
      if is_live (om_get (slots L) key)
      then let L1 = forget key L in L1\<lparr>slots := om_put key (Live f) (slots L1)\<rparr>
      else L)"
| "findings_apply L n (Finding_Withdrawn p) =
     (let key = (n, fwd_id p) in
      if is_live (om_get (slots L) key)
      then let L1 = forget key L in L1\<lparr>slots := om_put key (Withdrawn (fwd_reason p)) (slots L1)\<rparr>
      else L)"
| "findings_apply L n (Finding_Refused _) = L"
| "findings_apply L n (Finding_Answered p) = findings_answered L n p"
| "findings_apply L n (Finding_Proved p) = findings_proved L n p"
| "findings_apply L n (Finding_Settled p) =
     (let key = (fs_node p, fs_id p) in
      case (n, om_get (slots L) key) of
        (Some gate, Some (Live _)) \<Rightarrow>
          L\<lparr>settled_of := om_or_insert key (Settled_Person gate) (settled_of L)\<rparr>
      | _ \<Rightarrow> L)"

definition finding_settled_by :: "finding_ledger \<Rightarrow> node_id option \<Rightarrow> string \<Rightarrow> settled_by option" where
  "finding_settled_by L n i = om_get (settled_of L) (n, i)"

definition answers_given :: "finding_ledger \<Rightarrow> node_id option \<Rightarrow> string \<Rightarrow> answer_given list" where
  "answers_given L n i = unwrap_or (om_get (answers_to L) (n, i)) []"

definition finding_status :: "finding_ledger \<Rightarrow> node_id \<Rightarrow> string \<Rightarrow> slot option" where
  "finding_status L n i = om_get (slots L) (Some n, i)"

definition posted_live :: "finding_ledger \<Rightarrow> finding_key \<Rightarrow> posted_finding option" where
  "posted_live L key =
     (case om_get (slots L) key of
        Some (Live f) \<Rightarrow> Some \<lparr>pf_node = fst key, pf_finding = f\<rparr>
      | _ \<Rightarrow> None)"

definition effective :: "finding_ledger \<Rightarrow> posted_finding list" where
  "effective L = List.map_filter (posted_live L) (first_post L)"

definition unsettled :: "finding_ledger \<Rightarrow> posted_finding list" where
  "unsettled L =
     filter (\<lambda>p. finding_settled_by L (pf_node p) (fi_id (pf_finding p)) = None) (effective L)"

definition effective_of :: "finding_ledger \<Rightarrow> node_id \<Rightarrow> finding list" where
  "effective_of L n =
     List.map_filter (\<lambda>key. case om_get (slots L) key of Some (Live f) \<Rightarrow> Some f | _ \<Rightarrow> None)
       (filter (\<lambda>(posted_by, _). posted_by = Some n) (first_post L))"

record standing_finding =
  sf_node :: "node_id option"
  sf_finding :: finding
  sf_answers :: "answer_given list"
  sf_proof :: "proof_given option"
  sf_settled :: "settled_by option"

definition standing_findings :: "finding_ledger \<Rightarrow> standing_finding list" where
  "standing_findings L =
     map (\<lambda>posted.
       let key = (pf_node posted, fi_id (pf_finding posted)) in
       \<lparr>sf_node = pf_node posted, sf_finding = pf_finding posted,
        sf_answers = unwrap_or (om_get (answers_to L) key) [],
        sf_proof = om_get (proofs_of L) key, sf_settled = om_get (settled_of L) key\<rparr>)
     (effective L)"

type_synonym finding_op = "node_id option \<times> finding_event"

definition findings_step :: "finding_ledger \<Rightarrow> finding_op \<Rightarrow> unit + finding_ledger" where
  "findings_step L x = Inr (findings_apply L (fst x) (snd x))"

section \<open>What keeps hold of a ledger\<close>

definition findings_inv :: "finding_ledger \<Rightarrow> bool" where
  "findings_inv L \<longleftrightarrow>
     om_ok (slots L) \<and> distinct (first_post L) \<and>
     (\<forall>k. k \<in> set (first_post L) \<longleftrightarrow> om_get (slots L) k \<noteq> None) \<and>
     (\<forall>k f. om_get (slots L) k = Some (Live f) \<longrightarrow> fi_id f = snd k) \<and>
     (\<forall>k. om_get (answers_to L) k \<noteq> None \<longrightarrow> is_live (om_get (slots L) k)) \<and>
     (\<forall>k. om_get (proofs_of L) k \<noteq> None \<longrightarrow> is_live (om_get (slots L) k)) \<and>
     (\<forall>k. om_get (settled_of L) k \<noteq> None \<longrightarrow> is_live (om_get (slots L) k)) \<and>
     (\<forall>k as. om_get (answers_to L) k = Some as \<longrightarrow> distinct (map ag_by as))"

lemma is_live_simps [simp]:
  "\<not> is_live None" "is_live (Some (Live f))" "\<not> is_live (Some (Withdrawn r))"
  by (simp_all add: is_live_def)

lemma is_live_iff: "is_live s \<longleftrightarrow> (\<exists>f. s = Some (Live f))"
  by (auto simp: is_live_def split: option.splits slot.splits)

lemma om_get_or_insert [simp]:
  "om_get (om_or_insert k v m) k' = (if k' = k then Some (unwrap_or (om_get m k) v) else om_get m k')"
  by (simp add: om_or_insert_def split: option.split)

lemma replace_answer_by [simp]:
  "ag_by ` set (replace_answer g xs) = insert (ag_by g) (ag_by ` set xs)"
  by (induction g xs rule: replace_answer.induct) auto

lemma distinct_replace_answer:
  "distinct (map ag_by xs) \<Longrightarrow> distinct (map ag_by (replace_answer g xs))"
proof (induction g xs rule: replace_answer.induct)
  case (2 given earlier rest)
  have "ag_by earlier \<in> ag_by ` set (replace_answer given rest) \<longleftrightarrow>
      ag_by earlier = ag_by given \<or> ag_by earlier \<in> ag_by ` set rest" by simp
  with 2 show ?case by (auto simp del: replace_answer_by)
qed simp

lemma replace_answer_find:
  "List.find (\<lambda>a. ag_by a = who) (replace_answer g xs) =
     (if who = ag_by g then Some g else List.find (\<lambda>a. ag_by a = who) xs)"
  by (induction g xs rule: replace_answer.induct) auto

lemma findings_proved_frame [frame_simps]:
  "slots (findings_proved L n p) = slots L"
  "first_post (findings_proved L n p) = first_post L"
  "answers_to (findings_proved L n p) = answers_to L"
  by (simp_all add: findings_proved_def Let_def)

lemma findings_answered_frame [frame_simps]:
  "slots (findings_answered L n p) = slots L"
  "first_post (findings_answered L n p) = first_post L"
  "proofs_of (findings_answered L n p) = proofs_of L"
  "settled_of (findings_answered L n p) = settled_of L"
  by (simp_all add: findings_answered_def Let_def)

lemma forget_get [simp]:
  "om_get (answers_to (forget k L)) k' = (if k' = k then None else om_get (answers_to L) k')"
  "om_get (proofs_of (forget k L)) k' = (if k' = k then None else om_get (proofs_of L) k')"
  "om_get (settled_of (forget k L)) k' = (if k' = k then None else om_get (settled_of L) k')"
  "slots (forget k L) = slots L" "first_post (forget k L) = first_post L"
  by (simp_all add: forget_def)

lemma findings_inv_proved: "findings_inv L \<Longrightarrow> findings_inv (findings_proved L n p)"
proof -
  assume inv: "findings_inv L"
  let ?key = "(Some (fp_node p), fp_id p)"
  have "om_get (proofs_of (findings_proved L n p)) k \<noteq> None \<Longrightarrow> is_live (om_get (slots L) k)"
    and "om_get (settled_of (findings_proved L n p)) k \<noteq> None \<Longrightarrow> is_live (om_get (slots L) k)" for k
    using inv unfolding findings_inv_def findings_proved_def Let_def
    by (auto split: if_splits simp del: split_paired_All split_paired_Ex)
  with inv show ?thesis by (simp add: findings_inv_def frame_simps)
qed

lemma findings_inv_answered: "findings_inv L \<Longrightarrow> findings_inv (findings_answered L n p)"
proof -
  assume inv: "findings_inv L"
  have "distinct (map ag_by (unwrap_or (om_get (answers_to L) k) []))" for k
    using inv unfolding findings_inv_def by (cases "om_get (answers_to L) k") (simp, metis unwrap_or_simps(2))
  then have "distinct (map ag_by (replace_answer g (unwrap_or (om_get (answers_to L) k) [])))" for g k
    by (rule distinct_replace_answer)
  with inv show ?thesis
    by (auto simp: findings_inv_def findings_answered_def Let_def simp del: split_paired_All split_paired_Ex)
qed

lemma findings_inv_step: "findings_inv L \<Longrightarrow> findings_inv (findings_apply L n e)"
proof (cases e)
  case (Finding_Posted f)
  assume inv: "findings_inv L"
  then have "om_get (slots L) k = None \<Longrightarrow> om_get (answers_to L) k = None \<and>
      om_get (proofs_of L) k = None \<and> om_get (settled_of L) k = None" for k
    unfolding findings_inv_def by (metis is_live_simps(1))
  with Finding_Posted inv show ?thesis
    by (auto simp: findings_inv_def Let_def om_ok_put split: option.split
        simp del: split_paired_All split_paired_Ex)
next
  case (Finding_Updated f)
  assume "findings_inv L"
  with Finding_Updated show ?thesis
    by (auto simp: findings_inv_def Let_def om_ok_put is_live_iff simp del: split_paired_All split_paired_Ex)
next
  case (Finding_Withdrawn p)
  assume "findings_inv L"
  with Finding_Withdrawn show ?thesis
    by (auto simp: findings_inv_def Let_def om_ok_put is_live_iff simp del: split_paired_All split_paired_Ex)
next
  case (Finding_Settled p)
  assume "findings_inv L"
  with Finding_Settled show ?thesis
    by (auto simp: findings_inv_def Let_def split: option.split slot.split
        simp del: split_paired_All split_paired_Ex)
qed (auto simp: findings_inv_proved findings_inv_answered)

lemma findings_step_Inr [simp]:
  "findings_step L x = Inr L' \<longleftrightarrow> L' = findings_apply L (fst x) (snd x)"
  by (auto simp: findings_step_def)

lemma findings_inv_new: "findings_inv findings_new"
  by (simp add: findings_inv_def findings_new_def)

interpretation findings: event_fold findings_new findings_step findings_inv
  by unfold_locales (auto intro: findings_inv_new findings_inv_step)

definition findings_of :: "finding_op list \<Rightarrow> finding_ledger" where
  "findings_of ops = fst (fold_until findings_step findings_new ops)"

lemma fold_findings:
  "fold_until findings_step L ops = (foldl (\<lambda>L x. findings_apply L (fst x) (snd x)) L ops, None)"
  unfolding findings_step_def by (rule fold_until_total)

lemma findings_of_Nil [simp]: "findings_of [] = findings_new"
  by (simp add: findings_of_def)

lemma findings_of_snoc [simp]:
  "findings_of (ops @ [x]) = findings_apply (findings_of ops) (fst x) (snd x)"
  by (simp add: findings_of_def fold_findings)

lemma findings_inv_of: "findings_inv (findings_of ops)"
  unfolding findings_of_def by (rule findings.inv_fold)

section \<open>What a log says of one finding\<close>

definition posts :: "finding_key \<Rightarrow> finding_op \<Rightarrow> finding option" where
  "posts k x =
     (case snd x of Finding_Posted f \<Rightarrow> if (fst x, fi_id f) = k then Some f else None | _ \<Rightarrow> None)"

definition updates :: "finding_key \<Rightarrow> finding_op \<Rightarrow> finding option" where
  "updates k x =
     (case snd x of Finding_Updated f \<Rightarrow> if (fst x, fi_id f) = k then Some f else None | _ \<Rightarrow> None)"

definition withdraws :: "finding_key \<Rightarrow> finding_op \<Rightarrow> string option" where
  "withdraws k x =
     (case snd x of
        Finding_Withdrawn p \<Rightarrow> if (fst x, fwd_id p) = k then Some (fwd_reason p) else None
      | _ \<Rightarrow> None)"

definition post_key :: "finding_op \<Rightarrow> finding_key option" where
  "post_key x = (case snd x of Finding_Posted f \<Rightarrow> Some (fst x, fi_id f) | _ \<Rightarrow> None)"

text \<open>From its first post on, a finding is as it was posted, until an update replaces it, until its
  first withdrawal, which is final.\<close>

definition slot_spec :: "finding_key \<Rightarrow> finding_op list \<Rightarrow> slot option" where
  "slot_spec k ops =
     (case dropWhile (\<lambda>x. posts k x = None) ops of
        [] \<Rightarrow> None
      | x # rest \<Rightarrow>
          (case List.map_filter (withdraws k) rest of
             reason # _ \<Rightarrow> Some (Withdrawn reason)
           | [] \<Rightarrow>
               Some (Live (unwrap_or (last_opt (List.map_filter (updates k) rest)) (the (posts k x))))))"

definition slot_step :: "finding_key \<Rightarrow> slot option \<Rightarrow> finding_op \<Rightarrow> slot option" where
  "slot_step k s x =
     (case s of
        None \<Rightarrow> map_option Live (posts k x)
      | Some (Withdrawn r) \<Rightarrow> s
      | Some (Live f) \<Rightarrow>
          (case withdraws k x of
             Some r \<Rightarrow> Some (Withdrawn r)
           | None \<Rightarrow> (case updates k x of Some g \<Rightarrow> Some (Live g) | None \<Rightarrow> s)))"

lemma dropWhile_snoc:
  "dropWhile P (xs @ [x]) = (if dropWhile P xs = [] then dropWhile P [x] else dropWhile P xs @ [x])"
  by (induction xs) auto

lemma slot_spec_snoc: "slot_spec k (ops @ [x]) = slot_step k (slot_spec k ops) x"
proof (cases "dropWhile (\<lambda>x. posts k x = None) ops")
  case Nil
  then have "dropWhile (\<lambda>x. posts k x = None) (ops @ [x]) = dropWhile (\<lambda>x. posts k x = None) [x]"
    by (simp only: dropWhile_snoc if_True simp_thms)
  then show ?thesis
    unfolding slot_spec_def slot_step_def Nil
    by (cases "posts k x") (simp_all add: List.map_filter_simps)
next
  case (Cons y rest)
  then have split: "dropWhile (\<lambda>x. posts k x = None) (ops @ [x]) = y # rest @ [x]"
    by (simp only: dropWhile_snoc) simp
  have excl: "withdraws k x \<noteq> None \<Longrightarrow> updates k x = None"
    by (auto simp: withdraws_def updates_def split: finding_event.splits)
  show ?thesis
    unfolding slot_spec_def split Cons slot_step_def
    by (cases "List.map_filter (withdraws k) rest"; cases "withdraws k x"; cases "updates k x")
      (use excl in \<open>simp_all add: map_filter_snoc last_opt_def\<close>)
qed

lemma slots_apply:
  "om_get (slots (findings_apply L (fst x) (snd x))) k = slot_step k (om_get (slots L) k) x"
proof (cases "snd x")
  case (Finding_Settled p)
  then show ?thesis
    by (auto simp: slot_step_def posts_def updates_def withdraws_def Let_def split: option.splits slot.splits)
qed (auto simp: slot_step_def posts_def updates_def withdraws_def Let_def frame_simps is_live_def
      split: option.splits slot.splits)

lemma slots_of: "om_get (slots (findings_of ops)) k = slot_spec k ops"
proof (induction ops rule: rev_induct)
  case Nil
  then show ?case by (simp add: findings_new_def slot_spec_def)
next
  case (snoc x ops)
  then show ?case by (simp add: slots_apply slot_spec_snoc)
qed

lemma posted_iff: "slot_spec k ops \<noteq> None \<longleftrightarrow> k \<in> set (List.map_filter post_key ops)"
proof -
  have "posts k x = None \<longleftrightarrow> post_key x \<noteq> Some k" for x
    by (auto simp: posts_def post_key_def split: finding_event.split)
  then have keys: "k \<in> set (List.map_filter post_key ops) \<longleftrightarrow> \<not> (\<forall>x \<in> set ops. posts k x = None)"
    by (simp add: set_map_filter)
  have unposted: "slot_spec k ops = None \<longleftrightarrow> dropWhile (\<lambda>x. posts k x = None) ops = []"
    by (cases "dropWhile (\<lambda>x. posts k x = None) ops") (simp_all add: slot_spec_def del: dropWhile_eq_Nil_conv split: list.split)
  show ?thesis by (simp only: unposted keys dropWhile_eq_Nil_conv)
qed

lemma first_post_of: "first_post (findings_of ops) = first_order (List.map_filter post_key ops)"
proof (induction ops rule: rev_induct)
  case Nil
  then show ?case by (simp add: findings_new_def List.map_filter_simps)
next
  case (snoc x ops)
  have known: "om_get (slots (findings_of ops)) k \<noteq> None \<longleftrightarrow> k \<in> set (List.map_filter post_key ops)" for k
    using posted_iff [of k ops] by (simp add: slots_of)
  show ?case
  proof (cases "snd x")
    case (Finding_Posted f)
    then have "post_key x = Some (fst x, fi_id f)" by (simp add: post_key_def)
    with Finding_Posted snoc known [of "(fst x, fi_id f)"] show ?thesis
      by (auto simp: map_filter_snoc first_order_snoc Let_def split: option.split)
  next
    case (Finding_Settled p)
    with snoc show ?thesis
      by (auto simp: map_filter_snoc post_key_def Let_def split: option.split slot.split)
  qed (use snoc in \<open>auto simp: map_filter_snoc post_key_def Let_def frame_simps\<close>)
qed

lemma slot_spec_posted: "slot_spec k ops = Some s \<Longrightarrow> k \<in> set (List.map_filter post_key ops)"
  using posted_iff [of k ops] by simp

section \<open>What unsettles, what settles\<close>

definition forgets :: "finding_key \<Rightarrow> finding_op \<Rightarrow> bool" where
  "forgets k x \<longleftrightarrow> updates k x \<noteq> None \<or> withdraws k x \<noteq> None"

text \<open>What would settle a finding: its criterion passing, or a person at a gate.\<close>

definition settles :: "finding_key \<Rightarrow> finding_op \<Rightarrow> settled_by option" where
  "settles k x =
     (case snd x of
        Finding_Proved p \<Rightarrow>
          if (Some (fp_node p), fp_id p) = k \<and> cr_exit_code (fp_result p) = 0
          then Some (Settled_Proof (cr_cmd (fp_result p))) else None
      | Finding_Settled p \<Rightarrow>
          if (fs_node p, fs_id p) = k then map_option Settled_Person (fst x) else None
      | _ \<Rightarrow> None)"

lemma or_else_Some: "or_else x (Some v) = Some (unwrap_or x v)"
  by (cases x) simp_all

lemma settled_apply:
  "om_get (settled_of (findings_apply L (fst x) (snd x))) k =
     (if \<not> is_live (om_get (slots L) k) then om_get (settled_of L) k
      else if forgets k x then None
      else or_else (om_get (settled_of L) k) (settles k x))"
proof (cases "snd x")
  case (Finding_Settled p)
  then show ?thesis
    by (auto simp: forgets_def updates_def withdraws_def settles_def Let_def
        or_else_Some split: option.splits slot.splits)
next
  case (Finding_Proved p)
  then show ?thesis
    by (auto simp: forgets_def updates_def withdraws_def settles_def findings_proved_def Let_def
        or_else_Some split: option.splits)
next
  case (Finding_Posted f)
  then show ?thesis
    by (auto simp: forgets_def updates_def withdraws_def settles_def Let_def split: option.splits)
next
  case (Finding_Updated f)
  then show ?thesis
    by (auto simp: forgets_def updates_def withdraws_def settles_def Let_def)
next
  case (Finding_Withdrawn p)
  then show ?thesis
    by (auto simp: forgets_def updates_def withdraws_def settles_def Let_def)
qed (simp_all add: forgets_def updates_def withdraws_def settles_def frame_simps)

text \<open>The answer of one node to one finding, as the log gives it.\<close>

definition answer_by :: "finding_ledger \<Rightarrow> finding_key \<Rightarrow> node_id option \<Rightarrow> answer_given option" where
  "answer_by L k who = List.find (\<lambda>a. ag_by a = who) (unwrap_or (om_get (answers_to L) k) [])"

definition answers_in :: "finding_key \<Rightarrow> node_id option \<Rightarrow> finding_op \<Rightarrow> answer_given option" where
  "answers_in k who x =
     (case snd x of
        Finding_Answered p \<Rightarrow>
          if (Some (fa_node p), fa_id p) = k \<and> fst x = who
          then Some \<lparr>ag_by = who, ag_answer = fa_answer p, ag_why = fa_why p\<rparr> else None
      | _ \<Rightarrow> None)"

lemma answer_apply:
  "answer_by (findings_apply L (fst x) (snd x)) k who =
     (if \<not> is_live (om_get (slots L) k) then answer_by L k who
      else if forgets k x then None
      else or_else (answers_in k who x) (answer_by L k who))"
proof (cases "snd x")
  case (Finding_Settled p)
  then show ?thesis
    by (auto simp: answer_by_def forgets_def updates_def withdraws_def answers_in_def Let_def
        split: option.splits slot.splits)
next
  case (Finding_Answered p)
  then show ?thesis
    by (auto simp: answer_by_def forgets_def updates_def withdraws_def answers_in_def
        findings_answered_def Let_def replace_answer_find)
next
  case (Finding_Posted f)
  then show ?thesis
    by (auto simp: answer_by_def forgets_def updates_def withdraws_def answers_in_def Let_def split: option.splits)
next
  case (Finding_Updated f)
  then show ?thesis
    by (auto simp: answer_by_def forgets_def updates_def withdraws_def answers_in_def Let_def)
next
  case (Finding_Withdrawn p)
  then show ?thesis
    by (auto simp: answer_by_def forgets_def updates_def withdraws_def answers_in_def Let_def)
qed (simp_all add: answer_by_def forgets_def updates_def withdraws_def answers_in_def frame_simps)

lemma settled_live: "om_get (settled_of (findings_of ops)) k \<noteq> None \<Longrightarrow> is_live (slot_spec k ops)"
  using findings_inv_of [of ops] unfolding findings_inv_def slots_of by blast

lemma answers_live: "answer_by (findings_of ops) k who \<noteq> None \<Longrightarrow> is_live (slot_spec k ops)"
proof -
  assume "answer_by (findings_of ops) k who \<noteq> None"
  then have "om_get (answers_to (findings_of ops)) k \<noteq> None"
    by (cases "om_get (answers_to (findings_of ops)) k") (simp_all add: answer_by_def)
  then show ?thesis using findings_inv_of [of ops] unfolding findings_inv_def slots_of by blast
qed

section \<open>The properties\<close>

text \<open>What stands is what was found: after any log a finding of a node is as it was first posted,
  until an update replaces it, until its first withdrawal, which is final; a repeated post changes
  nothing; and the findings the run holds are the ones so standing, each once, in the order they were
  first posted.\<close>

lemma standing_is_posted_unwithdrawn:
  "om_get (slots (findings_of ops)) k = slot_spec k ops \<and>
   effective (findings_of ops) =
     List.map_filter
       (\<lambda>k. case slot_spec k ops of
              Some (Live f) \<Rightarrow> Some \<lparr>pf_node = fst k, pf_finding = f\<rparr>
            | _ \<Rightarrow> None)
       (first_order (List.map_filter post_key ops)) \<and>
   distinct (map (\<lambda>p. (pf_node p, fi_id (pf_finding p))) (effective (findings_of ops)))"
proof -
  have key: "(pf_node p, fi_id (pf_finding p)) = k" if "posted_live (findings_of ops) k = Some p" for k p
    using that findings_inv_of [of ops] unfolding findings_inv_def
    by (cases k) (auto simp: posted_live_def split: option.splits slot.splits)
  have apart: "distinct (map (\<lambda>p. (pf_node p, fi_id (pf_finding p))) (List.map_filter (posted_live (findings_of ops)) ks))"
    if "distinct ks" for ks
    using that
  proof (induction ks)
    case Nil
    then show ?case by (simp add: List.map_filter_simps)
  next
    case (Cons a ks)
    then show ?case
      using key by (auto simp: List.map_filter_simps set_map_filter split: option.split)
  qed
  have live: "posted_live (findings_of ops) = (\<lambda>k. case slot_spec k ops of
      Some (Live f) \<Rightarrow> Some \<lparr>pf_node = fst k, pf_finding = f\<rparr> | _ \<Rightarrow> None)"
    by (rule ext) (simp add: posted_live_def slots_of)
  have held_now: "effective (findings_of ops) =
      List.map_filter (posted_live (findings_of ops)) (first_order (List.map_filter post_key ops))"
    unfolding effective_def first_post_of by (rule refl)
  show ?thesis
    unfolding held_now slots_of
    by (intro conjI refl apart [OF distinct_first_order]) (simp only: live)
qed

text \<open>What is said of a finding lasts while what it was said of does: only a standing finding is
  answered or settled, an update or a withdrawal forgets every answer and settlement of it, each node
  that answers it is heard by its latest answer, and it is settled first by its criterion passing or
  by a person at a gate - never by an answer, and never unsettled by anything else.\<close>

lemma finding_settled_only_by_evidence:
  "om_get (settled_of (findings_of (ops @ [x]))) k =
     (if \<not> is_live (slot_spec k ops) then None
      else if forgets k x then None
      else or_else (om_get (settled_of (findings_of ops)) k) (settles k x)) \<and>
   answer_by (findings_of (ops @ [x])) k who =
     (if \<not> is_live (slot_spec k ops) then None
      else if forgets k x then None
      else or_else (answers_in k who x) (answer_by (findings_of ops) k who))"
  using settled_live [of ops k] answers_live [of ops k who]
  by (cases "om_get (settled_of (findings_of ops)) k"; cases "answer_by (findings_of ops) k who")
    (simp_all add: settled_apply answer_apply slots_of)

text \<open>A finding survives the log: it reads back as it was written, a line reads as a finding only
  when it is exactly what that finding is written as, and a line that says both its words and its
  cause, or neither, is refused.\<close>

lemma finding_survives_log:
  "finding_from_wire (finding_to_wire f) = Inr f \<and>
   (finding_from_wire w = Inr f \<longleftrightarrow> w = finding_to_wire f) \<and>
   (finding_from_wire w = Inl UnsaidFinding \<longleftrightarrow>
      \<not> (fw_title w \<noteq> None \<and> fw_detail w \<noteq> None \<and> fw_cause w = None) \<and>
      \<not> (fw_title w = None \<and> fw_detail w = None \<and> fw_cause w \<noteq> None))"
  by (cases w; cases f; cases "fi_says f"; cases "fw_title w"; cases "fw_detail w"; cases "fw_cause w")
    (auto simp: finding_from_wire_def finding_to_wire_def Let_def)

end
