(* ===== verification/Task_Ledger.thy ===== *)
theory Task_Ledger
  imports Node_Events "HOL-Library.Sublist"
begin

text \<open>
  The tasks document as a run works it (\<open>events/tasks/\<close>): each task's status, its attempts, the
  commit a \<open>done\<close> landed at, the departures from the plan its sessions declared, and what its
  criteria cost. The lemmas show that only a registered task is ever moved, that a task's record is
  what its latest status change said, that the first node the log names keeps it, and that a
  departure is owed until a person answers it and accepted only by an answer that accepts.
\<close>

section \<open>The task events\<close>

datatype task_status = Pending | Ready | Running | Done | Blocked | Failed

record criterion =
  crit_cmd :: string
  crit_type :: "criterion_type option"

record task_registered =
  tg_task :: task_id
  tg_criteria :: "criterion list"
  tg_scope :: "scope_glob list"
  tg_depends_on :: "task_id list"

record status_changed =
  sc_task :: task_id
  sc_status :: task_status
  sc_caused_by :: seq
  sc_commit :: "commit_sha option"
  sc_left_work :: "commit_sha option"
  sc_resumes :: "session_id option"
  sc_stop :: "task_cause option"

definition status_to :: "task_id \<Rightarrow> task_status \<Rightarrow> seq \<Rightarrow> status_changed" where
  "status_to t st cause =
     \<lparr>sc_task = t, sc_status = st, sc_caused_by = cause, sc_commit = None, sc_left_work = None,
      sc_resumes = None, sc_stop = None\<rparr>"

definition status_blocked ::
  "task_id \<Rightarrow> seq \<Rightarrow> commit_sha option \<Rightarrow> task_cause \<Rightarrow> status_changed" where
  "status_blocked t cause work stop =
     (status_to t Blocked cause)\<lparr>sc_left_work := work, sc_stop := Some stop\<rparr>"

definition status_continuing :: "task_id \<Rightarrow> seq \<Rightarrow> commit_sha \<Rightarrow> status_changed" where
  "status_continuing t cause work = (status_to t Pending cause)\<lparr>sc_left_work := Some work\<rparr>"

definition status_resuming ::
  "task_id \<Rightarrow> seq \<Rightarrow> commit_sha \<Rightarrow> session_id \<Rightarrow> status_changed" where
  "status_resuming t cause work session =
     (status_continuing t cause work)\<lparr>sc_resumes := Some session\<rparr>"

definition status_done :: "task_id \<Rightarrow> seq \<Rightarrow> commit_sha \<Rightarrow> status_changed" where
  "status_done t cause commit = (status_to t Done cause)\<lparr>sc_commit := Some commit\<rparr>"

record check_answered =
  ca_task :: task_id
  ca_closes :: bool
  ca_results :: "criterion_result list"
  ca_waiting :: "string list"
  ca_outside_scope :: "path list"
  ca_denied :: "path list"
  ca_duration_ms :: u64

record deviation_resolved =
  dr_task :: task_id
  dr_accepted :: bool
  dr_said :: "string option"
  dr_respecified_by :: "node_id option"

datatype outside_files = Outside_Files "string list" | Outside_Common nat

datatype in_tree = In_Tree_New | In_Tree_There "string option" outside_files

record shape_read =
  shp_name :: string
  shp_owner :: task_id
  shp_file :: string
  shp_in_tree :: in_tree

record shapes_read =
  sr_plan :: content_hash
  sr_at :: commit_sha
  sr_shapes :: "shape_read list"

definition shape_named :: "shapes_read \<Rightarrow> string \<Rightarrow> shape_read option" where
  "shape_named p name = List.find (\<lambda>s. shp_name s = name) (sr_shapes p)"

datatype task_event =
  Task_Registered task_registered
| StatusChanged status_changed
| CheckStarted task_id
| CheckAnswered check_answered
| DeviationDeclared deviation_declared
| DeviationResolved deviation_resolved
| CriterionDeclaredUnpassable criterion_unpassable
| ShapesRead shapes_read

section \<open>The ledger\<close>

record accepted_departure =
  ad_declared :: deviation_declared
  ad_said :: "string option"

record respecified =
  rsp_by :: node_id
  rsp_at :: seq
  rsp_departures :: "deviation_declared list"
  rsp_said :: "string option"

record task_record =
  tr_status :: task_status
  tr_owner :: "node_id option"
  tr_registered_at :: "seq option"
  tr_attempts :: u32
  tr_commit :: "commit_sha option"
  tr_left_work :: "(node_id \<times> commit_sha) option"
  tr_resumes :: "session_id option"
  tr_stop :: "task_cause option"
  tr_last_session :: "session_id option"
  tr_deviation_answer :: "deviation_resolved option"
  tr_departures_owed :: "deviation_declared list"
  tr_departures_accepted :: "accepted_departure list"
  tr_respecified :: "respecified option"
  tr_in_session :: bool

definition task_record_default :: task_record where
  "task_record_default =
     \<lparr>tr_status = Pending, tr_owner = None, tr_registered_at = None, tr_attempts = 0,
      tr_commit = None, tr_left_work = None, tr_resumes = None, tr_stop = None,
      tr_last_session = None, tr_deviation_answer = None, tr_departures_owed = [],
      tr_departures_accepted = [], tr_respecified = None, tr_in_session = False\<rparr>"

record task_ledger =
  per_task :: "(task_id, task_record) omap"
  per_criterion :: "(string, u64 list) omap"
  tl_checking :: "task_id list"
  tl_caused :: "seq list"
  tl_shapes :: "(content_hash, shapes_read) omap"

definition tasks_new :: task_ledger where
  "tasks_new =
     \<lparr>per_task = [], per_criterion = [], tl_checking = [], tl_caused = [], tl_shapes = []\<rparr>"

datatype unknown_task = UnknownTask task_id

definition task_get :: "task_ledger \<Rightarrow> task_id \<Rightarrow> task_record option" where
  "task_get L t = om_get (per_task L) t"

definition task_contains :: "task_ledger \<Rightarrow> task_id \<Rightarrow> bool" where
  "task_contains L t \<longleftrightarrow> om_get (per_task L) t \<noteq> None"

definition task_status_of :: "task_ledger \<Rightarrow> task_id \<Rightarrow> task_status option" where
  "task_status_of L t = map_option tr_status (om_get (per_task L) t)"

definition task_statuses :: "task_ledger \<Rightarrow> task_status list" where
  "task_statuses L = map tr_status (om_values (per_task L))"

definition continuable_by :: "task_ledger \<Rightarrow> node_id \<Rightarrow> bool" where
  "continuable_by L n =
     list_ex (\<lambda>r. tr_status r = Blocked \<and> is_some_and (tr_left_work r) (\<lambda>(by_id, _). by_id = n))
       (om_values (per_task L))"

definition stops :: "task_ledger \<Rightarrow> task_stop list" where
  "stops L =
     List.map_filter
       (\<lambda>(t, r). map_option (\<lambda>c. \<lparr>ts_task = t, ts_cause = c\<rparr>) (tr_stop r))
       (filter (\<lambda>(_, r). tr_status r = Blocked) (per_task L))"

definition tasks_done :: "task_ledger \<Rightarrow> nat" where
  "tasks_done L = length (filter (\<lambda>r. tr_status r = Done) (om_values (per_task L)))"

definition criterion_durations :: "task_ledger \<Rightarrow> string \<Rightarrow> u64 list" where
  "criterion_durations L cmd = unwrap_or (om_get (per_criterion L) cmd) []"

definition caused_by :: "task_ledger \<Rightarrow> seq \<Rightarrow> bool" where
  "caused_by L decision_at \<longleftrightarrow> decision_at \<in> set (tl_caused L)"

definition price_result :: "task_ledger \<Rightarrow> criterion_result \<Rightarrow> task_ledger" where
  "price_result L res =
     (case cr_duration_ms res of
        None \<Rightarrow> L
      | Some ms \<Rightarrow> L\<lparr>per_criterion := om_entry [] (cr_cmd res) (\<lambda>ds. ds @ [ms]) (per_criterion L)\<rparr>)"

definition apply_criteria :: "task_ledger \<Rightarrow> node_event \<Rightarrow> task_ledger" where
  "apply_criteria L e =
     (case e of CriteriaChecked p \<Rightarrow> foldl price_result L (cc_results p) | _ \<Rightarrow> L)"

definition task_answered :: "task_record \<Rightarrow> deviation_resolved \<Rightarrow> seq \<Rightarrow> task_record" where
  "task_answered r p at =
     (let answered_now = tr_departures_owed r in
      r\<lparr>tr_departures_owed := [],
        tr_respecified :=
          (case (dr_accepted p, dr_respecified_by p) of
             (True, Some by_id) \<Rightarrow>
               Some \<lparr>rsp_by = by_id, rsp_at = at, rsp_departures = answered_now, rsp_said = dr_said p\<rparr>
           | _ \<Rightarrow> tr_respecified r),
        tr_departures_accepted :=
          (if dr_accepted p
           then tr_departures_accepted r @
                map (\<lambda>d. \<lparr>ad_declared = d, ad_said = dr_said p\<rparr>) answered_now
           else tr_departures_accepted r),
        tr_deviation_answer := Some p\<rparr>)"

definition record_status :: "task_record \<Rightarrow> status_changed \<Rightarrow> event_meta \<Rightarrow> task_record" where
  "record_status r p m =
     r\<lparr>tr_owner := or_else (tr_owner r) (m_node m),
       tr_attempts := (if sc_status p = Running then tr_attempts r + 1 else tr_attempts r),
       tr_deviation_answer := (if sc_status p = Running then None else tr_deviation_answer r),
       tr_status := sc_status p,
       tr_commit := or_else (sc_commit p) (tr_commit r),
       tr_left_work :=
         Option.bind (sc_left_work p) (\<lambda>work. map_option (\<lambda>n. (n, work)) (m_node m)),
       tr_resumes := sc_resumes p,
       tr_stop := sc_stop p,
       tr_in_session := False\<rparr>"

definition task_status_changed ::
  "task_ledger \<Rightarrow> status_changed \<Rightarrow> event_meta \<Rightarrow> unknown_task + task_ledger" where
  "task_status_changed L p m =
     (case om_get (per_task L) (sc_task p) of
        None \<Rightarrow> Inl (UnknownTask (sc_task p))
      | Some r \<Rightarrow>
          Inr (L\<lparr>per_task := om_put (sc_task p) (record_status r p m) (per_task L),
                 tl_caused := os_insert (sc_caused_by p) (tl_caused L)\<rparr>))"

fun tasks_apply :: "task_ledger \<Rightarrow> task_event \<Rightarrow> event_meta \<Rightarrow> unknown_task + task_ledger" where
  "tasks_apply L (Task_Registered p) m =
     Inr (L\<lparr>per_task := om_entry task_record_default (tg_task p)
              (\<lambda>r. r\<lparr>tr_owner := or_else (tr_owner r) (m_node m),
                     tr_registered_at := or_else (tr_registered_at r) (Some (m_seq m))\<rparr>)
              (per_task L)\<rparr>)"
| "tasks_apply L (StatusChanged p) m = task_status_changed L p m"
| "tasks_apply L (CheckStarted t) m = Inr (L\<lparr>tl_checking := os_insert t (tl_checking L)\<rparr>)"
| "tasks_apply L (CheckAnswered p) m = Inr (L\<lparr>tl_checking := os_remove (ca_task p) (tl_checking L)\<rparr>)"
| "tasks_apply L (DeviationDeclared p) m =
     (case om_get (per_task L) (dd_task p) of
        None \<Rightarrow> Inl (UnknownTask (dd_task p))
      | Some r \<Rightarrow>
          Inr (L\<lparr>per_task := om_put (dd_task p)
                   (r\<lparr>tr_departures_owed := tr_departures_owed r @ [p]\<rparr>) (per_task L)\<rparr>))"
| "tasks_apply L (DeviationResolved p) m =
     (case om_get (per_task L) (dr_task p) of
        None \<Rightarrow> Inl (UnknownTask (dr_task p))
      | Some r \<Rightarrow>
          Inr (L\<lparr>per_task := om_put (dr_task p) (task_answered r p (m_seq m)) (per_task L)\<rparr>))"
| "tasks_apply L (CriterionDeclaredUnpassable _) m = Inr L"
| "tasks_apply L (ShapesRead p) m = Inr (L\<lparr>tl_shapes := om_put (sr_plan p) p (tl_shapes L)\<rparr>)"

definition tasks_apply_session :: "task_ledger \<Rightarrow> session_event \<Rightarrow> task_ledger" where
  "tasks_apply_session L e =
     (case e of
        Session_Opened p \<Rightarrow>
          (case so_task p of
             None \<Rightarrow> L
           | Some t \<Rightarrow>
               L\<lparr>per_task := om_adjust t
                    (\<lambda>r. r\<lparr>tr_last_session := Some (so_session p), tr_in_session := True\<rparr>)
                    (per_task L)\<rparr>)
      | _ \<Rightarrow> L)"

text \<open>Every way the replay drives the ledger.\<close>

datatype task_op =
  Op_Task task_event event_meta
| Op_Criteria node_event
| Op_Task_Session session_event

fun tasks_step :: "task_ledger \<Rightarrow> task_op \<Rightarrow> unknown_task + task_ledger" where
  "tasks_step L (Op_Task e m) = tasks_apply L e m"
| "tasks_step L (Op_Criteria e) = Inr (apply_criteria L e)"
| "tasks_step L (Op_Task_Session e) = Inr (tasks_apply_session L e)"

section \<open>What a task's record says\<close>

lemma price_frame: "per_task (foldl price_result L rs) = per_task L"
  "tl_checking (foldl price_result L rs) = tl_checking L"
  by (induction rs arbitrary: L) (auto simp: price_result_def split: option.split)

lemma apply_criteria_frame [frame_simps]:
  "per_task (apply_criteria L e) = per_task L" "tl_checking (apply_criteria L e) = tl_checking L"
  by (simp_all add: apply_criteria_def price_frame split: node_event.split)

definition subject_of :: "task_op \<Rightarrow> task_id option" where
  "subject_of x =
     (case x of
        Op_Task (StatusChanged p) _ \<Rightarrow> Some (sc_task p)
      | Op_Task (DeviationDeclared p) _ \<Rightarrow> Some (dd_task p)
      | Op_Task (DeviationResolved p) _ \<Rightarrow> Some (dr_task p)
      | _ \<Rightarrow> None)"

definition registers :: "task_op \<Rightarrow> task_id option" where
  "registers x = (case x of Op_Task (Task_Registered p) _ \<Rightarrow> Some (tg_task p) | _ \<Rightarrow> None)"

lemma tasks_step_refuses_iff:
  "tasks_step L x = Inl (UnknownTask t) \<longleftrightarrow> subject_of x = Some t \<and> \<not> task_contains L t"
  by (cases x; cases "case x of Op_Task e _ \<Rightarrow> e | _ \<Rightarrow> CheckStarted []")
    (auto simp: subject_of_def task_contains_def task_status_changed_def split: option.splits)

lemma tasks_step_contains:
  assumes "tasks_step L x = Inr L'"
  shows "task_contains L' t \<longleftrightarrow> task_contains L t \<or> registers x = Some t"
proof (cases x)
  case (Op_Task e m)
  with assms show ?thesis
    by (cases e) (auto simp: registers_def task_contains_def task_status_changed_def split: option.splits if_splits)
next
  case (Op_Criteria e)
  with assms show ?thesis by (auto simp: registers_def task_contains_def frame_simps)
next
  case (Op_Task_Session e)
  with assms show ?thesis
    by (auto simp: registers_def task_contains_def tasks_apply_session_def
        split: session_event.splits option.splits if_splits)
qed

definition task_rec :: "task_ledger \<Rightarrow> task_id \<Rightarrow> task_record" where
  "task_rec L t = unwrap_or (task_get L t) task_record_default"

text \<open>What one operation does to one task's record.\<close>

definition rec_op :: "task_id \<Rightarrow> task_record \<Rightarrow> task_op \<Rightarrow> task_record" where
  "rec_op t r x =
     (case x of
        Op_Task e m \<Rightarrow>
          (case e of
             Task_Registered p \<Rightarrow>
               if tg_task p = t
               then r\<lparr>tr_owner := or_else (tr_owner r) (m_node m),
                      tr_registered_at := or_else (tr_registered_at r) (Some (m_seq m))\<rparr>
               else r
           | StatusChanged p \<Rightarrow> if sc_task p = t then record_status r p m else r
           | DeviationDeclared p \<Rightarrow>
               if dd_task p = t then r\<lparr>tr_departures_owed := tr_departures_owed r @ [p]\<rparr> else r
           | DeviationResolved p \<Rightarrow> if dr_task p = t then task_answered r p (m_seq m) else r
           | _ \<Rightarrow> r)
      | _ \<Rightarrow> r)"

lemma task_rec_step:
  assumes "tasks_step L x = Inr L'"
  shows "\<exists>s i. task_rec L' t = (rec_op t (task_rec L t) x)\<lparr>tr_last_session := s, tr_in_session := i\<rparr>"
proof -
  have same: "\<exists>s i. r = r\<lparr>tr_last_session := s, tr_in_session := i\<rparr>" for r :: task_record
    by (rule exI [of _ "tr_last_session r"], rule exI [of _ "tr_in_session r"]) simp
  show ?thesis
  proof (cases x)
    case (Op_Task e m)
    have "task_rec L' t = rec_op t (task_rec L t) x"
      using assms Op_Task
      by (cases e) (auto simp: rec_op_def task_rec_def task_get_def task_status_changed_def split: option.splits)
    with same show ?thesis by metis
  next
    case (Op_Criteria e)
    with assms have "task_rec L' t = rec_op t (task_rec L t) x"
      by (auto simp: rec_op_def task_rec_def task_get_def frame_simps)
    with same show ?thesis by metis
  next
    case (Op_Task_Session e)
    show ?thesis
    proof (cases "\<exists>p. e = Session_Opened p \<and> so_task p = Some t \<and> om_get (per_task L) t \<noteq> None")
      case True
      with assms Op_Task_Session show ?thesis
        by (fastforce simp: rec_op_def task_rec_def task_get_def tasks_apply_session_def)
    next
      case False
      with assms Op_Task_Session have "task_rec L' t = rec_op t (task_rec L t) x"
        by (auto simp: rec_op_def task_rec_def task_get_def tasks_apply_session_def
            split: session_event.splits option.splits if_splits)
      with same show ?thesis by metis
    qed
  qed
qed

lemma task_rec_step_frame:
  assumes "tasks_step L x = Inr L'"
  shows "tr_status (task_rec L' t) = tr_status (rec_op t (task_rec L t) x)"
    and "tr_left_work (task_rec L' t) = tr_left_work (rec_op t (task_rec L t) x)"
    and "tr_resumes (task_rec L' t) = tr_resumes (rec_op t (task_rec L t) x)"
    and "tr_stop (task_rec L' t) = tr_stop (rec_op t (task_rec L t) x)"
    and "tr_attempts (task_rec L' t) = tr_attempts (rec_op t (task_rec L t) x)"
    and "tr_owner (task_rec L' t) = tr_owner (rec_op t (task_rec L t) x)"
    and "tr_commit (task_rec L' t) = tr_commit (rec_op t (task_rec L t) x)"
    and "tr_departures_owed (task_rec L' t) = tr_departures_owed (rec_op t (task_rec L t) x)"
    and "tr_departures_accepted (task_rec L' t) = tr_departures_accepted (rec_op t (task_rec L t) x)"
  using task_rec_step [OF assms, of t] by auto

lemmas rec_op_unfold = rec_op_def record_status_def task_answered_def Let_def

section \<open>A task's fields, over a log\<close>

type_synonym status_fields =
  "task_status \<times> (node_id \<times> commit_sha) option \<times> session_id option \<times> task_cause option"

definition status_view :: "task_record \<Rightarrow> status_fields" where
  "status_view r = (tr_status r, tr_left_work r, tr_resumes r, tr_stop r)"

definition status_write :: "task_id \<Rightarrow> task_op \<Rightarrow> status_fields option" where
  "status_write t x =
     (case x of
        Op_Task (StatusChanged p) m \<Rightarrow>
          if sc_task p = t
          then Some (sc_status p, zip_opt (m_node m) (sc_left_work p),
                     sc_resumes p, sc_stop p)
          else None
      | _ \<Rightarrow> None)"

definition commit_write :: "task_id \<Rightarrow> task_op \<Rightarrow> commit_sha option option" where
  "commit_write t x =
     (case x of
        Op_Task (StatusChanged p) m \<Rightarrow>
          if sc_task p = t then map_option Some (sc_commit p) else None
      | _ \<Rightarrow> None)"

definition dispatches :: "task_id \<Rightarrow> task_op \<Rightarrow> u32" where
  "dispatches t x =
     (case x of
        Op_Task (StatusChanged p) m \<Rightarrow> if sc_task p = t \<and> sc_status p = Running then 1 else 0
      | _ \<Rightarrow> 0)"

definition checking_write :: "task_id \<Rightarrow> task_op \<Rightarrow> bool option" where
  "checking_write t x =
     (case x of
        Op_Task (CheckStarted t') _ \<Rightarrow> if t' = t then Some True else None
      | Op_Task (CheckAnswered p) _ \<Rightarrow> if ca_task p = t then Some False else None
      | _ \<Rightarrow> None)"

definition owner_named :: "task_id \<Rightarrow> task_op \<Rightarrow> node_id option" where
  "owner_named t x =
     (case x of
        Op_Task (Task_Registered p) m \<Rightarrow> if tg_task p = t then m_node m else None
      | Op_Task (StatusChanged p) m \<Rightarrow> if sc_task p = t then m_node m else None
      | _ \<Rightarrow> None)"

definition declares :: "task_id \<Rightarrow> task_op \<Rightarrow> deviation_declared option" where
  "declares t x =
     (case x of Op_Task (DeviationDeclared p) _ \<Rightarrow> if dd_task p = t then Some p else None | _ \<Rightarrow> None)"

definition answers_departures :: "task_id \<Rightarrow> task_op \<Rightarrow> bool option" where
  "answers_departures t x =
     (case x of
        Op_Task (DeviationResolved p) _ \<Rightarrow> if dr_task p = t then Some (dr_accepted p) else None
      | _ \<Rightarrow> None)"

interpretation latest_status: last_write tasks_step "\<lambda>L. status_view (task_rec L t)" "status_write t" for t
proof
  fix L L' :: task_ledger and x
  assume "tasks_step L x = Inr L'"
  note f = task_rec_step_frame [OF this, of t]
  have "Option.bind w (\<lambda>work. map_option (\<lambda>n. (n, work)) n) = zip_opt n w"
    for w :: "commit_sha option" and n :: "node_id option"
    by (cases w; cases n) simp_all
  then show "status_view (task_rec L' t) = unwrap_or (status_write t x) (status_view (task_rec L t))"
    by (simp add: status_view_def f status_write_def rec_op_unfold split: task_op.split task_event.split)
qed

interpretation landed: last_write tasks_step "\<lambda>L. tr_commit (task_rec L t)" "commit_write t" for t
proof
  fix L L' :: task_ledger and x
  assume "tasks_step L x = Inr L'"
  note f = task_rec_step_frame [OF this, of t]
  have "or_else c d = unwrap_or (map_option Some c) d" for c d :: "commit_sha option"
    by (cases c) simp_all
  then show "tr_commit (task_rec L' t) = unwrap_or (commit_write t x) (tr_commit (task_rec L t))"
    by (simp add: f commit_write_def rec_op_unfold split: task_op.split task_event.split)
qed

interpretation dispatched: running_total tasks_step "\<lambda>L. tr_attempts (task_rec L t)" "dispatches t" for t
proof
  fix L L' :: task_ledger and x
  assume "tasks_step L x = Inr L'"
  note f = task_rec_step_frame [OF this, of t]
  show "tr_attempts (task_rec L' t) = tr_attempts (task_rec L t) + dispatches t x"
    by (simp add: f dispatches_def rec_op_unfold split: task_op.split task_event.split)
qed

interpretation judging: last_write tasks_step "\<lambda>L. t \<in> set (tl_checking L)" "checking_write t" for t
proof
  fix L L' :: task_ledger and x
  assume step: "tasks_step L x = Inr L'"
  show "(t \<in> set (tl_checking L')) = unwrap_or (checking_write t x) (t \<in> set (tl_checking L))"
  proof (cases x)
    case (Op_Task e m)
    with step show ?thesis
      by (cases e) (auto simp: checking_write_def task_status_changed_def split: option.splits)
  qed (use step in \<open>auto simp: checking_write_def frame_simps tasks_apply_session_def
        split: session_event.splits option.splits\<close>)
qed

text \<open>The first node named keeps the task.\<close>

lemma owner_fold:
  "fold_until tasks_step L ops = (L', None) \<Longrightarrow>
     tr_owner (task_rec L' t) =
       or_else (tr_owner (task_rec L t))
         (case List.map_filter (owner_named t) ops of [] \<Rightarrow> None | n # _ \<Rightarrow> Some n)"
proof (induction ops arbitrary: L)
  case Nil
  then show ?case by (simp add: List.map_filter_simps)
next
  case (Cons x ops)
  then obtain M where step: "tasks_step L x = Inr M" and rest: "fold_until tasks_step M ops = (L', None)"
    by (auto split: sum.splits)
  have "tr_owner (task_rec M t) = or_else (tr_owner (task_rec L t)) (owner_named t x)"
    by (simp add: task_rec_step_frame [OF step] owner_named_def rec_op_unfold
        split: task_op.split task_event.split)
  with Cons.IH [OF rest] show ?case
    by (cases "tr_owner (task_rec L t)"; cases "owner_named t x") (simp_all add: List.map_filter_simps)
qed

lemma contains_fold:
  "fold_until tasks_step L ops = (L', None) \<Longrightarrow>
     task_contains L' t \<longleftrightarrow> task_contains L t \<or> Some t \<in> registers ` set ops"
proof (induction ops arbitrary: L)
  case Nil
  then show ?case by simp
next
  case (Cons x ops)
  then obtain M where step: "tasks_step L x = Inr M" and rest: "fold_until tasks_step M ops = (L', None)"
    by (auto split: sum.splits)
  from Cons.IH [OF rest] tasks_step_contains [OF step, of t] show ?case by auto
qed

text \<open>The departures: owed since the last answer, accepted by the answers that accept.\<close>

definition departures_of :: "task_record \<Rightarrow> deviation_declared list" where
  "departures_of r = map ad_declared (tr_departures_accepted r) @ tr_departures_owed r"

definition owed_since :: "task_id \<Rightarrow> task_op list \<Rightarrow> deviation_declared list" where
  "owed_since t ops =
     List.map_filter (declares t)
       (rev (takeWhile (\<lambda>x. answers_departures t x = None) (rev ops)))"

lemma owed_since_snoc:
  "owed_since t (ops @ [x]) =
     (if answers_departures t x = None
      then owed_since t ops @ (case declares t x of None \<Rightarrow> [] | Some p \<Rightarrow> [p]) else [])"
  by (cases "answers_departures t x"; cases "declares t x") (simp_all add: owed_since_def List.map_filter_def)

lemma departures_step:
  assumes "tasks_step L x = Inr L'"
  shows "tr_departures_owed (task_rec L' t) =
      (if answers_departures t x = None
       then tr_departures_owed (task_rec L t) @ (case declares t x of None \<Rightarrow> [] | Some p \<Rightarrow> [p]) else [])"
    and "map ad_declared (tr_departures_accepted (task_rec L' t)) =
      map ad_declared (tr_departures_accepted (task_rec L t)) @
      (if answers_departures t x = Some True then tr_departures_owed (task_rec L t) else [])"
proof -
  note f = task_rec_step_frame [OF assms, of t]
  show "tr_departures_owed (task_rec L' t) =
      (if answers_departures t x = None
       then tr_departures_owed (task_rec L t) @ (case declares t x of None \<Rightarrow> [] | Some p \<Rightarrow> [p]) else [])"
    by (simp add: f answers_departures_def declares_def rec_op_unfold split: task_op.split task_event.split)
  have "map (ad_declared \<circ> (\<lambda>d. \<lparr>ad_declared = d, ad_said = w\<rparr>)) ds = ds" for w ds
    by (induction ds) simp_all
  then show "map ad_declared (tr_departures_accepted (task_rec L' t)) =
      map ad_declared (tr_departures_accepted (task_rec L t)) @
      (if answers_departures t x = Some True then tr_departures_owed (task_rec L t) else [])"
    by (simp add: f answers_departures_def rec_op_unfold split: task_op.split task_event.split)
qed

lemma departures_fold:
  "fold_until tasks_step tasks_new ops = (L, None) \<Longrightarrow>
     tr_departures_owed (task_rec L t) = owed_since t ops \<and>
     subseq (departures_of (task_rec L t)) (List.map_filter (declares t) ops) \<and>
     (Some False \<notin> answers_departures t ` set ops \<longrightarrow>
        departures_of (task_rec L t) = List.map_filter (declares t) ops)"
proof (induction ops arbitrary: L rule: rev_induct)
  case Nil
  then have "task_rec L t = task_record_default"
    by (auto simp: tasks_new_def task_rec_def task_get_def)
  then show ?case
    by (simp add: task_record_default_def departures_of_def owed_since_def List.map_filter_simps)
next
  case (snoc x ops)
  from snoc.prems obtain M where pre: "fold_until tasks_step tasks_new ops = (M, None)"
    and step: "tasks_step M x = Inr L" by (rule fold_until_snocE)
  note IH = snoc.IH [OF pre]
  have none: "declares t x = None" if "answers_departures t x \<noteq> None"
    using that by (auto simp: answers_departures_def declares_def split: task_op.splits task_event.splits)
  have one: "List.map_filter (declares t) [x] = (case declares t x of None \<Rightarrow> [] | Some p \<Rightarrow> [p])"
    by (simp add: List.map_filter_simps split: option.split)
  have "departures_of (task_rec L t) =
      (case answers_departures t x of
         None \<Rightarrow> departures_of (task_rec M t) @ List.map_filter (declares t) [x]
       | Some True \<Rightarrow> departures_of (task_rec M t)
       | Some False \<Rightarrow> map ad_declared (tr_departures_accepted (task_rec M t)))"
    using departures_step [OF step, of t] one
    by (auto simp: departures_of_def split: option.split bool.split)
  moreover have "subseq (map ad_declared (tr_departures_accepted (task_rec M t))) (List.map_filter (declares t) ops)"
    using IH unfolding departures_of_def by (meson subseq_order.order_trans subseq_order.order_refl subseq_rev_drop_many)
  ultimately show ?case
    using IH none departures_step(1) [OF step, of t] owed_since_snoc [of t ops x] one
    by (cases "answers_departures t x") (auto simp: map_filter_append list_emb_append_mono split: bool.splits)
qed

section \<open>The properties\<close>

text \<open>The log the witnesses fold: a task is registered, dispatched, declares a departure a person
  accepts, declares another, and is blocked with work left behind.\<close>

definition task_meta :: "seq \<Rightarrow> event_meta" where
  "task_meta k = \<lparr>m_seq = k, m_at = int k, m_node = Some ''work''\<rparr>"

definition sample_departure :: deviation_declared where
  "sample_departure =
     \<lparr>dd_task = ''t'', dd_from = Outcome_Dep, dd_planned = ''p'', dd_instead = ''i'', dd_why = ''w''\<rparr>"

definition sample_task_ops :: "task_op list" where
  "sample_task_ops =
     [Op_Task (Task_Registered \<lparr>tg_task = ''t'', tg_criteria = [], tg_scope = [], tg_depends_on = []\<rparr>)
        (task_meta 1),
      Op_Task (StatusChanged (status_to ''t'' Running 1)) (task_meta 2),
      Op_Task (DeviationDeclared sample_departure) (task_meta 3),
      Op_Task (DeviationResolved \<lparr>dr_task = ''t'', dr_accepted = True, dr_said = None,
        dr_respecified_by = None\<rparr>) (task_meta 4),
      Op_Task (DeviationDeclared sample_departure) (task_meta 5),
      Op_Task (StatusChanged (status_blocked ''t'' 5 (Some ''c'') (DeviationOwed
        (NonEmpty sample_departure [])))) (task_meta 6)]"

lemma sample_task_ops_fold:
  "fold_until tasks_step tasks_new sample_task_ops =
     (fst (fold_until tasks_step tasks_new sample_task_ops), None)"
proof -
  have "snd (fold_until tasks_step tasks_new sample_task_ops) = None" by code_simp
  then show ?thesis by (metis prod.collapse)
qed

text \<open>Only a registered task is ever moved: after any log, an event is refused exactly when it
  moves, departs for, or answers for a task that no event before it registered, the refusal names
  that task, and a task is in the ledger iff the log registered it.\<close>

lemma tasks_move_only_registered:
  assumes "fold_until tasks_step tasks_new ops = (L, None)"
  shows "(tasks_step L x = Inl (UnknownTask t) \<longleftrightarrow>
      subject_of x = Some t \<and> Some t \<notin> registers ` set ops) \<and>
    (task_get L t \<noteq> None \<longleftrightarrow> Some t \<in> registers ` set ops)"
proof -
  have "task_contains L t \<longleftrightarrow> Some t \<in> registers ` set ops"
    using contains_fold [OF assms, of t] by (simp add: task_contains_def tasks_new_def)
  then show ?thesis by (simp add: tasks_step_refuses_iff) (simp add: task_contains_def task_get_def)
qed

text \<open>A task stands where its latest status change left it: over any log its status, the work
  left to continue from (with the node that left it), the session to resume and the reason it stopped
  are what the last change said, each cleared by a change that names none; its commit is the last one
  a change named; its attempts count its moves into running; the first node the log names keeps it;
  and a check is judging it iff the last thing said of a check is that one started.\<close>

lemma task_record_reads_log:
  assumes "fold_until tasks_step tasks_new ops = (L, None)"
  shows "(tr_status (task_rec L t), tr_left_work (task_rec L t), tr_resumes (task_rec L t),
        tr_stop (task_rec L t)) =
      unwrap_or (last_opt (List.map_filter (status_write t) ops)) (Pending, None, None, None) \<and>
    tr_commit (task_rec L t) = unwrap_or (last_opt (List.map_filter (commit_write t) ops)) None \<and>
    tr_attempts (task_rec L t) = sum_list (map (dispatches t) ops) \<and>
    tr_owner (task_rec L t) =
      (case List.map_filter (owner_named t) ops of [] \<Rightarrow> None | n # _ \<Rightarrow> Some n) \<and>
    (t \<in> set (tl_checking L)) = unwrap_or (last_opt (List.map_filter (checking_write t) ops)) False"
proof -
  have new: "task_rec tasks_new t = task_record_default" "tl_checking tasks_new = []"
    by (simp_all add: tasks_new_def task_rec_def task_get_def)
  show ?thesis
    using latest_status.view_fold [OF assms, of t] landed.view_fold [OF assms, of t]
      dispatched.view_fold [OF assms, of t] owner_fold [OF assms, of t] judging.view_fold [OF assms, of t]
    by (simp add: new status_view_def task_record_default_def)
qed

text \<open>A departure from the plan is owed until a person answers it: after any log a task owes
  exactly the departures declared for it since its last answer, in order; what was accepted and what
  is owed are declared departures, in the order they were declared, none invented or counted twice;
  and while no answer refuses, every departure ever declared is either accepted or still owed.\<close>

lemma departures_owed_until_answered:
  assumes "fold_until tasks_step tasks_new ops = (L, None)"
  shows "tr_departures_owed (task_rec L t) =
      List.map_filter (declares t) (rev (takeWhile (\<lambda>x. answers_departures t x = None) (rev ops))) \<and>
    subseq (map ad_declared (tr_departures_accepted (task_rec L t)) @ tr_departures_owed (task_rec L t))
      (List.map_filter (declares t) ops) \<and>
    (Some False \<notin> answers_departures t ` set ops \<longrightarrow>
       map ad_declared (tr_departures_accepted (task_rec L t)) @ tr_departures_owed (task_rec L t) =
       List.map_filter (declares t) ops)"
  using departures_fold [OF assms, of t] unfolding departures_of_def owed_since_def .

end
