(* ===== verification/Stored_Event.thy ===== *)
theory Stored_Event
  imports Child_Ledger Artifact_Ledger Finding_Ledger Task_Ledger
begin

text \<open>
  The log's events (\<open>events/mod.rs\<close>): the nine domains of payloads, the name a kind is persisted
  under (\<open>events/registry.rs\<close>), an event of a kind this binary does not know, kept as written, and
  the envelope a fold reads (\<open>events/meta.rs\<close>). How a known payload is written and read is the JSON
  library's, a parameter here. The lemmas show that a kind's name is its own, and that an event of an
  unknown kind is written back as it was read.
\<close>

datatype (plugins only: code size) event_payload =
  Run_Payload run_event
| Node_Payload node_event
| Session_Payload session_event
| Tasks_Payload task_event
| Scope_Payload scope_event
| Findings_Payload finding_event
| Artifacts_Payload artifact_event
| Gates_Payload gate_event
| Children_Payload child_event

section \<open>The registry\<close>

fun run_kind :: "run_event \<Rightarrow> string" where
  "run_kind (Run_Created _) = ''run_created''"
| "run_kind (BaselineCaptured _) = ''baseline_captured''"
| "run_kind (BaselineHeld _) = ''baseline_held''"
| "run_kind (PromotionSignaled _) = ''promotion_signaled''"
| "run_kind (HostSuspended _) = ''host_suspended''"
| "run_kind (ChangesCounted _) = ''changes_counted''"
| "run_kind (Run_Paused _) = ''run_paused''"
| "run_kind (Run_Resumed _) = ''run_resumed''"
| "run_kind (Run_Moved _) = ''run_moved''"
| "run_kind (Run_Finished _) = ''run_finished''"

fun node_kind :: "node_event \<Rightarrow> string" where
  "node_kind (RunnerResolved _) = ''runner_resolved''"
| "node_kind (Node_Started _) = ''node_started''"
| "node_kind (ContextAssembled _) = ''context_assembled''"
| "node_kind (CriteriaChecked _) = ''criteria_checked''"
| "node_kind (ScopeChecked _) = ''scope_checked''"
| "node_kind (Node_Finished _) = ''node_finished''"
| "node_kind (Node_Failed _) = ''node_failed''"
| "node_kind (HookExecuted _) = ''hook_executed''"
| "node_kind (NodeRerouted _) = ''node_rerouted''"
| "node_kind (PullRequestOpened _) = ''pull_request_opened''"

fun session_kind :: "session_event \<Rightarrow> string" where
  "session_kind (Session_Opened _) = ''agent_session_opened''"
| "session_kind (Session_Message _) = ''agent_message''"
| "session_kind (CapabilityDegraded _) = ''capability_degraded''"
| "session_kind (WriteRefused _) = ''write_refused''"
| "session_kind (StopRefused _) = ''stop_refused''"
| "session_kind (WriteFormatted _) = ''write_formatted''"
| "session_kind (RailFailed _) = ''rail_failed''"
| "session_kind (RailSummary _) = ''rail_summary''"
| "session_kind (RunToolFailed _) = ''run_tool_failed''"
| "session_kind (RunToolRefused _) = ''run_tool_refused''"
| "session_kind (ServiceUnreachable _ _) = ''service_unreachable''"
| "session_kind (session_event.ServiceReachable _) = ''service_reachable''"
| "session_kind (BestEffortFailed _) = ''best_effort_failed''"

fun task_kind :: "task_event \<Rightarrow> string" where
  "task_kind (Task_Registered _) = ''task_registered''"
| "task_kind (StatusChanged _) = ''task_status_changed''"
| "task_kind (CheckStarted _) = ''task_check_started''"
| "task_kind (CheckAnswered _) = ''task_check_answered''"
| "task_kind (DeviationDeclared _) = ''deviation_declared''"
| "task_kind (DeviationResolved _) = ''deviation_resolved''"
| "task_kind (CriterionDeclaredUnpassable _) = ''criterion_declared_unpassable''"
| "task_kind (ShapesRead _) = ''shapes_read''"

fun scope_kind :: "scope_event \<Rightarrow> string" where
  "scope_kind (Scope_Requested _) = ''scope_expansion_requested''"
| "scope_kind (Scope_Granted _) = ''scope_expansion_granted''"
| "scope_kind (Scope_Denied _) = ''scope_expansion_denied''"
| "scope_kind (Scope_Derived _) = ''scope_derived''"
| "scope_kind (Scope_Withdrawn _) = ''scope_expansion_withdrawn''"

fun finding_kind :: "finding_event \<Rightarrow> string" where
  "finding_kind (Finding_Posted _) = ''finding_posted''"
| "finding_kind (Finding_Updated _) = ''finding_updated''"
| "finding_kind (Finding_Withdrawn _) = ''finding_withdrawn''"
| "finding_kind (Finding_Refused _) = ''finding_refused''"
| "finding_kind (Finding_Answered _) = ''finding_answered''"
| "finding_kind (Finding_Proved _) = ''finding_proved''"
| "finding_kind (Finding_Settled _) = ''finding_settled''"

fun artifact_event_kind :: "artifact_event \<Rightarrow> string" where
  "artifact_event_kind (Artifact_Written _) = ''artifact_written''"
| "artifact_event_kind (Artifact_Submitted _) = ''artifact_submitted''"
| "artifact_event_kind (Artifact_Accepted _) = ''artifact_accepted''"

fun gate_kind :: "gate_event \<Rightarrow> string" where
  "gate_kind (Gate_Waiting _) = ''gate_waiting''"
| "gate_kind (Gate_Resolved _) = ''gate_resolved''"
| "gate_kind (QuestionsAsked _) = ''questions_asked''"
| "gate_kind (QuestionsAnswered _) = ''questions_answered''"
| "gate_kind (AskingOpened _) = ''asking_opened''"

fun child_kind :: "child_event \<Rightarrow> string" where
  "child_kind (LoopIteration _) = ''loop_iteration''"
| "child_kind (Child_Created _) = ''child_run_created''"
| "child_kind (Child_Finished _) = ''child_run_finished''"

definition payload_kind :: "event_payload \<Rightarrow> string" where
  "payload_kind p =
     (case p of
        Run_Payload e \<Rightarrow> run_kind e
      | Node_Payload e \<Rightarrow> node_kind e
      | Session_Payload e \<Rightarrow> session_kind e
      | Tasks_Payload e \<Rightarrow> task_kind e
      | Scope_Payload e \<Rightarrow> scope_kind e
      | Findings_Payload e \<Rightarrow> finding_kind e
      | Artifacts_Payload e \<Rightarrow> artifact_event_kind e
      | Gates_Payload e \<Rightarrow> gate_kind e
      | Children_Payload e \<Rightarrow> child_kind e)"

definition kinds :: "string list" where
  "kinds =
     [''run_created'', ''runner_resolved'', ''baseline_captured'', ''baseline_held'', ''node_started'',
      ''agent_session_opened'', ''agent_message'', ''artifact_written'', ''context_assembled'',
      ''task_registered'', ''criteria_checked'', ''task_status_changed'', ''task_check_started'',
      ''task_check_answered'', ''deviation_declared'', ''deviation_resolved'',
      ''criterion_declared_unpassable'', ''scope_checked'', ''scope_expansion_requested'',
      ''scope_expansion_granted'', ''scope_expansion_denied'', ''scope_derived'', ''shapes_read'',
      ''scope_expansion_withdrawn'', ''node_finished'', ''node_failed'', ''hook_executed'',
      ''node_rerouted'', ''pull_request_opened'', ''gate_waiting'', ''gate_resolved'',
      ''questions_asked'', ''questions_answered'', ''asking_opened'', ''loop_iteration'',
      ''finding_posted'', ''finding_updated'', ''finding_withdrawn'', ''finding_refused'',
      ''finding_answered'', ''finding_proved'', ''finding_settled'', ''artifact_submitted'',
      ''artifact_accepted'', ''promotion_signaled'', ''child_run_created'', ''child_run_finished'',
      ''capability_degraded'', ''write_refused'', ''stop_refused'', ''write_formatted'',
      ''rail_failed'', ''rail_summary'', ''run_tool_failed'', ''run_tool_refused'',
      ''service_unreachable'', ''service_reachable'', ''best_effort_failed'', ''host_suspended'',
      ''changes_counted'', ''run_paused'', ''run_resumed'', ''run_moved'', ''run_finished'']"

section \<open>Stored events\<close>

text \<open>A JSON object is its fields by name; a field is a string, or text nothing here reads inside.\<close>

datatype json_value = J_String string | J_Other json

type_synonym json_object = "(string, json_value) omap"

record unknown_event =
  un_kind :: string
  un_schema_version :: u32
  un_payload :: json_object

datatype (plugins only: code size) event_body = Known event_payload | Unknown unknown_event

definition kind_version :: u32 where
  "kind_version = 1"

definition body_kind :: "event_body \<Rightarrow> string" where
  "body_kind b = (case b of Known p \<Rightarrow> payload_kind p | Unknown u \<Rightarrow> un_kind u)"

definition schema_version :: "event_body \<Rightarrow> u32" where
  "schema_version b = (case b of Known _ \<Rightarrow> kind_version | Unknown u \<Rightarrow> un_schema_version u)"

datatype event_shape_error = NotAnObject | KindMissing | Payload_Misfit string

definition unknown_from_object :: "json_object \<Rightarrow> u32 \<Rightarrow> event_shape_error + unknown_event" where
  "unknown_from_object obj v =
     (case om_get obj ''kind'' of
        Some (J_String kind) \<Rightarrow>
          Inr \<lparr>un_kind = kind, un_schema_version = v, un_payload = om_del ''kind'' obj\<rparr>
      | _ \<Rightarrow> Inl KindMissing)"

definition unknown_to_object :: "unknown_event \<Rightarrow> json_object" where
  "unknown_to_object u =
     foldl (\<lambda>obj (k, v). om_put k v obj) (om_put ''kind'' (J_String (un_kind u)) []) (un_payload u)"

text \<open>\<open>read_known\<close> is the JSON library reading a payload of a kind this binary knows.\<close>

definition body_from_object ::
  "(json_object \<Rightarrow> event_payload option) \<Rightarrow> json_object \<Rightarrow> u32 \<Rightarrow> event_shape_error + event_body" where
  "body_from_object read_known obj v =
     (case om_get obj ''kind'' of
        Some (J_String kind) \<Rightarrow>
          if List.member kinds kind
          then (case read_known obj of None \<Rightarrow> Inl (Payload_Misfit kind) | Some p \<Rightarrow> Inr (Known p))
          else map_sum (\<lambda>e. e) Unknown (unknown_from_object obj v)
      | _ \<Rightarrow> Inl KindMissing)"

record stored_event =
  ev_run_id :: run_id
  ev_seq :: seq
  ev_timestamp :: instant
  ev_node_id :: "node_id option"
  ev_body :: event_body

definition payload_of :: "stored_event \<Rightarrow> event_payload option" where
  "payload_of e = (case ev_body e of Known p \<Rightarrow> Some p | Unknown _ \<Rightarrow> None)"

definition meta_of :: "stored_event \<Rightarrow> event_meta" where
  "meta_of e = \<lparr>m_seq = ev_seq e, m_at = ev_timestamp e, m_node = ev_node_id e\<rparr>"

definition event_kind_name :: "stored_event \<Rightarrow> string" where
  "event_kind_name e = body_kind (ev_body e)"

text \<open>What the engine hands to storage: a grant names what it widens.\<close>

record event_draft =
  ed_run_id :: run_id
  ed_node_id :: "node_id option"
  ed_payload :: event_payload

definition event_draft_new ::
  "run_id \<Rightarrow> node_id option \<Rightarrow> event_payload \<Rightarrow> subject_error + event_draft" where
  "event_draft_new run n p =
     (case p of
        Scope_Payload (Scope_Granted grant) \<Rightarrow>
          if sg_task grant = None \<and> n = None then Inl UngrantableSubject
          else Inr \<lparr>ed_run_id = run, ed_node_id = n, ed_payload = p\<rparr>
      | _ \<Rightarrow> Inr \<lparr>ed_run_id = run, ed_node_id = n, ed_payload = p\<rparr>)"

section \<open>The lemmas\<close>

lemma fold_put_get:
  "om_ok m \<Longrightarrow> om_get (foldl (\<lambda>obj (k, v). om_put k v obj) acc m) k = or_else (om_get m k) (om_get acc k)"
proof (induction m arbitrary: acc)
  case Nil
  then show ?case by simp
next
  case (Cons e m)
  obtain a v where e: "e = (a, v)" by (cases e)
  have "om_get m a = None"
    using om_ok_distinct [OF Cons.prems] by (simp add: e om_get_def map_of_eq_None_iff)
  moreover have "om_ok m" using Cons.prems by (simp add: om_ok_def)
  ultimately show ?case
    using Cons.IH by (auto simp: e) (simp_all add: om_get_def)
qed

lemma fold_put_ok: "om_ok acc \<Longrightarrow> om_ok (foldl (\<lambda>obj (k, v). om_put k v obj) acc m)"
  by (induction m arbitrary: acc) (auto intro: om_ok_put)

lemma om_ext:
  assumes "om_ok m" "om_ok m'" "\<And>k. om_get m k = om_get m' k"
  shows "m = m'"
proof -
  have set: "set m = set m'" using assms om_get_mem by (metis subrelI subset_antisym)
  have d: "distinct (map fst m)" "distinct (map fst m')"
    using assms(1,2) by (simp_all add: om_ok_distinct)
  moreover have "sorted (map fst m)" "sorted (map fst m')"
    using assms(1,2) by (auto simp: om_ok_def intro: strict_sorted_imp_sorted)
  moreover have "inj_on fst (set m \<union> set m')"
    using d set by (simp add: distinct_map)
  ultimately show ?thesis
    using set by (intro map_sorted_distinct_set_unique [of fst]) simp_all
qed

lemma payload_kind_known: "payload_kind p \<in> set kinds"
proof (cases p)
  case (Run_Payload e) then show ?thesis by (cases e) (simp_all add: payload_kind_def kinds_def)
next
  case (Node_Payload e) then show ?thesis by (cases e) (simp_all add: payload_kind_def kinds_def)
next
  case (Session_Payload e) then show ?thesis by (cases e) (simp_all add: payload_kind_def kinds_def)
next
  case (Tasks_Payload e) then show ?thesis by (cases e) (simp_all add: payload_kind_def kinds_def)
next
  case (Scope_Payload e) then show ?thesis by (cases e) (simp_all add: payload_kind_def kinds_def)
next
  case (Findings_Payload e) then show ?thesis by (cases e) (simp_all add: payload_kind_def kinds_def)
next
  case (Artifacts_Payload e) then show ?thesis by (cases e) (simp_all add: payload_kind_def kinds_def)
next
  case (Gates_Payload e) then show ?thesis by (cases e) (simp_all add: payload_kind_def kinds_def)
next
  case (Children_Payload e) then show ?thesis by (cases e) (simp_all add: payload_kind_def kinds_def)
qed

lemma unknown_to_object_get:
  assumes "om_ok (un_payload u)" "om_get (un_payload u) ''kind'' = None"
  shows "om_get (unknown_to_object u) k =
    (if k = ''kind'' then Some (J_String (un_kind u)) else om_get (un_payload u) k)"
    and "om_ok (unknown_to_object u)"
proof -
  have ok: "om_ok (om_put ''kind'' (J_String (un_kind u)) [])" by (simp add: om_ok_def)
  show "om_get (unknown_to_object u) k =
    (if k = ''kind'' then Some (J_String (un_kind u)) else om_get (un_payload u) k)"
    using assms fold_put_get [OF assms(1), of "om_put ''kind'' (J_String (un_kind u)) []" k]
    by (simp add: unknown_to_object_def om_get_def)
  show "om_ok (unknown_to_object u)"
    unfolding unknown_to_object_def by (rule fold_put_ok [OF ok])
qed

lemma unknown_roundtrip:
  assumes "om_ok (un_payload u)" "om_get (un_payload u) ''kind'' = None"
  shows "unknown_from_object (unknown_to_object u) (un_schema_version u) = Inr u"
proof -
  have "om_del ''kind'' (unknown_to_object u) = un_payload u"
    by (rule om_ext) (use assms in \<open>auto simp: unknown_to_object_get om_ok_del\<close>)
  then show ?thesis
    using assms by (simp add: unknown_from_object_def unknown_to_object_get)
qed

section \<open>The properties\<close>

text \<open>A kind this binary does not know is kept as written: whatever object it was read from is what
  it is written back as, it reads back as itself under the version it was stored with, and it is never
  taken for a payload this binary knows, nor a known kind for an unknown one.\<close>

lemma unknown_kind_kept_as_written:
  assumes "om_ok obj" "om_get obj ''kind'' = Some (J_String kind)" "kind \<notin> set kinds"
  shows "(\<exists>u. body_from_object read_known obj v = Inr (Unknown u) \<and> un_kind u = kind \<and>
      schema_version (Unknown u) = v \<and> unknown_to_object u = obj \<and>
      body_from_object read_known (unknown_to_object u) v = Inr (Unknown u)) \<and>
    payload_kind p \<noteq> kind"
proof -
  let ?u = "\<lparr>un_kind = kind, un_schema_version = v, un_payload = om_del ''kind'' obj\<rparr>"
  have from_obj: "body_from_object read_known obj v = Inr (Unknown ?u)"
    using assms by (simp add: body_from_object_def unknown_from_object_def)
  have "om_ok (un_payload ?u)" "om_get (un_payload ?u) ''kind'' = None"
    using assms(1) by (simp_all add: om_ok_del)
  note got = unknown_to_object_get [OF this]
  have "unknown_to_object ?u = obj"
    by (rule om_ext) (use assms got in auto)
  with from_obj have "\<exists>u. body_from_object read_known obj v = Inr (Unknown u) \<and> un_kind u = kind \<and>
      schema_version (Unknown u) = v \<and> unknown_to_object u = obj \<and>
      body_from_object read_known (unknown_to_object u) v = Inr (Unknown u)"
    by (intro exI [of _ ?u]) (simp add: schema_version_def)
  moreover have "payload_kind p \<noteq> kind" using payload_kind_known [of p] assms(3) by auto
  ultimately show ?thesis by blast
qed

end
