(* ===== verification/Clock.thy ===== *)
theory Clock
  imports Stored_Event
begin

text \<open>
  The run's wall clock (\<open>replay/clock.rs\<close>), booked one stretch at a time as its events apply: what the
  ledgers hold open across a stretch decides the share it is booked under. The lemmas show that a
  stretch is booked under one share only, that the buckets add up to the stretches booked, and that
  what was formatted is moved out of working time and never beyond it.
\<close>

record time_spent =
  tm_working :: duration
  tm_rails :: duration
  tm_checks :: duration
  tm_decided_checks :: duration
  tm_measuring :: duration
  tm_people :: duration
  tm_offline :: duration
  tm_parked :: duration
  tm_between :: duration

definition time_spent_default :: time_spent where
  "time_spent_default =
     \<lparr>tm_working = 0, tm_rails = 0, tm_checks = 0, tm_decided_checks = 0, tm_measuring = 0,
      tm_people = 0, tm_offline = 0, tm_parked = 0, tm_between = 0\<rparr>"

definition time_total :: "time_spent \<Rightarrow> duration" where
  "time_total t =
     tm_working t + tm_rails t + tm_checks t + tm_measuring t + tm_people t + tm_offline t +
     tm_parked t + tm_between t"

record timeline =
  tl_first_at :: "instant option"
  tl_last_at :: "instant option"
  tl_booked :: time_spent
  tl_people_at :: "(node_id, duration) omap"
  tl_formatted :: duration

definition timeline_default :: timeline where
  "timeline_default =
     \<lparr>tl_first_at = None, tl_last_at = None, tl_booked = time_spent_default, tl_people_at = [],
      tl_formatted = 0\<rparr>"

definition window :: "timeline \<Rightarrow> instant option \<Rightarrow> (instant \<times> instant) option" where
  "window t until = zip_opt (tl_first_at t) (or_else until (tl_last_at t))"

section \<open>What is open across a stretch\<close>

record open_now =
  op_paused :: bool
  op_attempting :: bool
  op_attempts_offline :: bool
  op_people :: bool
  op_asked :: "node_id list"
  op_checking :: bool

definition owed_pause :: "run_ledger \<Rightarrow> pause_reason option" where
  "owed_pause run = filter_opt waits_on_a_person (map_option fst (run_paused run))"

definition open_of :: "run_ledger \<Rightarrow> node_ledger \<Rightarrow> gate_ledger \<Rightarrow> task_ledger \<Rightarrow> open_now" where
  "open_of run nodes gates tasks =
     (let owed = owed_pause run in
      \<lparr>op_paused = (rl_phase run = Paused \<and> owed = None),
       op_attempting = attempting nodes,
       op_attempts_offline = attempts_offline nodes,
       op_people = (owed \<noteq> None \<or> asking gates \<noteq> [] \<or> awaiting gates \<noteq> []),
       op_asked =
         os_of (List.map_filter (\<lambda>n. n) (asking gates) @ awaiting gates @
                (case Option.bind owed pause_gate of None \<Rightarrow> [] | Some g \<Rightarrow> [g])),
       op_checking = (tl_checking tasks \<noteq> [])\<rparr>)"

definition nothing_running :: "open_now \<Rightarrow> bool" where
  "nothing_running op \<longleftrightarrow>
     \<not> op_paused op \<and> \<not> op_attempting op \<and> \<not> op_people op \<and> \<not> op_checking op"

datatype share =
  Share_Working | Share_Checks | Share_Measuring | Share_People | Share_Offline | Share_Parked
| Share_Between

definition is_measurement :: "stored_event \<Rightarrow> bool" where
  "is_measurement e =
     (case payload_of e of Some (Run_Payload (BaselineCaptured _)) \<Rightarrow> True | _ \<Rightarrow> False)"

definition is_check :: "stored_event \<Rightarrow> bool" where
  "is_check e =
     (case payload_of e of
        Some (Node_Payload (CriteriaChecked _)) \<Rightarrow> True
      | Some (Tasks_Payload (CheckAnswered _)) \<Rightarrow> True
      | _ \<Rightarrow> False)"

definition share_across :: "open_now \<Rightarrow> share" where
  "share_across op =
     (if op_paused op then Share_Parked
      else if op_people op then Share_People
      else if op_checking op then Share_Checks
      else if op_attempts_offline op then Share_Offline
      else if op_attempting op then Share_Working
      else Share_Between)"

definition share_closing :: "open_now \<Rightarrow> stored_event \<Rightarrow> share" where
  "share_closing op closing =
     (if nothing_running op \<and> is_measurement closing then Share_Measuring
      else if \<not> op_paused op \<and> \<not> op_checking op \<and> is_check closing then Share_Checks
      else share_across op)"

fun slot_of :: "share \<Rightarrow> time_spent \<Rightarrow> duration" where
  "slot_of Share_Working t = tm_working t"
| "slot_of Share_Checks t = tm_checks t"
| "slot_of Share_Measuring t = tm_measuring t"
| "slot_of Share_People t = tm_people t"
| "slot_of Share_Offline t = tm_offline t"
| "slot_of Share_Parked t = tm_parked t"
| "slot_of Share_Between t = tm_between t"

fun add_to_slot :: "share \<Rightarrow> duration \<Rightarrow> time_spent \<Rightarrow> time_spent" where
  "add_to_slot Share_Working d t = t\<lparr>tm_working := tm_working t + d\<rparr>"
| "add_to_slot Share_Checks d t = t\<lparr>tm_checks := tm_checks t + d\<rparr>"
| "add_to_slot Share_Measuring d t = t\<lparr>tm_measuring := tm_measuring t + d\<rparr>"
| "add_to_slot Share_People d t = t\<lparr>tm_people := tm_people t + d\<rparr>"
| "add_to_slot Share_Offline d t = t\<lparr>tm_offline := tm_offline t + d\<rparr>"
| "add_to_slot Share_Parked d t = t\<lparr>tm_parked := tm_parked t + d\<rparr>"
| "add_to_slot Share_Between d t = t\<lparr>tm_between := tm_between t + d\<rparr>"

definition credit :: "(node_id, duration) omap \<Rightarrow> open_now \<Rightarrow> duration \<Rightarrow> (node_id, duration) omap" where
  "credit people op stretch = foldl (\<lambda>m n. om_entry 0 n (\<lambda>d. d + stretch) m) people (op_asked op)"

definition from_millis :: "u64 \<Rightarrow> duration" where
  "from_millis ms = unat ms * 1000000"

definition formatting :: "stored_event \<Rightarrow> duration" where
  "formatting e =
     (case payload_of e of
        Some (Session_Payload (WriteFormatted p)) \<Rightarrow> from_millis (wf_duration_ms p)
      | _ \<Rightarrow> 0)"

definition decided_results :: "stored_event \<Rightarrow> criterion_result list option" where
  "decided_results e =
     (case payload_of e of
        Some (Node_Payload (CriteriaChecked check)) \<Rightarrow>
          if cc_phase check = phase.Post then Some (cc_results check) else None
      | Some (Tasks_Payload (CheckAnswered check)) \<Rightarrow> Some (ca_results check)
      | _ \<Rightarrow> None)"

definition is_guard :: "criterion_result \<Rightarrow> bool" where
  "is_guard res \<longleftrightarrow> cr_type res = Some Guard"

definition decided :: "stored_event \<Rightarrow> duration" where
  "decided e =
     (case decided_results e of
        None \<Rightarrow> 0
      | Some results \<Rightarrow>
          if \<not> list_ex (\<lambda>res. \<not> is_guard res \<and> cr_exit_code res \<noteq> 0) results then 0
          else sum_list (map from_millis
                 (List.map_filter cr_duration_ms
                   (filter (\<lambda>res. is_guard res \<and> \<not> cr_reused res) results))))"

definition book :: "timeline \<Rightarrow> stored_event \<Rightarrow> open_now \<Rightarrow> suspensions \<Rightarrow> timeline" where
  "book t e op asleep =
     (let t1 =
        (case tl_last_at t of
           Some previous \<Rightarrow>
             let stretch = awake_between asleep previous (ev_timestamp e);
                 share = share_closing op e
             in t\<lparr>tl_booked := add_to_slot share stretch (tl_booked t),
                  tl_people_at :=
                    (if share = Share_People then credit (tl_people_at t) op stretch
                     else tl_people_at t)\<rparr>
         | None \<Rightarrow> t\<lparr>tl_first_at := Some (ev_timestamp e)\<rparr>);
          booked = tl_booked t1
      in t1\<lparr>tl_last_at := Some (ev_timestamp e),
            tl_booked := booked\<lparr>tm_decided_checks := tm_decided_checks booked + decided e\<rparr>,
            tl_formatted := tl_formatted t1 + formatting e\<rparr>)"

definition spent_until :: "timeline \<Rightarrow> open_now \<Rightarrow> suspensions \<Rightarrow> instant option \<Rightarrow> time_spent" where
  "spent_until t op asleep until =
     (let spent =
        (case (tl_last_at t, until) of
           (Some prior, Some u) \<Rightarrow>
             add_to_slot (share_across op) (awake_between asleep prior u) (tl_booked t)
         | _ \<Rightarrow> tl_booked t);
          rails = min (tl_formatted t) (tm_working spent)
      in spent\<lparr>tm_rails := rails, tm_working := tm_working spent - rails\<rparr>)"

definition people_until ::
  "timeline \<Rightarrow> open_now \<Rightarrow> suspensions \<Rightarrow> instant option \<Rightarrow> (node_id, duration) omap" where
  "people_until t op asleep until =
     (case (tl_last_at t, until) of
        (Some prior, Some u) \<Rightarrow>
          if share_across op = Share_People
          then credit (tl_people_at t) op (awake_between asleep prior u) else tl_people_at t
      | _ \<Rightarrow> tl_people_at t)"

section \<open>Booking adds up\<close>

lemma total_add_to_slot [simp]: "time_total (add_to_slot s d t) = time_total t + d"
  by (cases s) (simp_all add: time_total_def)

lemma slot_add [simp]: "slot_of s' (add_to_slot s d t) = slot_of s' t + (if s' = s then d else 0)"
  by (cases s; cases s') simp_all

lemma rails_add [simp]: "tm_rails (add_to_slot s d t) = tm_rails t"
  by (cases s) simp_all

lemma total_decided [simp]: "time_total (t\<lparr>tm_decided_checks := d\<rparr>) = time_total t"
  by (simp add: time_total_def)

lemma om_sum_credit:
  assumes "distinct ns"
  shows "unwrap_or (om_get (foldl (\<lambda>m n. om_entry 0 n (\<lambda>d. d + x) m) people ns) k) 0 =
    unwrap_or (om_get people k) (0::nat) + (if k \<in> set ns then x else 0)"
  using assms by (induction ns arbitrary: people) auto

lemma distinct_os_of: "sorted_wrt (<) (os_of xs)"
proof -
  have "sorted_wrt (<) ys \<Longrightarrow> sorted_wrt (<) (fold os_insert xs ys)" for ys
    by (induction xs arbitrary: ys) (simp_all add: sorted_os_insert)
  then show ?thesis by (simp add: os_of_def)
qed

lemma distinct_asked: "distinct (op_asked (open_of run nodes gates tasks))"
  using distinct_os_of by (auto simp: open_of_def Let_def strict_sorted_iff)

lemma credit_get:
  "distinct (op_asked op) \<Longrightarrow>
     unwrap_or (om_get (credit people op x) k) 0 =
     unwrap_or (om_get people k) 0 + (if k \<in> set (op_asked op) then x else 0)"
  unfolding credit_def by (rule om_sum_credit)

text \<open>A timeline owes: nothing booked before its first event, no rails booked, each node's share of a
  person's time within the run's.\<close>

definition timeline_inv :: "timeline \<Rightarrow> bool" where
  "timeline_inv t \<longleftrightarrow>
     (tl_first_at t = None \<longleftrightarrow> tl_last_at t = None) \<and>
     (tl_last_at t = None \<longrightarrow> time_total (tl_booked t) = 0 \<and> tm_people (tl_booked t) = 0) \<and>
     tm_rails (tl_booked t) = 0 \<and>
     (\<forall>n. unwrap_or (om_get (tl_people_at t) n) 0 \<le> tm_people (tl_booked t))"

lemma timeline_inv_default: "timeline_inv timeline_default"
  by (simp add: timeline_inv_def timeline_default_def time_spent_default_def time_total_def)

lemma people_add: "tm_people (add_to_slot s d t) = tm_people t + (if s = Share_People then d else 0)"
  by (cases s) simp_all

lemma timeline_inv_book:
  assumes "timeline_inv t" "distinct (op_asked op)"
  shows "timeline_inv (book t e op asleep)"
proof (cases "tl_last_at t")
  case None
  with assms have "unwrap_or (om_get (tl_people_at t) n) 0 = 0" for n
    unfolding timeline_inv_def by (metis le_zero_eq)
  with None assms show ?thesis by (simp add: timeline_inv_def book_def Let_def)
next
  case (Some prior)
  let ?d = "awake_between asleep prior (ev_timestamp e)"
  have "unwrap_or (om_get (credit (tl_people_at t) op ?d) n) 0 \<le> tm_people (tl_booked t) + ?d" for n
    using assms by (simp add: credit_get timeline_inv_def add_mono)
  moreover have "unwrap_or (om_get (tl_people_at t) n) 0 \<le> tm_people (tl_booked t)" for n
    using assms by (simp add: timeline_inv_def)
  ultimately show ?thesis
    using assms Some by (auto simp: timeline_inv_def book_def Let_def people_add)
qed

text \<open>What one event adds: the stretch it ends, once.\<close>

definition stretch_ending :: "timeline \<Rightarrow> stored_event \<Rightarrow> suspensions \<Rightarrow> duration" where
  "stretch_ending t e asleep =
     (case tl_last_at t of None \<Rightarrow> 0 | Some prior \<Rightarrow> awake_between asleep prior (ev_timestamp e))"

lemma book_total:
  "time_total (tl_booked (book t e op asleep)) = time_total (tl_booked t) + stretch_ending t e asleep"
  by (simp add: book_def Let_def stretch_ending_def split: option.split)

lemma book_last_at [simp]: "tl_last_at (book t e op asleep) = Some (ev_timestamp e)"
  by (simp add: book_def Let_def split: option.split)

lemma book_first_at:
  "tl_first_at (book t e op asleep) =
     (if tl_last_at t = None then Some (ev_timestamp e) else tl_first_at t)"
  by (simp add: book_def Let_def split: option.split)

lemma spent_total:
  assumes "tm_rails (tl_booked t) = 0"
  shows "time_total (spent_until t op asleep until) =
    time_total (tl_booked t) +
    (case (tl_last_at t, until) of (Some prior, Some u) \<Rightarrow> awake_between asleep prior u | _ \<Rightarrow> 0)"
proof -
  have move: "time_total (s\<lparr>tm_rails := min f (tm_working s), tm_working := tm_working s - min f (tm_working s)\<rparr>)
      = time_total s" if "tm_rails s = 0" for s f
    using that by (simp add: time_total_def)
  show ?thesis
    using assms by (simp add: spent_until_def Let_def move split: option.split)
qed

end
