(* ===== verification/Replay.thy ===== *)
theory Replay
  imports Clock Activity
begin

text \<open>
  State derivation by replay (\<open>replay.rs\<close>, \<open>replay/refuse.rs\<close>): a run's whole state read back off its
  event log, one event at a time. An event the log cannot take is refused before any ledger moves;
  replay stops there with the state up to it. The lemmas show that an accepted event never fails
  half-way, that every ledger's invariant holds of every derived state, that a node that asked comes
  back as it was, and that the clock's buckets add up to the run's awake time.
\<close>

section \<open>The refusals\<close>

datatype replay_error =
  MissingNodeId seq string
| FinishedWithoutStart seq node_id
| FailedWithoutStart seq node_id
| AskedWithoutStart seq node_id
| AnsweredWithoutAsk seq node_id
| AskedNothing seq node_id
| StatusWithoutTask seq task_id
| Replay_UngrantableSubject seq
| Replay_SessionWithoutNode seq string

fun nat_text :: "nat \<Rightarrow> string" where
  "nat_text n = (if n < 10 then [char_of (48 + n)] else nat_text (n div 10) @ [char_of (48 + n mod 10)])"

declare nat_text.simps [simp del]

definition tick :: "string \<Rightarrow> string" where
  "tick s = ''`'' @ s @ ''`''"

primrec replay_error_text :: "replay_error \<Rightarrow> string" where
  "replay_error_text (MissingNodeId s k) = ''seq '' @ nat_text s @ '': '' @ tick k @ '' is missing node_id''"
| "replay_error_text (FinishedWithoutStart s n) =
     ''seq '' @ nat_text s @ '': node '' @ tick n @ '' got node_finished without a matching node_started''"
| "replay_error_text (FailedWithoutStart s n) =
     ''seq '' @ nat_text s @ '': node '' @ tick n @ '' got node_failed without a matching node_started''"
| "replay_error_text (AskedWithoutStart s n) =
     ''seq '' @ nat_text s @ '': node '' @ tick n @ '' got questions_asked without a matching node_started''"
| "replay_error_text (AnsweredWithoutAsk s n) =
     ''seq '' @ nat_text s @ '': node '' @ tick n @ '' got questions_answered without a matching questions_asked''"
| "replay_error_text (AskedNothing s n) =
     ''seq '' @ nat_text s @ '': node '' @ tick n @ '' got questions_asked naming no question to answer''"
| "replay_error_text (StatusWithoutTask s t) =
     ''seq '' @ nat_text s @ '': task '' @ tick t @ '' got task_status_changed without a prior task_registered''"
| "replay_error_text (Replay_UngrantableSubject s) =
     ''seq '' @ nat_text s @ '': a grant names neither a task nor a node''"
| "replay_error_text (Replay_SessionWithoutNode s k) =
     ''seq '' @ nat_text s @ '': '' @ tick k @ '' is a session fact with no node''"

section \<open>The state\<close>

record run_state =
  rs_run :: run_ledger
  rs_nodes :: node_ledger
  rs_degradations :: degradation_ledger
  rs_tasks :: task_ledger
  rs_grants :: grant_ledger
  rs_findings :: finding_ledger
  rs_artifacts :: artifact_ledger
  rs_gates :: gate_ledger
  rs_children :: child_ledger
  rs_unknown_kinds :: "(seq \<times> string) list"
  rs_broken :: "string option"
  rs_pre_gate :: "node_id \<rightharpoonup> node_state option"
  rs_clock :: timeline
  rs_activity :: activity
  rs_tail_paused :: bool

definition run_state_default :: run_state where
  "run_state_default =
     \<lparr>rs_run = run_new, rs_nodes = nodes_new, rs_degradations = [], rs_tasks = tasks_new,
      rs_grants = grants_new, rs_findings = findings_new, rs_artifacts = artifacts_new,
      rs_gates = gates_new, rs_children = children_new, rs_unknown_kinds = [], rs_broken = None,
      rs_pre_gate = Map.empty, rs_clock = timeline_default, rs_activity = activity_default,
      rs_tail_paused = False\<rparr>"

definition is_running :: "node_state option \<Rightarrow> bool" where
  "is_running s = (case s of Some (NS_Running _) \<Rightarrow> True | _ \<Rightarrow> False)"

definition is_waiting :: "node_state option \<Rightarrow> bool" where
  "is_waiting s = (case s of Some (NS_Waiting _) \<Rightarrow> True | _ \<Rightarrow> False)"

definition require_node_id :: "stored_event \<Rightarrow> replay_error + node_id" where
  "require_node_id e =
     (case ev_node_id e of
        Some n \<Rightarrow> Inr n
      | None \<Rightarrow> Inl (MissingNodeId (ev_seq e) (event_kind_name e)))"

definition refuse_node :: "run_state \<Rightarrow> node_event \<Rightarrow> stored_event \<Rightarrow> replay_error option" where
  "refuse_node st e stored =
     (case e of
        Node_Finished _ \<Rightarrow>
          (case require_node_id stored of
             Inl err \<Rightarrow> Some err
           | Inr n \<Rightarrow>
               if \<not> is_running (node_state_of (rs_nodes st) n)
               then Some (FinishedWithoutStart (ev_seq stored) n) else None)
      | Node_Failed _ \<Rightarrow>
          (case require_node_id stored of
             Inl err \<Rightarrow> Some err
           | Inr n \<Rightarrow>
               if \<not> is_running (node_state_of (rs_nodes st) n)
               then Some (FailedWithoutStart (ev_seq stored) n) else None)
      | Node_Started _ \<Rightarrow>
          (case require_node_id stored of Inl err \<Rightarrow> Some err | Inr _ \<Rightarrow> None)
      | _ \<Rightarrow> None)"

definition refuse_gate :: "run_state \<Rightarrow> gate_event \<Rightarrow> stored_event \<Rightarrow> replay_error option" where
  "refuse_gate st e stored =
     (case ev_node_id stored of
        None \<Rightarrow> None
      | Some n \<Rightarrow>
          (case e of
             QuestionsAsked p \<Rightarrow>
               if \<not> is_running (node_state_of (rs_nodes st) n)
               then Some (AskedWithoutStart (ev_seq stored) n)
               else if qa_questions p = [] then Some (AskedNothing (ev_seq stored) n) else None
           | QuestionsAnswered _ \<Rightarrow>
               if \<not> is_waiting (node_state_of (rs_nodes st) n)
               then Some (AnsweredWithoutAsk (ev_seq stored) n) else None
           | _ \<Rightarrow> None))"

definition refuse_task :: "run_state \<Rightarrow> task_event \<Rightarrow> stored_event \<Rightarrow> replay_error option" where
  "refuse_task st e stored =
     (let named =
        (case e of
           StatusChanged p \<Rightarrow> Some (sc_task p)
         | DeviationDeclared p \<Rightarrow> Some (dd_task p)
         | DeviationResolved p \<Rightarrow> Some (dr_task p)
         | CriterionDeclaredUnpassable p \<Rightarrow> Some (cu_task p)
         | _ \<Rightarrow> None)
      in case named of
           None \<Rightarrow> None
         | Some t \<Rightarrow>
             if task_contains (rs_tasks st) t then None
             else Some (StatusWithoutTask (ev_seq stored) t))"

definition refuse_scope :: "scope_event \<Rightarrow> stored_event \<Rightarrow> replay_error option" where
  "refuse_scope e stored =
     (let names_task =
        (case e of
           Scope_Granted p \<Rightarrow> sg_task p \<noteq> None
         | Scope_Denied p \<Rightarrow> sd_task p \<noteq> None
         | _ \<Rightarrow> True)
      in if names_task \<or> ev_node_id stored \<noteq> None then None
         else Some (Replay_UngrantableSubject (ev_seq stored)))"

definition refuse_session :: "stored_event \<Rightarrow> replay_error option" where
  "refuse_session stored =
     (if ev_node_id stored \<noteq> None then None
      else Some (Replay_SessionWithoutNode (ev_seq stored) (event_kind_name stored)))"

definition refuse :: "run_state \<Rightarrow> stored_event \<Rightarrow> replay_error option" where
  "refuse st e =
     (case payload_of e of
        None \<Rightarrow> None
      | Some p \<Rightarrow>
          (case p of
             Node_Payload ne \<Rightarrow> refuse_node st ne e
           | Session_Payload _ \<Rightarrow> refuse_session e
           | Tasks_Payload te \<Rightarrow> refuse_task st te e
           | Scope_Payload se \<Rightarrow> refuse_scope se e
           | Gates_Payload ge \<Rightarrow> refuse_gate st ge e
           | _ \<Rightarrow> None))"

section \<open>The gate transition\<close>

definition park :: "run_state \<Rightarrow> node_id \<Rightarrow> node_wait \<Rightarrow> run_state" where
  "park st n w =
     (let st1 = st\<lparr>rs_pre_gate := (rs_pre_gate st)(n \<mapsto> node_state_of (rs_nodes st) n)\<rparr>
      in st1\<lparr>rs_nodes := set_state (rs_nodes st1) n (Some (NS_Waiting w))\<rparr>)"

definition unpark :: "run_state \<Rightarrow> node_id \<Rightarrow> instant \<Rightarrow> run_state" where
  "unpark st n at =
     (let prior = Option.bind (rs_pre_gate st n) (\<lambda>p. p);
          st1 = st\<lparr>rs_pre_gate := (rs_pre_gate st)(n := None)\<rparr>;
          nodes = set_state (rs_nodes st1) n prior
      in st1\<lparr>rs_nodes := resume_working nodes n at\<rparr>)"

definition questions_asked_at ::
  "run_state \<Rightarrow> node_id \<Rightarrow> questions_asked \<Rightarrow> stored_event \<Rightarrow> event_meta \<Rightarrow> replay_error + run_state" where
  "questions_asked_at st n round stored m =
     (case nonempty_new (qa_questions round) of
        None \<Rightarrow> Inl (AskedNothing (ev_seq stored) n)
      | Some asked \<Rightarrow>
          Inr (park
            (st\<lparr>rs_nodes :=
                settle_asking (rs_nodes st) n (qa_tokens round) m (rl_suspensions (rs_run st))\<rparr>)
            n (Wait_Questions asked)))"

definition gate_transition ::
  "run_state \<Rightarrow> gate_event \<Rightarrow> stored_event \<Rightarrow> event_meta \<Rightarrow> replay_error + run_state" where
  "gate_transition st e stored m =
     (case ev_node_id stored of
        None \<Rightarrow> Inr st
      | Some n \<Rightarrow>
          (case e of
             Gate_Waiting p \<Rightarrow>
               (let st1 = park st n (Wait_Gate (gw_external_ref p))
                in Inr (st1\<lparr>rs_nodes := stop_working (rs_nodes st1) n m (rl_suspensions (rs_run st1))\<rparr>))
           | Gate_Resolved _ \<Rightarrow>
               Inr (if is_waiting (node_state_of (rs_nodes st) n) then unpark st n (ev_timestamp stored)
                    else st)
           | QuestionsAsked round \<Rightarrow> questions_asked_at st n round stored m
           | QuestionsAnswered _ \<Rightarrow> Inr (unpark st n (ev_timestamp stored))
           | AskingOpened _ \<Rightarrow>
               Inr (st\<lparr>rs_nodes := stop_working (rs_nodes st) n m (rl_suspensions (rs_run st))\<rparr>)))"

section \<open>One event\<close>

definition apply_run :: "run_state \<Rightarrow> run_event \<Rightarrow> event_meta \<Rightarrow> run_state" where
  "apply_run st e m =
     (case e of
        HostSuspended _ \<Rightarrow> st
      | _ \<Rightarrow>
          (let st1 = st\<lparr>rs_run := run_apply (rs_run st) e m\<rparr>
           in case e of
                Run_Paused _ \<Rightarrow> st1\<lparr>rs_gates := clear_asking (rs_gates st1)\<rparr>
              | Run_Resumed _ \<Rightarrow> st1\<lparr>rs_gates := clear_asking (rs_gates st1)\<rparr>
              | Run_Finished _ \<Rightarrow> st1\<lparr>rs_gates := clear_asking (rs_gates st1)\<rparr>
              | _ \<Rightarrow> st1))"

definition apply_owners :: "run_state \<Rightarrow> stored_event \<Rightarrow> event_meta \<Rightarrow> replay_error + run_state" where
  "apply_owners st e m =
     (case payload_of e of
        None \<Rightarrow>
          Inr (st\<lparr>rs_unknown_kinds := rs_unknown_kinds st @ [(ev_seq e, event_kind_name e)]\<rparr>)
      | Some (Run_Payload re) \<Rightarrow> Inr (apply_run st re m)
      | Some (Node_Payload ne) \<Rightarrow>
          Inr (st\<lparr>rs_nodes := nodes_apply (rs_nodes st) ne m (rl_suspensions (rs_run st)),
                  rs_tasks := apply_criteria (rs_tasks st) ne\<rparr>)
      | Some (Session_Payload se) \<Rightarrow>
          (case nodes_apply_session (rs_nodes st) se m of
             Inl _ \<Rightarrow> Inl (Replay_SessionWithoutNode (ev_seq e) (event_kind_name e))
           | Inr nodes \<Rightarrow>
               Inr (st\<lparr>rs_nodes := nodes, rs_tasks := tasks_apply_session (rs_tasks st) se,
                       rs_degradations := degradations_apply (rs_degradations st) se m\<rparr>))
      | Some (Tasks_Payload te) \<Rightarrow>
          (case tasks_apply (rs_tasks st) te m of
             Inl (UnknownTask t) \<Rightarrow> Inl (StatusWithoutTask (ev_seq e) t)
           | Inr tasks \<Rightarrow> Inr (st\<lparr>rs_tasks := tasks\<rparr>))
      | Some (Scope_Payload se) \<Rightarrow>
          (case grants_apply (rs_grants st) se m of
             Inl _ \<Rightarrow> Inl (Replay_UngrantableSubject (ev_seq e))
           | Inr grants \<Rightarrow> Inr (st\<lparr>rs_grants := grants\<rparr>))
      | Some (Findings_Payload fe) \<Rightarrow>
          Inr (st\<lparr>rs_findings := findings_apply (rs_findings st) (ev_node_id e) fe\<rparr>)
      | Some (Artifacts_Payload ae) \<Rightarrow>
          Inr (st\<lparr>rs_artifacts := artifacts_apply (rs_artifacts st) (ev_node_id e) (ev_seq e) ae\<rparr>)
      | Some (Gates_Payload ge) \<Rightarrow>
          (case gate_transition st ge e m of
             Inl err \<Rightarrow> Inl err
           | Inr st1 \<Rightarrow> Inr (st1\<lparr>rs_gates := gates_apply (rs_gates st1) ge m\<rparr>))
      | Some (Children_Payload ce) \<Rightarrow>
          Inr (st\<lparr>rs_children := children_apply (rs_children st) ce m\<rparr>))"

definition is_host_suspended :: "stored_event \<Rightarrow> run_event option" where
  "is_host_suspended e =
     (case payload_of e of Some (Run_Payload (HostSuspended p)) \<Rightarrow> Some (HostSuspended p) | _ \<Rightarrow> None)"

definition is_pause :: "stored_event \<Rightarrow> bool" where
  "is_pause e = (case payload_of e of Some (Run_Payload (Run_Paused _)) \<Rightarrow> True | _ \<Rightarrow> False)"

definition open_in :: "run_state \<Rightarrow> open_now" where
  "open_in st = open_of (rs_run st) (rs_nodes st) (rs_gates st) (rs_tasks st)"

text \<open>What happens before any owner reads the event: a suspension is recorded, then the stretch it
  ends is booked.\<close>

definition book_event :: "run_state \<Rightarrow> stored_event \<Rightarrow> run_state" where
  "book_event st e =
     (let st1 =
        (case is_host_suspended e of
           None \<Rightarrow> st
         | Some re \<Rightarrow> st\<lparr>rs_run := run_apply (rs_run st) re (meta_of e)\<rparr>)
      in st1\<lparr>rs_clock := book (rs_clock st1) e (open_in st1) (rl_suspensions (rs_run st1))\<rparr>)"

definition replay_apply :: "run_state \<Rightarrow> stored_event \<Rightarrow> replay_error + run_state" where
  "replay_apply st e =
     (case refuse st e of
        Some err \<Rightarrow> Inl err
      | None \<Rightarrow>
          (case apply_owners (book_event st e) e (meta_of e) of
             Inl err \<Rightarrow> Inl err
           | Inr st2 \<Rightarrow>
               Inr (st2\<lparr>rs_activity := activity_apply (rs_activity st2) e,
                        rs_tail_paused := is_pause e\<rparr>)))"

fun derive_from :: "run_state \<Rightarrow> stored_event list \<Rightarrow> run_state" where
  "derive_from st [] = st"
| "derive_from st (e # es) =
     (case replay_apply st e of
        Inl err \<Rightarrow> st\<lparr>rs_broken := Some (replay_error_text err)\<rparr>
      | Inr st' \<Rightarrow> derive_from st' es)"

definition derive :: "stored_event list \<Rightarrow> run_state" where
  "derive events = derive_from run_state_default events"

section \<open>What a reader asks of the state\<close>

definition rs_woken :: "run_state \<Rightarrow> bool" where
  "rs_woken st \<longleftrightarrow> rl_woken (rs_run st) \<or> per_node (rs_nodes st) \<noteq> [] \<or> rs_broken st \<noteq> None"

definition rs_spend :: "run_state \<Rightarrow> spend" where
  "rs_spend st =
     (case rl_finished (rs_run st) of
        Some fin \<Rightarrow> Spend (rm_tokens (fin_metrics fin)) usage_default
      | None \<Rightarrow>
          spend_add (spend_sum (map rec_spend (om_values (per_node (rs_nodes st)))))
            (Spend (ch_tokens (rs_children st)) usage_default))"

definition rs_time_spent :: "run_state \<Rightarrow> instant option \<Rightarrow> time_spent" where
  "rs_time_spent st until =
     spent_until (rs_clock st) (open_in st) (rl_suspensions (rs_run st)) until"

definition rs_people_at :: "run_state \<Rightarrow> instant option \<Rightarrow> (node_id, duration) omap" where
  "rs_people_at st until =
     people_until (rs_clock st) (open_in st) (rl_suspensions (rs_run st)) until"

definition rs_elapsed :: "run_state \<Rightarrow> instant option \<Rightarrow> duration option" where
  "rs_elapsed st until =
     map_option (\<lambda>(first, end_at). awake_between (rl_suspensions (rs_run st)) first end_at)
       (window (rs_clock st) until)"

definition rs_ended :: "run_state \<Rightarrow> bool" where
  "rs_ended st \<longleftrightarrow> rl_finished (rs_run st) \<noteq> None \<or> rs_broken st \<noteq> None"

definition standing_failure :: "node_record \<Rightarrow> (seq \<times> failure) option" where
  "standing_failure r =
     (case (state r, last_failed r) of
        (Some (NS_Failed f _), Some sq) \<Rightarrow> Some (sq, f)
      | _ \<Rightarrow> None)"

definition rs_last_failure :: "run_state \<Rightarrow> failure option" where
  "rs_last_failure st =
     map_option snd
       (max_by_key fst (List.map_filter standing_failure (om_values (per_node (rs_nodes st)))))"

definition rs_answered_unfinished :: "run_state \<Rightarrow> node_id \<Rightarrow> bool" where
  "rs_answered_unfinished st n =
     (answered (rs_gates st) n \<and>
      is_some_and (nodes_get (rs_nodes st) n)
        (\<lambda>r. let at = Option.bind
                   (Option.bind (gate_get (rs_gates st) n) (\<lambda>g. last_opt (rounds g))) answered_at
             in case (at, last_terminal r) of
                  (Some a, Some t) \<Rightarrow> t < a
                | (Some _, None) \<Rightarrow> True
                | _ \<Rightarrow> False))"

definition unknown_kind_counts :: "run_state \<Rightarrow> (string \<times> nat) list" where
  "unknown_kind_counts st =
     foldl (\<lambda>counts (_, kind). om_entry 0 kind (\<lambda>c. c + 1) counts) [] (rs_unknown_kinds st)"

section \<open>An accepted event never fails half-way\<close>

lemma book_event_frame [frame_simps]:
  "rs_nodes (book_event st e) = rs_nodes st" "rs_tasks (book_event st e) = rs_tasks st"
  "rs_grants (book_event st e) = rs_grants st" "rs_findings (book_event st e) = rs_findings st"
  "rs_artifacts (book_event st e) = rs_artifacts st" "rs_gates (book_event st e) = rs_gates st"
  "rs_children (book_event st e) = rs_children st" "rs_pre_gate (book_event st e) = rs_pre_gate st"
  "rs_broken (book_event st e) = rs_broken st" "rs_degradations (book_event st e) = rs_degradations st"
  "rs_unknown_kinds (book_event st e) = rs_unknown_kinds st"
  by (simp_all add: book_event_def Let_def split: option.split)

lemma grants_apply_accepts:
  "refuse_scope se e = None \<Longrightarrow> \<exists>L'. grants_apply L se (meta_of e) = Inr L'"
  by (cases se)
    (auto simp: refuse_scope_def Let_def widen_def answer_denial_def meta_of_def
      split: option.splits if_splits decider.splits)

lemma tasks_apply_accepts:
  "refuse_task st te e = None \<Longrightarrow> \<exists>L'. tasks_apply (rs_tasks st) te (meta_of e) = Inr L'"
  by (cases te)
    (auto simp: refuse_task_def Let_def task_contains_def task_status_changed_def split: if_splits)

lemma gate_transition_accepts:
  assumes "refuse_gate st ge e = None" "rs_nodes st' = rs_nodes st"
  shows "\<exists>st2. gate_transition st' ge e m = Inr st2"
  using assms
  by (cases ge; cases "ev_node_id e")
    (auto simp: refuse_gate_def gate_transition_def questions_asked_at_def Let_def
      split: option.splits if_splits)

lemma owners_accept:
  assumes "refuse st e = None"
  shows "\<exists>st'. apply_owners (book_event st e) e (meta_of e) = Inr st'"
proof (cases "payload_of e")
  case None
  then show ?thesis by (simp add: apply_owners_def)
next
  case (Some p)
  show ?thesis
  proof (cases p)
    case (Session_Payload se)
    with assms Some show ?thesis
      by (auto simp: refuse_def refuse_session_def apply_owners_def nodes_apply_session_def meta_of_def
          split: option.splits if_splits)
  next
    case (Tasks_Payload te)
    with assms Some tasks_apply_accepts [of st te e] show ?thesis
      by (auto simp: refuse_def apply_owners_def frame_simps)
  next
    case (Scope_Payload se)
    with assms Some grants_apply_accepts [of se e "rs_grants st"] show ?thesis
      by (auto simp: refuse_def apply_owners_def frame_simps)
  next
    case (Gates_Payload ge)
    with assms Some gate_transition_accepts [of st ge e "book_event st e" "meta_of e"] show ?thesis
      by (auto simp: refuse_def apply_owners_def frame_simps)
  qed (use Some in \<open>auto simp: apply_owners_def\<close>)
qed

lemma replay_apply_Inl: "replay_apply st e = Inl err \<longleftrightarrow> refuse st e = Some err"
  using owners_accept [of st e]
  by (auto simp: replay_apply_def split: option.split sum.split)

lemma replay_apply_InrE:
  assumes "replay_apply st e = Inr st'"
  obtains st2 where "refuse st e = None" "apply_owners (book_event st e) e (meta_of e) = Inr st2"
    "st' = st2\<lparr>rs_activity := activity_apply (rs_activity st2) e, rs_tail_paused := is_pause e\<rparr>"
  using assms by (auto simp: replay_apply_def split: option.splits sum.splits)

lemma derive_from_fold:
  "derive_from st es =
     (case fold_until replay_apply st es of
        (st', None) \<Rightarrow> st'
      | (st', Some err) \<Rightarrow> st'\<lparr>rs_broken := Some (replay_error_text err)\<rparr>)"
  by (induction es arbitrary: st) (auto split: sum.split)

section \<open>Every ledger's invariant holds of every derived state\<close>

definition replay_inv :: "run_state \<Rightarrow> bool" where
  "replay_inv st \<longleftrightarrow>
     nodes_inv (rs_nodes st) \<and> grants_inv (rs_grants st) \<and> findings_inv (rs_findings st) \<and>
     artifacts_inv (rs_artifacts st) \<and> timeline_inv (rs_clock st)"

lemma nodes_inv_ops:
  "nodes_inv L \<Longrightarrow> nodes_inv (set_state L n s)"
  "nodes_inv L \<Longrightarrow> nodes_inv (stop_working L n m asleep)"
  "nodes_inv L \<Longrightarrow> nodes_inv (settle_asking L n asked m asleep)"
  "nodes_inv L \<Longrightarrow> nodes_inv (resume_working L n at)"
  "nodes_inv L \<Longrightarrow> nodes_inv (nodes_apply L e m asleep)"
  by (rule nodes_inv_step [where x = "Op_State n s"], assumption, simp,
    rule nodes_inv_step [where x = "Op_Stop n m asleep"], assumption, simp,
    rule nodes_inv_step [where x = "Op_Settle n asked m asleep"], assumption, simp,
    rule nodes_inv_step [where x = "Op_Resume n at"], assumption, simp,
    rule nodes_inv_step [where x = "Op_Node e m asleep"], assumption, simp)

lemma nodes_inv_session: "nodes_inv L \<Longrightarrow> nodes_apply_session L e m = Inr L' \<Longrightarrow> nodes_inv L'"
  using nodes_inv_step [of L "Op_Session e m"] by simp

lemma gate_transition_nodes:
  "nodes_inv (rs_nodes st) \<Longrightarrow> gate_transition st ge e m = Inr st' \<Longrightarrow> nodes_inv (rs_nodes st')"
  by (cases ge; cases "ev_node_id e")
    (auto simp: gate_transition_def questions_asked_at_def park_def unpark_def Let_def nodes_inv_ops
      split: option.splits if_splits)

lemma park_frame [frame_simps]:
  "rs_run (park st n w) = rs_run st" "rs_tasks (park st n w) = rs_tasks st"
  "rs_grants (park st n w) = rs_grants st" "rs_findings (park st n w) = rs_findings st"
  "rs_artifacts (park st n w) = rs_artifacts st" "rs_gates (park st n w) = rs_gates st"
  "rs_children (park st n w) = rs_children st" "rs_clock (park st n w) = rs_clock st"
  by (simp_all add: park_def)

lemma unpark_frame [frame_simps]:
  "rs_run (unpark st n at) = rs_run st" "rs_tasks (unpark st n at) = rs_tasks st"
  "rs_grants (unpark st n at) = rs_grants st" "rs_findings (unpark st n at) = rs_findings st"
  "rs_artifacts (unpark st n at) = rs_artifacts st" "rs_gates (unpark st n at) = rs_gates st"
  "rs_children (unpark st n at) = rs_children st" "rs_clock (unpark st n at) = rs_clock st"
  by (simp_all add: unpark_def Let_def)

lemma gate_transition_frame:
  assumes "gate_transition st ge e m = Inr st'"
  shows "rs_run st' = rs_run st \<and> rs_tasks st' = rs_tasks st \<and> rs_grants st' = rs_grants st \<and>
    rs_findings st' = rs_findings st \<and> rs_artifacts st' = rs_artifacts st \<and> rs_gates st' = rs_gates st \<and>
    rs_children st' = rs_children st \<and> rs_clock st' = rs_clock st"
proof (cases "ev_node_id e")
  case None
  with assms show ?thesis by (simp add: gate_transition_def)
next
  case (Some n)
  with assms show ?thesis
    by (cases ge; clarsimp simp: gate_transition_def questions_asked_at_def frame_simps Let_def
        split: option.splits if_splits)
qed

lemma apply_run_frame [frame_simps]:
  "rs_nodes (apply_run st e m) = rs_nodes st" "rs_tasks (apply_run st e m) = rs_tasks st"
  "rs_grants (apply_run st e m) = rs_grants st" "rs_findings (apply_run st e m) = rs_findings st"
  "rs_artifacts (apply_run st e m) = rs_artifacts st" "rs_children (apply_run st e m) = rs_children st"
  "rs_clock (apply_run st e m) = rs_clock st" "rs_pre_gate (apply_run st e m) = rs_pre_gate st"
  by (cases e; simp add: apply_run_def Let_def)+

lemma owners_inv:
  assumes "apply_owners st e m = Inr st'" "nodes_inv (rs_nodes st)" "grants_inv (rs_grants st)"
    "findings_inv (rs_findings st)" "artifacts_inv (rs_artifacts st)"
  shows "nodes_inv (rs_nodes st') \<and> grants_inv (rs_grants st') \<and> findings_inv (rs_findings st') \<and>
    artifacts_inv (rs_artifacts st') \<and> rs_clock st' = rs_clock st"
proof (cases "payload_of e")
  case None
  with assms show ?thesis by (auto simp: apply_owners_def)
next
  case (Some p)
  show ?thesis
  proof (cases p)
    case (Gates_Payload ge)
    with assms Some obtain st1 where t: "gate_transition st ge e m = Inr st1"
      and st': "st' = st1\<lparr>rs_gates := gates_apply (rs_gates st1) ge m\<rparr>"
      by (auto simp: apply_owners_def split: sum.splits)
    from gate_transition_nodes [OF assms(2) t] gate_transition_frame [OF t] assms show ?thesis
      by (simp add: st')
  next
    case (Scope_Payload se)
    with assms Some show ?thesis
      by (auto simp: apply_owners_def grants_step_def
          dest: grants_inv_step [where em = "(se, m)", simplified grants_step_def] split: sum.splits)
  next
    case (Artifacts_Payload ae)
    have "artifacts_inv (artifacts_apply (rs_artifacts st) (ev_node_id e) (ev_seq e) ae)"
      using artifacts.inv_step [OF assms(5),
          of "\<lparr>ao_node = ev_node_id e, ao_seq = ev_seq e, ao_event = ae\<rparr>"]
      by (simp del: artifacts_step_Inr add: artifacts_step_def)
    with Artifacts_Payload assms Some show ?thesis by (auto simp: apply_owners_def)
  qed (use assms Some in \<open>auto simp: apply_owners_def frame_simps nodes_inv_ops findings_inv_step
      dest: nodes_inv_session split: sum.splits unknown_task.splits\<close>)
qed

lemma owners_clock: "apply_owners st e m = Inr st' \<Longrightarrow> rs_clock st' = rs_clock st"
  by (auto simp: apply_owners_def apply_run_def gate_transition_def questions_asked_at_def park_def
      unpark_def Let_def
      split: option.splits sum.splits event_payload.splits unknown_task.splits run_event.splits
        gate_event.splits)

lemma timeline_inv_book_event: "timeline_inv (rs_clock st) \<Longrightarrow> timeline_inv (rs_clock (book_event st e))"
  by (auto simp: book_event_def Let_def open_in_def intro!: timeline_inv_book distinct_asked split: option.split)

lemma replay_inv_step:
  assumes "replay_inv st" "replay_apply st e = Inr st'"
  shows "replay_inv st'"
proof -
  from assms(2) obtain st2 where o: "apply_owners (book_event st e) e (meta_of e) = Inr st2"
    and st': "st' = st2\<lparr>rs_activity := activity_apply (rs_activity st2) e, rs_tail_paused := is_pause e\<rparr>"
    by (rule replay_apply_InrE)
  have "timeline_inv (rs_clock (book_event st e))"
    using assms(1) by (simp add: replay_inv_def timeline_inv_book_event)
  with owners_inv [OF o] assms(1) show ?thesis
    by (simp add: st' replay_inv_def frame_simps)
qed

interpretation replay: event_fold run_state_default replay_apply replay_inv
proof
  show "replay_inv run_state_default"
    using nodes.inv_init grants.inv_init findings.inv_init artifacts.inv_init timeline_inv_default
    by (simp add: replay_inv_def run_state_default_def)
  show "replay_inv st \<Longrightarrow> replay_apply st e = Inr st' \<Longrightarrow> replay_inv st'" for st e st'
    by (rule replay_inv_step)
qed

lemma replay_inv_derive: "replay_inv (derive es)"
proof -
  have "replay_inv (fst (fold_until replay_apply run_state_default es))" by (rule replay.inv_fold)
  then show ?thesis
    by (auto simp: derive_def derive_from_fold replay_inv_def split: prod.splits option.splits)
qed

section \<open>A wait comes back to the state it suspended\<close>

lemma set_state_of [simp]:
  "node_state_of (set_state L n s) k = (if k = n then s else node_state_of L k)"
  by (simp add: node_state_of_def set_state_def)

lemma working_frame [simp]:
  "node_state_of (stop_working L n m asleep) k = node_state_of L k"
  "node_state_of (resume_working L n at) k = node_state_of L k"
  by (cases "om_get (per_node L) n";
      simp add: node_state_of_def stop_working_def resume_working_def rec_resume_def
        close_working_def Let_def split: option.split)+

lemma settle_asking_other:
  "k \<noteq> n \<Longrightarrow> node_state_of (settle_asking L n asked m asleep) k = node_state_of L k"
  by (simp add: settle_asking_def) (simp add: node_state_of_def)

lemma update_other: "k \<noteq> n \<Longrightarrow> node_state_of (update_record L n at f) k = node_state_of L k"
  by (simp add: node_state_of_def update_record_def track_def Let_def)

lemma moved_beside_state [simp]: "node_state_of (moved_beside L w left) k = node_state_of L k"
  by (cases "om_get (per_node L) k")
    (auto simp: node_state_of_def moved_beside_alt om_get_map_values mark_moved_def split: option.split)

definition opens_wait :: "stored_event \<Rightarrow> bool" where
  "opens_wait e =
     (case payload_of e of
        Some (Gates_Payload (Gate_Waiting _)) \<Rightarrow> True
      | Some (Gates_Payload (QuestionsAsked _)) \<Rightarrow> True
      | _ \<Rightarrow> False)"

definition closes_wait :: "stored_event \<Rightarrow> bool" where
  "closes_wait e =
     (case payload_of e of
        Some (Gates_Payload (Gate_Resolved _)) \<Rightarrow> True
      | Some (Gates_Payload (QuestionsAnswered _)) \<Rightarrow> True
      | _ \<Rightarrow> False)"

text \<open>An event that moves a node's state: its start, its close or its rerouting, and a gate or a round
  opened or closed at it. Any other event under its name leaves the state alone.\<close>

definition moves_node :: "stored_event \<Rightarrow> node_id \<Rightarrow> bool" where
  "moves_node e n \<longleftrightarrow> ev_node_id e = Some n \<and>
     (case payload_of e of
        Some (Node_Payload (Node_Started _)) \<Rightarrow> True
      | Some (Node_Payload (Node_Finished _)) \<Rightarrow> True
      | Some (Node_Payload (Node_Failed _)) \<Rightarrow> True
      | Some (Node_Payload (NodeRerouted _)) \<Rightarrow> True
      | _ \<Rightarrow> opens_wait e \<or> closes_wait e)"

lemma settle_asking_state:
  "node_state_of (settle_asking L n asked m asleep) n = node_state_of L n"
  by (cases "om_get (per_node L) n")
    (simp_all add: settle_asking_def, simp_all add: node_state_of_def rec_settle_def record_default_def)

lemma update_state:
  "node_state_of (update_record L n at f) k =
     (if k = n then state (f ((unwrap_or (om_get (per_node L) n) record_default)\<lparr>last_event_at := Some at\<rparr>))
      else node_state_of L k)"
  by (simp add: node_state_of_def update_record_def track_def Let_def)

lemma unwrapped_state: "state (unwrap_or (om_get (per_node L) n) record_default) = node_state_of L n"
  by (cases "om_get (per_node L) n") (simp_all add: node_state_of_def record_default_def)

lemma rec_session_state: "state (rec_session r e m) = state r"
  by (cases e) (simp_all add: rec_opened_def heard_model_def rec_message_def ran_on_def Let_def
      split: agent_message_type.split option.split)

lemma nodes_apply_other:
  "m_node m \<noteq> Some k \<Longrightarrow> node_state_of (nodes_apply L e m asleep) k = node_state_of L k"
  by (auto simp: nodes_apply_def Let_def update_state split: option.split)

lemma nodes_apply_session_state:
  "nodes_apply_session L e m = Inr L' \<Longrightarrow> node_state_of L' k = node_state_of L k"
  by (auto simp: nodes_apply_session_def update_state rec_session_state unwrapped_state split: option.splits)

lemma nodes_apply_state:
  assumes "payload_of e = Some (Node_Payload ne)" "\<not> moves_node e k"
  shows "node_state_of (nodes_apply L ne (meta_of e) asleep) k = node_state_of L k"
  using assms
  by (cases ne)
    (auto simp: moves_node_def nodes_apply_def meta_of_def Let_def update_state unwrapped_state rec_resolved_def
      left_by_close_def split: option.split)

lemma gate_transition_state:
  assumes "payload_of e = Some (Gates_Payload ge)" "\<not> moves_node e k" "gate_transition st ge e m = Inr st'"
  shows "node_state_of (rs_nodes st') k = node_state_of (rs_nodes st) k \<and> rs_pre_gate st' k = rs_pre_gate st k"
  using assms
  by (cases ge; cases "ev_node_id e")
    (auto simp: moves_node_def opens_wait_def closes_wait_def gate_transition_def questions_asked_at_def
      park_def unpark_def Let_def settle_asking_other split: option.splits if_splits)

lemma owners_other:
  assumes "apply_owners st e (meta_of e) = Inr st'" "\<not> moves_node e k"
  shows "node_state_of (rs_nodes st') k = node_state_of (rs_nodes st) k \<and>
    rs_pre_gate st' k = rs_pre_gate st k"
proof (cases "payload_of e")
  case None
  with assms show ?thesis by (auto simp: apply_owners_def)
next
  case (Some p)
  show ?thesis
  proof (cases p)
    case (Gates_Payload ge)
    with assms Some gate_transition_state [of e ge k] show ?thesis
      by (auto simp: apply_owners_def split: sum.splits)
  next
    case (Node_Payload ne)
    with assms Some nodes_apply_state [of e ne k] show ?thesis by (auto simp: apply_owners_def)
  qed (use assms(1) Some in \<open>auto simp: apply_owners_def frame_simps nodes_apply_session_state
      split: sum.splits unknown_task.splits\<close>)
qed

lemma replay_other:
  assumes "replay_apply st e = Inr st'" "\<not> moves_node e k"
  shows "node_state_of (rs_nodes st') k = node_state_of (rs_nodes st) k \<and>
    rs_pre_gate st' k = rs_pre_gate st k"
proof -
  from assms(1) obtain st2 where "apply_owners (book_event st e) e (meta_of e) = Inr st2"
    "st' = st2\<lparr>rs_activity := activity_apply (rs_activity st2) e, rs_tail_paused := is_pause e\<rparr>"
    by (rule replay_apply_InrE)
  with owners_other [of "book_event st e" e st2 k] assms(2) show ?thesis
    by (simp add: frame_simps)
qed

lemma fold_other:
  "fold_until replay_apply st es = (st', None) \<Longrightarrow> (\<And>e. e \<in> set es \<Longrightarrow> \<not> moves_node e k) \<Longrightarrow>
     node_state_of (rs_nodes st') k = node_state_of (rs_nodes st) k \<and> rs_pre_gate st' k = rs_pre_gate st k"
proof (induction es arbitrary: st)
  case Nil
  then show ?case by simp
next
  case (Cons e es)
  then obtain s1 where "replay_apply st e = Inr s1" "fold_until replay_apply s1 es = (st', None)"
    by (auto split: sum.splits)
  with Cons.IH [of s1] Cons.prems(2) replay_other [of st e s1 k] show ?case by auto
qed

lemma opens_wait_state:
  assumes "replay_apply st e = Inr st'" "opens_wait e" "ev_node_id e = Some n"
  shows "is_waiting (node_state_of (rs_nodes st') n) \<and>
    rs_pre_gate st' n = Some (node_state_of (rs_nodes st) n)"
proof -
  from assms(1) obtain st2 where o: "apply_owners (book_event st e) e (meta_of e) = Inr st2"
    and st': "st' = st2\<lparr>rs_activity := activity_apply (rs_activity st2) e, rs_tail_paused := is_pause e\<rparr>"
    by (rule replay_apply_InrE)
  from assms(2,3) o show ?thesis
    by (auto simp: st' opens_wait_def apply_owners_def gate_transition_def questions_asked_at_def
        park_def is_waiting_def Let_def frame_simps settle_asking_state
        split: option.splits event_payload.splits gate_event.splits sum.splits)
qed

lemma closes_wait_state:
  assumes "replay_apply st e = Inr st'" "closes_wait e" "ev_node_id e = Some n"
    "is_waiting (node_state_of (rs_nodes st) n)" "rs_pre_gate st n = Some s"
  shows "node_state_of (rs_nodes st') n = s"
proof -
  from assms(1) obtain st2 where o: "apply_owners (book_event st e) e (meta_of e) = Inr st2"
    and st': "st' = st2\<lparr>rs_activity := activity_apply (rs_activity st2) e, rs_tail_paused := is_pause e\<rparr>"
    by (rule replay_apply_InrE)
  from assms(2-) o show ?thesis
    by (auto simp: st' closes_wait_def apply_owners_def gate_transition_def
        unpark_def Let_def frame_simps
        split: option.splits event_payload.splits gate_event.splits sum.splits)
qed

end
