(* ===== verification/Derivation.thy ===== *)
theory Derivation
  imports Replay
begin

text \<open>
  What a derived state owes its log, over the fold of \<open>Replay\<close>: it stops at the first event the log
  cannot take, it is derived the same in one pass or in two, a wait gives a node back as it was, and
  the run's clock adds up to its awake time. The log the witnesses fold starts a node, lets the host
  sleep, asks a question, and answers it.
\<close>

section \<open>Stopping at a refusal\<close>

lemma owners_broken: "apply_owners st e m = Inr st' \<Longrightarrow> rs_broken st' = rs_broken st"
  by (auto simp: apply_owners_def apply_run_def gate_transition_def questions_asked_at_def park_def
      unpark_def Let_def
      split: option.splits sum.splits event_payload.splits unknown_task.splits run_event.splits
        gate_event.splits)

lemma replay_broken: "replay_apply st e = Inr st' \<Longrightarrow> rs_broken st' = rs_broken st"
  by (erule replay_apply_InrE) (auto dest: owners_broken simp: frame_simps)

lemma fold_broken: "fold_until replay_apply st es = (st', r) \<Longrightarrow> rs_broken st' = rs_broken st"
  by (induction es arbitrary: st) (auto dest: replay_broken split: sum.splits)

lemma default_broken [simp]: "rs_broken run_state_default = None"
  by (simp add: run_state_default_def)

lemma derive_whole: "fold_until replay_apply run_state_default es = (st, None) \<Longrightarrow> derive es = st"
  by (simp add: derive_def derive_from_fold)

lemma derive_broken_iff:
  "rs_broken (derive es) = None \<longleftrightarrow> snd (fold_until replay_apply run_state_default es) = None"
  by (auto simp: derive_def derive_from_fold dest: fold_broken split: prod.splits option.splits)

section \<open>The clock\<close>

text \<open>A log is well timed when its events are in the order of their times, and the host it ran on slept
  only since the event before the one that says so.\<close>

definition slept_at :: "stored_event \<Rightarrow> duration option" where
  "slept_at e =
     (case payload_of e of Some (Run_Payload (HostSuspended p)) \<Rightarrow> Some (host_duration p) | _ \<Rightarrow> None)"

definition well_timed :: "stored_event list \<Rightarrow> bool" where
  "well_timed es =
     sorted_wrt (\<lambda>a b. ev_timestamp a \<le> ev_timestamp b - int (unwrap_or (slept_at b) 0)) es"

lemma owners_suspensions:
  "apply_owners st e m = Inr st' \<Longrightarrow> rl_suspensions (rs_run st') = rl_suspensions (rs_run st)"
  by (auto simp: apply_owners_def apply_run_def gate_transition_def questions_asked_at_def park_def
      unpark_def Let_def frame_simps
      split: option.splits sum.splits event_payload.splits unknown_task.splits run_event.splits
        gate_event.splits)

lemma book_event_suspensions:
  "rl_suspensions (rs_run (book_event st e)) =
     (case slept_at e of
        None \<Rightarrow> rl_suspensions (rs_run st)
      | Some d \<Rightarrow> push_suspension \<lparr>woke_at = ev_timestamp e, slept = d\<rparr> (rl_suspensions (rs_run st)))"
  by (auto simp: book_event_def Let_def slept_at_def is_host_suspended_def meta_of_def
      split: option.split event_payload.split run_event.split)

lemma book_event_clock:
  "\<exists>op. rs_clock (book_event st e) =
     book (rs_clock st) e op (rl_suspensions (rs_run (book_event st e)))"
  by (auto simp: book_event_def Let_def split: option.split)

definition clock_inv :: "run_state \<Rightarrow> bool" where
  "clock_inv st \<longleftrightarrow>
     tm_rails (tl_booked (rs_clock st)) = 0 \<and> apart (rl_suspensions (rs_run st)) \<and>
     (case (tl_first_at (rs_clock st), tl_last_at (rs_clock st)) of
        (Some f, Some l) \<Rightarrow>
          f \<le> l \<and> (\<forall>s \<in> set (rl_suspensions (rs_run st)). woke_at s \<le> l) \<and>
          time_total (tl_booked (rs_clock st)) = awake_between (rl_suspensions (rs_run st)) f l
      | (None, None) \<Rightarrow>
          rl_suspensions (rs_run st) = [] \<and> time_total (tl_booked (rs_clock st)) = 0
      | _ \<Rightarrow> False)"

lemma rails_book [simp]: "tm_rails (tl_booked (book t e op asleep)) = tm_rails (tl_booked t)"
  by (simp add: book_def Let_def split: option.split)

lemma apart_push:
  "apart ss \<Longrightarrow> \<forall>s \<in> set ss. woke_at s \<le> fell_asleep x \<Longrightarrow> apart (push_suspension x ss)"
  by (simp add: apart_def push_suspension_def sorted_wrt_append)

lemma awake_push_later:
  "t1 \<le> fell_asleep x \<Longrightarrow> awake_between (push_suspension x ss) t0 t1 = awake_between ss t0 t1"
  by (simp add: awake_between_alt asleep_between_push inside_after)

text \<open>The suspension an event records leaves every earlier stretch as it was.\<close>

lemma suspensions_after:
  assumes "apart ss" "\<forall>s \<in> set ss. woke_at s \<le> l" "l \<le> ev_timestamp e - int (unwrap_or (slept_at e) 0)"
    and "ss' = (case slept_at e of None \<Rightarrow> ss
      | Some d \<Rightarrow> push_suspension \<lparr>woke_at = ev_timestamp e, slept = d\<rparr> ss)"
  shows "apart ss' \<and> (\<forall>s \<in> set ss'. woke_at s \<le> ev_timestamp e) \<and>
    awake_between ss' f l = awake_between ss f l"
proof (cases "slept_at e")
  case None
  with assms show ?thesis by auto
next
  case (Some d)
  with assms show ?thesis
    by (auto simp: awake_push_later fell_asleep_def push_suspension_def apart_def sorted_wrt_append)
      (auto simp: awake_push_later [unfolded push_suspension_def] fell_asleep_def)
qed

lemma clock_inv_step:
  assumes "clock_inv st" "replay_apply st e = Inr st'"
    and later: "\<And>l. tl_last_at (rs_clock st) = Some l \<Longrightarrow>
      l \<le> ev_timestamp e - int (unwrap_or (slept_at e) 0)"
  shows "clock_inv st' \<and> tl_last_at (rs_clock st') = Some (ev_timestamp e)"
proof -
  from assms(2) obtain st2 where o: "apply_owners (book_event st e) e (meta_of e) = Inr st2"
    and st': "st' = st2\<lparr>rs_activity := activity_apply (rs_activity st2) e, rs_tail_paused := is_pause e\<rparr>"
    by (rule replay_apply_InrE)
  define ss where "ss = rl_suspensions (rs_run st)"
  define ss' where "ss' = rl_suspensions (rs_run (book_event st e))"
  have ss'_alt: "ss' = (case slept_at e of None \<Rightarrow> ss
      | Some d \<Rightarrow> push_suspension \<lparr>woke_at = ev_timestamp e, slept = d\<rparr> ss)"
    unfolding ss'_def ss_def by (rule book_event_suspensions)
  obtain op where clk: "rs_clock st' = book (rs_clock st) e op ss'"
    using book_event_clock [of st e] owners_clock [OF o] by (auto simp: st' ss'_def)
  have run: "rl_suspensions (rs_run st') = ss'"
    using owners_suspensions [OF o] by (simp add: st' ss'_def)
  show ?thesis
  proof (cases "tl_last_at (rs_clock st)")
    case None
    with assms(1) have "ss = []" "time_total (tl_booked (rs_clock st)) = 0"
      "tm_rails (tl_booked (rs_clock st)) = 0"
      by (auto simp: clock_inv_def ss_def split: option.splits)
    with None show ?thesis
      by (auto simp: clock_inv_def clk run ss'_alt book_first_at book_total stretch_ending_def apart_def
          push_suspension_def split: option.split)
  next
    case (Some l)
    with assms(1) obtain f where f: "tl_first_at (rs_clock st) = Some f" "f \<le> l"
      "\<forall>s \<in> set ss. woke_at s \<le> l" "time_total (tl_booked (rs_clock st)) = awake_between ss f l"
      "apart ss" "tm_rails (tl_booked (rs_clock st)) = 0"
      by (auto simp: clock_inv_def ss_def split: option.splits)
    note le = later [OF Some]
    have lt: "l \<le> ev_timestamp e" using le by simp
    note after = suspensions_after [OF f(5,3) le ss'_alt, of f]
    with awake_between_split [of ss' f l "ev_timestamp e"] f lt Some show ?thesis
      by (auto simp: clock_inv_def clk run book_first_at book_total stretch_ending_def)
  qed
qed

lemma clock_inv_fold:
  assumes "clock_inv st" "well_timed es"
    and "\<And>l e. tl_last_at (rs_clock st) = Some l \<Longrightarrow> e \<in> set es \<Longrightarrow>
      l \<le> ev_timestamp e - int (unwrap_or (slept_at e) 0)"
  shows "clock_inv (fst (fold_until replay_apply st es))"
  using assms
proof (induction es arbitrary: st)
  case Nil
  then show ?case by simp
next
  case (Cons e es)
  show ?case
  proof (cases "replay_apply st e")
    case (Inl err)
    with Cons.prems show ?thesis by simp
  next
    case (Inr st')
    have "clock_inv st' \<and> tl_last_at (rs_clock st') = Some (ev_timestamp e)"
      by (rule clock_inv_step [OF Cons.prems(1) Inr]) (simp add: Cons.prems(3))
    moreover have "well_timed es" "\<forall>b \<in> set es. ev_timestamp e \<le> ev_timestamp b - int (unwrap_or (slept_at b) 0)"
      using Cons.prems(2) by (auto simp: well_timed_def)
    ultimately have "clock_inv (fst (fold_until replay_apply st' es))"
      by (intro Cons.IH) auto
    with Inr show ?thesis by simp
  qed
qed

lemma clock_inv_derive: "well_timed es \<Longrightarrow> clock_inv (derive es)"
proof -
  assume "well_timed es"
  then have "clock_inv (fst (fold_until replay_apply run_state_default es))"
    by (rule clock_inv_fold [rotated])
      (simp_all add: clock_inv_def run_state_default_def timeline_default_def time_spent_default_def
        time_total_def run_new_def apart_def)
  then show ?thesis
    by (auto simp: derive_def derive_from_fold clock_inv_def split: prod.splits option.splits)
qed

lemma elapsed_total:
  assumes "clock_inv st" "is_none_or until (\<lambda>u. is_none_or (tl_last_at (rs_clock st)) (\<lambda>l. l \<le> u))"
  shows "rs_elapsed st until =
    map_option (\<lambda>_. time_total (rs_time_spent st until)) (tl_first_at (rs_clock st))"
proof (cases "tl_last_at (rs_clock st)")
  case None
  with assms(1) show ?thesis
    by (auto simp: clock_inv_def rs_elapsed_def window_def split: option.splits)
next
  case (Some l)
  with assms(1) obtain f where f: "tl_first_at (rs_clock st) = Some f" "f \<le> l"
    "time_total (tl_booked (rs_clock st)) = awake_between (rl_suspensions (rs_run st)) f l"
    "apart (rl_suspensions (rs_run st))" "tm_rails (tl_booked (rs_clock st)) = 0"
    by (auto simp: clock_inv_def split: option.splits)
  show ?thesis
  proof (cases until)
    case None
    with f Some show ?thesis by (simp add: rs_elapsed_def rs_time_spent_def window_def spent_total)
  next
    case (Some u)
    with assms(2) \<open>tl_last_at (rs_clock st) = Some l\<close> have "l \<le> u" by simp
    with f Some \<open>tl_last_at (rs_clock st) = Some l\<close> awake_between_split [of "rl_suspensions (rs_run st)" f l u]
    show ?thesis by (simp add: rs_elapsed_def rs_time_spent_def window_def spent_total)
  qed
qed

lemma people_within:
  assumes "timeline_inv (rs_clock st)"
  shows "unwrap_or (om_get (rs_people_at st until) n) 0 \<le> tm_people (rs_time_spent st until)"
proof -
  have "distinct (op_asked (open_in st))" by (simp add: open_in_def distinct_asked)
  with assms show ?thesis
    by (auto simp: rs_people_at_def rs_time_spent_def people_until_def spent_until_def Let_def
        credit_get people_add timeline_inv_def add_mono split: option.split)
qed

section \<open>The properties\<close>

definition log_event :: "seq \<Rightarrow> instant \<Rightarrow> event_payload \<Rightarrow> stored_event" where
  "log_event k at p =
     \<lparr>ev_run_id = ''r'', ev_seq = k, ev_timestamp = at, ev_node_id = Some ''n'', ev_body = Known p\<rparr>"

definition log_start :: stored_event where
  "log_start =
     log_event 1 0 (Node_Payload (Node_Started
       \<lparr>ns_attempt = 1, ns_from_tree = None, ns_found = None, ns_run_scope = None\<rparr>))"

definition log_asleep :: stored_event where
  "log_asleep = log_event 2 (9 * 1000000) (Run_Payload (HostSuspended \<lparr>hs_slept_ms = 4\<rparr>))"

definition log_ask :: stored_event where
  "log_ask =
     log_event 3 (12 * 1000000) (Gates_Payload (QuestionsAsked
       \<lparr>qa_hash = ''h'', qa_questions = [''q''], qa_tokens = usage_default\<rparr>))"

definition log_answer :: stored_event where
  "log_answer =
     log_event 7 (20 * 1000000) (Gates_Payload (QuestionsAnswered
       \<lparr>qw_hash = ''h'', qw_channel = Tty, qw_responder = None\<rparr>))"

definition log_asking :: stored_event where
  "log_asking = log_event 4 (12 * 1000000) (Gates_Payload (AskingOpened None))"

definition log_beside :: stored_event where
  "log_beside = log_start\<lparr>ev_seq := 5, ev_timestamp := 14 * 1000000, ev_node_id := Some ''m''\<rparr>"

definition log_accepted :: stored_event where
  "log_accepted =
     log_event 6 (20 * 1000000) (Artifacts_Payload (Artifact_Accepted
       (artifact_accepted_new (Interpreted Answers_Kind) ''h'' Answered_Origin)))"

lemmas log_defs = log_event_def log_start_def log_asleep_def log_ask_def log_answer_def log_asking_def
  log_beside_def log_accepted_def

text \<open>The rules that run the sample log.\<close>

lemmas replay_eval = log_defs replay_apply_def refuse_def payload_of_def refuse_node_def refuse_gate_def
  require_node_id_def apply_owners_def apply_run_def book_event_def Let_def is_host_suspended_def
  gate_transition_def questions_asked_at_def park_def unpark_def is_running_def is_waiting_def

lemma started_runs:
  "m_node m = Some n \<Longrightarrow>
     node_state_of (nodes_apply L (Node_Started p) m asleep) n = Some (NS_Running (ns_attempt p))"
  by (simp add: nodes_apply_def Let_def split: option.split)
    (simp_all add: node_state_of_def update_record_def track_def rec_started_def Let_def)

definition sample_log :: "stored_event list" where
  "sample_log =
     [log_start, log_ask, log_asking, log_beside, log_accepted, log_answer]"

lemma sample_log_taken: "snd (fold_until replay_apply run_state_default sample_log) = None"
  by (simp add: sample_log_def replay_eval meta_of_def started_runs settle_asking_state nodes_apply_other)

text \<open>C1. Whether an event is taken is decided before anything moves: one is turned away exactly when
  the refusal says so, with the refusal's own error, so no ledger behind it can fail half-way through an
  event and leave the others ahead.\<close>

theorem refusal_decided_before_any_move:
  "(replay_apply st e = Inl err \<longleftrightarrow> refuse st e = Some err) \<and>
   ((\<exists>st'. replay_apply st e = Inr st') \<longleftrightarrow> refuse st e = None)"
  by (cases "replay_apply st e"; cases "refuse st e") (auto simp: replay_apply_Inl dest: replay_apply_Inl [THEN iffD2])

text \<open>C2. A derived state either read the whole log, in which case it is not broken and reading on from
  it is reading the longer log; or it is the state of the events before the first one the log cannot
  take, marked with the error of that event, whatever follows.\<close>

theorem derive_stops_at_first_refusal:
  "if rs_broken (derive es) = None then derive (es @ es2) = derive_from (derive es) es2
   else \<exists>pre e post err. es = pre @ e # post \<and> rs_broken (derive pre) = None \<and>
     refuse (derive pre) e = Some err \<and>
     derive es = (derive pre)\<lparr>rs_broken := Some (replay_error_text err)\<rparr> \<and>
     derive (es @ es2) = derive es"
proof (cases "fold_until replay_apply run_state_default es")
  case (Pair st r)
  show ?thesis
  proof (cases r)
    case None
    with Pair have d: "derive es = st" by (simp add: derive_whole)
    from Pair None have "rs_broken (derive es) = None" by (simp add: derive_broken_iff)
    moreover have "derive (es @ es2) = derive_from st es2"
      using Pair None by (simp add: derive_def derive_from_fold fold_until_append)
    ultimately show ?thesis by (simp add: d)
  next
    case (Some err)
    with Pair obtain pre e post where es: "es = pre @ e # post"
      "fold_until replay_apply run_state_default pre = (st, None)" "replay_apply st e = Inl err"
      using fold_until_refused_prefix [of replay_apply run_state_default es st err] by auto
    have "derive pre = st" "rs_broken st = None"
      using es(2) fold_broken [OF es(2)] by (simp_all add: derive_whole)
    with es(3) have "refuse (derive pre) e = Some err" "rs_broken (derive pre) = None"
      by (simp_all add: replay_apply_Inl)
    moreover have "derive es = st\<lparr>rs_broken := Some (replay_error_text err)\<rparr>"
      using Pair Some by (simp add: derive_def derive_from_fold)
    moreover have "derive (es @ es2) = derive es"
      using Pair Some by (simp add: derive_def derive_from_fold fold_until_append)
    ultimately have "rs_broken (derive es) \<noteq> None \<and> (\<exists>pre e post err. es = pre @ e # post \<and>
        rs_broken (derive pre) = None \<and> refuse (derive pre) e = Some err \<and>
        derive es = (derive pre)\<lparr>rs_broken := Some (replay_error_text err)\<rparr> \<and>
        derive (es @ es2) = derive es)"
      using es(1) \<open>derive pre = st\<close>
      by (intro conjI exI [of _ pre] exI [of _ e] exI [of _ post] exI [of _ err]) simp_all
    then show ?thesis by (auto simp del: not_None_eq)
  qed
qed

text \<open>C4. A node that asked comes back as it was: whatever the run does while it waits, at other nodes
  and under its own name (the person asked, the answers accepted as its artifact), short of moving the
  node again, the answer gives it the state it had when it stopped to ask.\<close>

theorem wait_comes_back:
  assumes "fold_until replay_apply st (ask # between @ [reply]) = (st', None)"
    and "opens_wait ask" "ev_node_id ask = Some n" "closes_wait reply" "ev_node_id reply = Some n"
    and "\<forall>e \<in> set between. \<not> moves_node e n"
  shows "node_state_of (rs_nodes st') n = node_state_of (rs_nodes st) n"
proof -
  from assms(1) obtain s1 where s1: "replay_apply st ask = Inr s1"
    "fold_until replay_apply s1 (between @ [reply]) = (st', None)"
    by (auto split: sum.splits)
  from s1(2) obtain s2 where s2: "fold_until replay_apply s1 between = (s2, None)" "replay_apply s2 reply = Inr st'"
    by (rule fold_until_snocE)
  from opens_wait_state [OF s1(1) assms(2,3)] fold_other [OF s2(1), of n] assms(6)
  have "is_waiting (node_state_of (rs_nodes s2) n)" "rs_pre_gate s2 n = Some (node_state_of (rs_nodes st) n)"
    by auto
  with closes_wait_state [OF s2(2) assms(4,5)] show ?thesis by simp
qed

theorem wait_comes_back_witness:
  "node_state_of (rs_nodes (derive sample_log)) ''n'' = node_state_of (rs_nodes (derive [log_start])) ''n''"
proof -
  let ?wait = "[log_asking, log_beside, log_accepted]"
  have log: "sample_log = [log_start] @ log_ask # ?wait @ [log_answer]"
    by (simp add: sample_log_def)
  obtain st where started: "fold_until replay_apply run_state_default [log_start] = (st, None)"
    and taken: "snd (fold_until replay_apply st (log_ask # ?wait @ [log_answer])) = None"
    using sample_log_taken unfolding log fold_until_append
    by (auto split: prod.splits option.splits simp del: fold_until.simps)
  obtain st' where rest: "fold_until replay_apply st (log_ask # ?wait @ [log_answer]) = (st', None)"
    using taken by (cases "fold_until replay_apply st (log_ask # ?wait @ [log_answer])") simp
  have whole: "fold_until replay_apply run_state_default sample_log = (st', None)"
    unfolding log fold_until_append started using rest by simp
  have "node_state_of (rs_nodes st') ''n'' = node_state_of (rs_nodes st) ''n''"
    by (rule wait_comes_back [OF rest])
      (simp_all add: log_defs moves_node_def opens_wait_def closes_wait_def payload_of_def)
  with started whole show ?thesis by (simp add: derive_whole)
qed

text \<open>C3. Every stretch of a run is counted once: over a well timed log the buckets the clock reports,
  up to its last event or any later moment, add up to exactly the run's awake time, and what a node is
  credited of a person's time is never more than the run's.\<close>

theorem every_stretch_counted_once:
  assumes "well_timed es"
    and "is_none_or until (\<lambda>u. is_none_or (tl_last_at (rs_clock (derive es))) (\<lambda>l. l \<le> u))"
  shows "rs_elapsed (derive es) until =
      map_option (\<lambda>_. time_total (rs_time_spent (derive es) until)) (tl_first_at (rs_clock (derive es))) \<and>
    unwrap_or (om_get (rs_people_at (derive es) until) n) 0 \<le> tm_people (rs_time_spent (derive es) until)"
  using elapsed_total [OF clock_inv_derive [OF assms(1)] assms(2)] people_within [of "derive es"]
    replay_inv_derive [of es]
  by (simp add: replay_inv_def)

definition sleepy_log :: "stored_event list" where
  "sleepy_log = [log_start, log_asleep, log_ask, log_answer]"

lemma sleepy_log_read:
  "well_timed sleepy_log"
  "tl_first_at (rs_clock (derive sleepy_log)) = Some 0"
  "tl_last_at (rs_clock (derive sleepy_log)) = Some 20000000"
  "rl_suspensions (rs_run (derive sleepy_log)) = [\<lparr>woke_at = 9000000, slept = 4000000\<rparr>]"
  by (simp add: well_timed_def sleepy_log_def log_defs slept_at_def payload_of_def host_duration_def)
    (simp_all add: sleepy_log_def derive_def replay_eval meta_of_def started_runs settle_asking_state
      book_first_at run_state_default_def timeline_default_def run_new_def push_suspension_def
      host_duration_def)

theorem every_stretch_counted_once_witness:
  "rs_elapsed (derive sleepy_log) (Some 21000000) =
     Some (time_total (rs_time_spent (derive sleepy_log) (Some 21000000))) \<and>
   rs_elapsed (derive sleepy_log) (Some 21000000) = Some 17000000"
proof -
  have "is_none_or (Some 21000000)
    (\<lambda>u. is_none_or (tl_last_at (rs_clock (derive sleepy_log))) (\<lambda>l. l \<le> u))"
    by (simp add: sleepy_log_read)
  moreover have "rs_elapsed (derive sleepy_log) (Some 21000000) = Some 17000000"
    by (simp add: rs_elapsed_def window_def sleepy_log_read awake_between_def asleep_between_def
        inside_def fell_asleep_def Let_def)
  ultimately show ?thesis
    using every_stretch_counted_once [OF sleepy_log_read(1), of "Some 21000000" "''n''"]
    by (simp add: sleepy_log_read)
qed

end
