(* ===== verification/Workflow_Model.thy ===== *)
theory Workflow_Model
  imports Node_Events Run_Ledger Finding_Ledger Scope_Policy
begin

text \<open>
  A workflow as its author wrote it (\<open>workflow/mod.rs\<close>, \<open>workflow/node.rs\<close>, \<open>workflow/node_kind.rs\<close>,
  \<open>workflow/node_policy.rs\<close>, \<open>workflow/scope.rs\<close>, \<open>workflow/hooks.rs\<close>, \<open>workflow/keys.rs\<close>): its nodes, the
  kind of each, the walk over every node of it, and the predicates a scheduler asks of a node. The
  lemmas show that the walk, which keeps a stack, is the preorder of the node tree, and that the
  keys a node may carry cover every kind.
\<close>

section \<open>What a node declares\<close>

datatype node_permissions = Perm_ReadOnly | Perm_Edit | Perm_Full

datatype permission_profile = Profile_ReadOnly | Profile_Edit | Profile_Full

fun permissions_str :: "node_permissions \<Rightarrow> string" where
  "permissions_str Perm_ReadOnly = ''read-only''"
| "permissions_str Perm_Edit = ''edit''"
| "permissions_str Perm_Full = ''full''"

fun permissions_profile :: "node_permissions \<Rightarrow> permission_profile" where
  "permissions_profile Perm_ReadOnly = Profile_ReadOnly"
| "permissions_profile Perm_Edit = Profile_Edit"
| "permissions_profile Perm_Full = Profile_Full"

definition profile_writes_worktree :: "permission_profile \<Rightarrow> bool" where
  "profile_writes_worktree p \<longleftrightarrow> p \<noteq> Profile_ReadOnly"

datatype cli_config = Inherit | Isolated

datatype effort = Low | Medium | High | Xhigh

datatype ask_policy = Ask_Always | Ask_Required

datatype loop_until = AllTasksComplete

datatype isolation = Iso_Worktree | Iso_None

datatype default_on_failure = On_Pause | On_Abort | On_Continue

datatype node_scope = Unscoped | Scope_Globs "scope_glob list" | Scope_Run

definition scope_is_declared :: "node_scope \<Rightarrow> bool" where
  "scope_is_declared s \<longleftrightarrow> s \<noteq> Unscoped"

definition scope_globs_of :: "node_scope \<Rightarrow> scope_glob list" where
  "scope_globs_of s = (case s of Scope_Globs globs \<Rightarrow> globs | _ \<Rightarrow> [])"

definition overlap_globs :: "(string \<Rightarrow> bool) \<Rightarrow> node_scope \<Rightarrow> scope_glob list" where
  "overlap_globs compiles s =
     (case s of
        Unscoped \<Rightarrow> []
      | Scope_Globs globs \<Rightarrow> globs
      | Scope_Run \<Rightarrow> (case parse_glob compiles ''**'' of Inl _ \<Rightarrow> [] | Inr g \<Rightarrow> [g]))"

definition scope_from_iter :: "scope_glob list \<Rightarrow> node_scope" where
  "scope_from_iter globs = (if globs = [] then Unscoped else Scope_Globs globs)"

record on_failure_spec =
  of_goto :: node_id
  of_max_reroutes :: u32

datatype artifact_spec = Interpreted artifact_kind | Opaque string

definition artifact_spec_kind :: "artifact_spec \<Rightarrow> artifact_kind option" where
  "artifact_spec_kind s = (case s of Interpreted k \<Rightarrow> Some k | Opaque _ \<Rightarrow> None)"

datatype artifact_ref_id = Ref_Kind artifact_kind | Ref_Name string

record artifact_context_ref =
  ar_node :: "node_id option"
  ar_id :: artifact_ref_id

datatype run_command = Script string | Project string

datatype prompt_source = Inline string | From_File path

datatype join_policy = Join_All | Join_Any

datatype coordination = Independent | Blackboard

datatype check_builtin = BaselineCompare | CoverageGate | FindingsGate finding_severity

definition judges_the_tree :: "check_builtin \<Rightarrow> bool" where
  "judges_the_tree b = (case b of FindingsGate _ \<Rightarrow> False | _ \<Rightarrow> True)"

datatype forge_kind = Forge_PullRequest

record external_gate =
  eg_kind :: forge_kind
  eg_artifacts :: "artifact_spec list"
  eg_branch :: string

record scope_expansion_spec =
  se_mode :: scope_mode
  se_max_per_run :: "u32 option"

record mount_spec =
  mo_node :: node_id
  mo_id :: artifact_ref_id
  mo_rename :: "string option"

section \<open>A node and its kind\<close>

text \<open>Context sources and hooks are only carried by what is modelled, so they are their text.\<close>

datatype (plugins only: code size) node =
  Node
    (nd_id: node_id)
    (nd_kind: node_body)
    (nd_depends_on: "node_id list")
    (nd_scope: node_scope)
    (nd_runner: "string option")
    (nd_runners: "string list")
    (nd_agent: "string option")
    (nd_effort: "effort option")
    (nd_artifacts: "artifact_spec list option")
    (nd_hooks: "json option")
    (nd_on_failure: "on_failure_spec option")
    (nd_on_interrupt: "on_interrupt option")
    (nd_description: "string option")
    (nd_permissions: "node_permissions option")
    (nd_network: "bool option")
    (nd_context: "json list")
    (nd_skills: "string list")
    (nd_invariant: bool)
    (nd_optional: bool)
    (nd_ask: "ask_policy option")
    (nd_cli_config: "cli_config option")
and node_body =
  Prompt prompt_source
| Bash run_command
| Loop loop_until prompt_source "u32 option" "scope_expansion_spec option"
| Parallel join_policy coordination "node list"
| Check check_builtin
| Executor string json "u64 option"
| Gate string "string option" "option_id list" "(option_id \<times> node_id) list"
    "artifact_context_ref list" "external_gate option"
| Sub_Workflow string "(string \<times> string) list" isolation "mount_spec list"
| PullRequest string "string option" "bool option"

fun node_kind_name :: "node_body \<Rightarrow> string" where
  "node_kind_name (Prompt _) = ''prompt''"
| "node_kind_name (Bash _) = ''bash''"
| "node_kind_name (Loop _ _ _ _) = ''loop''"
| "node_kind_name (Parallel _ _ _) = ''parallel''"
| "node_kind_name (Check _) = ''check''"
| "node_kind_name (Executor _ _ _) = ''executor''"
| "node_kind_name (Gate _ _ _ _ _ _) = ''gate''"
| "node_kind_name (Sub_Workflow _ _ _ _) = ''workflow''"
| "node_kind_name (PullRequest _ _ _) = ''pull_request''"

definition KINDS :: "string list" where
  "KINDS = [''prompt'', ''bash'', ''loop'', ''parallel'', ''check'', ''executor'', ''gate'',
            ''workflow'', ''pull_request'']"

definition kind_keys :: "string \<Rightarrow> string list option" where
  "kind_keys k =
     (if k = ''prompt'' then Some [''prompt'']
      else if k = ''bash'' then Some [''run'']
      else if k = ''loop'' then Some [''until'', ''prompt'', ''concurrency'', ''scope_expansion'']
      else if k = ''parallel'' then Some [''join'', ''coordination'', ''nodes'']
      else if k = ''check'' then Some [''builtin'', ''max_severity'']
      else if k = ''executor'' then Some [''executor'', ''with'', ''timeout_seconds'']
      else if k = ''gate'' then
        Some [''assignee'', ''message'', ''options'', ''on'', ''shows'', ''external'']
      else if k = ''workflow'' then Some [''use'', ''inputs'', ''isolation'', ''mounts'']
      else if k = ''pull_request'' then Some [''title'', ''body'', ''receipt'']
      else None)"

definition NODE_KEYS :: "string list" where
  "NODE_KEYS =
     [''id'', ''depends_on'', ''scope'', ''runner'', ''runners'', ''agent'', ''artifacts'', ''hooks'',
      ''on_failure'', ''on_interrupt'', ''description'', ''permissions'', ''network'', ''context'',
      ''skills'', ''invariant'', ''optional'', ''ask'', ''cli_config'', ''effort'']"

definition node_keys :: "string \<Rightarrow> string list option" where
  "node_keys k = map_option (\<lambda>own. NODE_KEYS @ [''kind''] @ own) (kind_keys k)"

definition opens_resumable_session :: "node_body \<Rightarrow> bool" where
  "opens_resumable_session k = (case k of Prompt _ \<Rightarrow> True | _ \<Rightarrow> False)"

definition verifies_the_tree :: "node \<Rightarrow> bool" where
  "verifies_the_tree n \<longleftrightarrow>
     nd_invariant n \<and>
     (case nd_kind n of Bash _ \<Rightarrow> True | Check b \<Rightarrow> judges_the_tree b | _ \<Rightarrow> False)"

definition opens_session :: "node \<Rightarrow> bool" where
  "opens_session n = (case nd_kind n of Prompt _ \<Rightarrow> True | Loop _ _ _ _ \<Rightarrow> True | _ \<Rightarrow> False)"

definition node_asks :: "node \<Rightarrow> bool" where
  "node_asks n = is_some_and (nd_artifacts n)
     (list_ex (\<lambda>s. artifact_spec_kind s = Some Questions_Kind))"

definition writes_worktree :: "node \<Rightarrow> bool" where
  "writes_worktree n =
     is_none_or (nd_permissions n) (\<lambda>p. profile_writes_worktree (permissions_profile p))"

text \<open>\<open>scope::audits\<close>, and \<open>worktree::lands_units\<close>.\<close>

definition audits :: "node \<Rightarrow> bool" where
  "audits n \<longleftrightarrow> \<not> writes_worktree n \<or> scope_is_declared (nd_scope n)"

definition is_loop :: "node \<Rightarrow> bool" where
  "is_loop n = (case nd_kind n of Loop _ _ _ _ \<Rightarrow> True | _ \<Rightarrow> False)"

definition lands_units :: "node \<Rightarrow> bool" where
  "lands_units n \<longleftrightarrow> is_loop n \<or> audits n"

section \<open>The workflow\<close>

datatype mode_include = Include_All | Include_Nodes "node_id list"

record mode_spec =
  ms_include :: mode_include
  ms_ask :: "ask_policy option"

text \<open>Modes are an \<open>IndexMap\<close>: entries in the order they were declared.\<close>

record workflow =
  wf_name :: string
  wf_description :: "string option"
  wf_modes :: "(mode_name \<times> mode_spec) list option"
  wf_inputs :: "(string, json) omap"
  wf_node_defaults :: "json option"
  wf_nodes :: "node list"
  wf_yunta_schema :: "json option"
  wf_on_finish :: "json list"

definition default_mode :: mode_name where
  "default_mode = ''default''"

definition first_mode :: "workflow \<Rightarrow> mode_name" where
  "first_mode w =
     (case wf_modes w of Some ((m, _) # _) \<Rightarrow> m | _ \<Rightarrow> default_mode)"

definition mode_named :: "workflow \<Rightarrow> mode_name \<Rightarrow> mode_spec option" where
  "mode_named w m = Option.bind (wf_modes w) (\<lambda>modes. map_of modes m)"

definition workflow_ask :: "workflow \<Rightarrow> node \<Rightarrow> mode_name \<Rightarrow> ask_policy" where
  "workflow_ask w n m =
     unwrap_or (or_else (nd_ask n) (Option.bind (mode_named w m) ms_ask)) Ask_Always"

definition dependents :: "workflow \<Rightarrow> node_id \<Rightarrow> node_id list" where
  "dependents w i = map nd_id (filter (\<lambda>n. i \<in> set (nd_depends_on n)) (wf_nodes w))"

definition children :: "node \<Rightarrow> node list" where
  "children n = (case nd_kind n of Parallel _ _ ns \<Rightarrow> ns | _ \<Rightarrow> [])"

text \<open>\<open>NodeIter\<close>: a stack whose top is the head of the list; a group pushes its children over what is
  left, first child on top.\<close>

lemma size_children: "size_list size (children n) < size n"
  by (cases n; cases "nd_kind n") (auto simp: children_def)

function node_iter :: "node list \<Rightarrow> node list" where
  "node_iter [] = []"
| "node_iter (n # stack) = n # node_iter (children n @ stack)"
  by pat_completeness auto
termination
proof (relation "measure (size_list size)")
  fix n :: node and stack
  show "(children n @ stack, n # stack) \<in> measure (size_list size)"
    using size_children [of n] by (simp add: size_list_append)
qed simp

definition iter_nodes :: "workflow \<Rightarrow> node list" where
  "iter_nodes w = node_iter (wf_nodes w)"

definition iter_nodes_under :: "workflow \<Rightarrow> node_id list option \<Rightarrow> node list" where
  "iter_nodes_under w tops =
     node_iter (filter (\<lambda>n. is_none_or tops (\<lambda>ids. nd_id n \<in> set ids)) (wf_nodes w))"

function node_group_iter :: "(node \<times> node option) list \<Rightarrow> (node \<times> node option) list" where
  "node_group_iter [] = []"
| "node_group_iter ((n, g) # stack) =
     (n, g) # node_group_iter (map (\<lambda>child. (child, Some n)) (children n) @ stack)"
  by pat_completeness auto
termination
proof (relation "measure (\<lambda>stack. size_list size (map fst stack))")
  fix n :: node and g :: "node option" and stack :: "(node \<times> node option) list"
  show "(map (\<lambda>child. (child, Some n)) (children n) @ stack, (n, g) # stack)
      \<in> measure (\<lambda>stack. size_list size (map fst stack))"
    using size_children [of n] by (simp add: size_list_append comp_def)
qed simp

definition iter_nodes_with_group :: "workflow \<Rightarrow> (node \<times> node option) list" where
  "iter_nodes_with_group w = node_group_iter (map (\<lambda>n. (n, None)) (wf_nodes w))"

section \<open>The walk is a preorder\<close>

text \<open>The walk a reader expects: a node, then what is nested in it, then its siblings.\<close>

function preorder :: "node \<Rightarrow> node list" where
  "preorder n = n # concat (map preorder (children n))"
  by pat_completeness auto
termination
proof (relation "measure size")
  fix n x :: node
  assume "x \<in> set (children n)"
  then show "(x, n) \<in> measure size"
    using size_children [of n] size_list_estimation' [of x "children n" "size x" size] by simp
qed simp

declare preorder.simps [simp del]

lemma node_iter_preorder: "node_iter stack = concat (map preorder stack)"
proof (induction stack rule: node_iter.induct)
  case (2 n stack)
  have "preorder n = n # concat (map preorder (children n))" by (rule preorder.simps)
  with 2 show ?case by (simp del: preorder.simps)
qed simp

lemma node_group_iter_nodes: "map fst (node_group_iter stack) = node_iter (map fst stack)"
  by (induction stack rule: node_group_iter.induct) (simp_all add: comp_def)

lemma node_group_iter_group:
  "(n, g) \<in> set (node_group_iter stack) \<Longrightarrow>
     (n, g) \<in> set stack \<or> (\<exists>p. g = Some p \<and> n \<in> set (children p))"
  by (induction stack rule: node_group_iter.induct) auto

text \<open>Every declared node is walked, and every child of a walked node.\<close>

lemma preorder_set: "x \<in> set (preorder n) \<longleftrightarrow> x = n \<or> (\<exists>m \<in> set (children n). x \<in> set (preorder m))"
  by (subst preorder.simps) auto

lemma preorder_self: "n \<in> set (preorder n)"
  by (subst preorder_set) blast

lemma preorder_child: "p \<in> set (preorder n) \<Longrightarrow> c \<in> set (children p) \<Longrightarrow> c \<in> set (preorder n)"
proof (induction n rule: preorder.induct)
  case (1 n)
  from "1.prems"(1) consider "p = n" | m where "m \<in> set (children n)" "p \<in> set (preorder m)"
    by (subst (asm) preorder_set) blast
  then show ?case
  proof cases
    case 1
    then show ?thesis using "1.prems"(2) preorder_self [of c] by (subst preorder_set) blast
  next
    case (2 m)
    then have "c \<in> set (preorder m)" using "1.IH" "1.prems"(2) by blast
    then show ?thesis using 2(1) by (subst preorder_set) blast
  qed
qed

section \<open>The kinds and their keys\<close>

lemma node_kind_name_in_KINDS: "node_kind_name k \<in> set KINDS"
  by (cases k) (simp_all add: KINDS_def)

lemma kind_keys_iff: "kind_keys k \<noteq> None \<longleftrightarrow> k \<in> set KINDS"
  by (simp add: kind_keys_def KINDS_def)

end
