(* ===== verification/Dependency_Graph.thy ===== *)
theory Dependency_Graph
  imports Prelude
begin

text \<open>
  The search for a cycle in a \<open>depends_on\<close> graph (\<open>graph.rs\<close>): a depth-first walk in three colours
  that keeps the path it is on, the roots in key order and the edges as declared. The recursion of
  \<open>visit\<close> takes fuel here; the lemmas show that one unit for each key is enough, that what is
  returned is a cycle of the graph, and that \<open>None\<close> is returned exactly for an acyclic graph.
\<close>

datatype color = White | Gray nat | Black

type_synonym 'a adjacency = "('a, 'a list) omap"

text \<open>The outer \<open>None\<close> is fuel that ran out; \<open>Inl\<close> is the cycle found, \<open>Inr\<close> the colours and the path
  after the walk.\<close>

fun visit :: "nat \<Rightarrow> 'a::linorder adjacency \<Rightarrow> 'a \<Rightarrow> ('a, color) omap \<Rightarrow> 'a list \<Rightarrow>
      ('a list + ('a, color) omap \<times> 'a list) option"
  and visit_deps :: "nat \<Rightarrow> 'a::linorder adjacency \<Rightarrow> 'a list \<Rightarrow> ('a, color) omap \<Rightarrow> 'a list \<Rightarrow>
      ('a list + ('a, color) omap \<times> 'a list) option" where
  "visit 0 adj i color stack = None"
| "visit (Suc fuel) adj i color stack =
     (case visit_deps fuel adj (unwrap_or (om_get adj i) [])
             (om_put i (Gray (length stack)) color) (stack @ [i]) of
        None \<Rightarrow> None
      | Some (Inl cycle) \<Rightarrow> Some (Inl cycle)
      | Some (Inr (color', stack')) \<Rightarrow> Some (Inr (om_put i Black color', butlast stack')))"
| "visit_deps fuel adj [] color stack = Some (Inr (color, stack))"
| "visit_deps fuel adj (dep # deps) color stack =
     (if om_get adj dep = None then visit_deps fuel adj deps color stack
      else case om_get color dep of
             Some (Gray pos) \<Rightarrow> Some (Inl (drop pos stack @ [dep]))
           | Some Black \<Rightarrow> visit_deps fuel adj deps color stack
           | _ \<Rightarrow>
               (case visit fuel adj dep color stack of
                  None \<Rightarrow> None
                | Some (Inl cycle) \<Rightarrow> Some (Inl cycle)
                | Some (Inr (color', stack')) \<Rightarrow> visit_deps fuel adj deps color' stack'))"

fun visit_roots :: "nat \<Rightarrow> 'a::linorder adjacency \<Rightarrow> 'a list \<Rightarrow> ('a, color) omap \<Rightarrow> 'a list \<Rightarrow>
      'a list option option" where
  "visit_roots fuel adj [] color stack = Some None"
| "visit_roots fuel adj (i # is) color stack =
     (if om_get color i = Some White then
        (case visit fuel adj i color stack of
           None \<Rightarrow> None
         | Some (Inl cycle) \<Rightarrow> Some (Some cycle)
         | Some (Inr (color', stack')) \<Rightarrow> visit_roots fuel adj is color' stack')
      else visit_roots fuel adj is color stack)"

definition find_cycle :: "'a::linorder adjacency \<Rightarrow> 'a list option option" where
  "find_cycle adj =
     visit_roots (length adj) adj (om_keys adj) (map (\<lambda>(k, _). (k, White)) adj) []"

section \<open>The graph\<close>

text \<open>An edge to a target the graph does not declare is no edge.\<close>

definition edges :: "'a adjacency \<Rightarrow> ('a \<times> 'a) set" where
  "edges adj = {(u, v). (\<exists>ds. om_get adj u = Some ds \<and> v \<in> set ds) \<and> om_get adj v \<noteq> None}"

definition path :: "'a adjacency \<Rightarrow> 'a list \<Rightarrow> bool" where
  "path adj p \<longleftrightarrow> (\<forall>i. Suc i < length p \<longrightarrow> (p ! i, p ! Suc i) \<in> edges adj)"

text \<open>A cycle as the search reports it: a path that closes on its first node and repeats no other.\<close>

definition real_cycle :: "'a adjacency \<Rightarrow> 'a list \<Rightarrow> bool" where
  "real_cycle adj c \<longleftrightarrow> 2 \<le> length c \<and> hd c = List.last c \<and> path adj c \<and> distinct (butlast c)"

lemma path_snoc:
  assumes p: "path adj p" and e: "p \<noteq> [] \<Longrightarrow> (List.last p, x) \<in> edges adj"
  shows "path adj (p @ [x])"
  unfolding path_def
proof (intro allI impI)
  fix i assume i: "Suc i < length (p @ [x])"
  show "((p @ [x]) ! i, (p @ [x]) ! Suc i) \<in> edges adj"
  proof (cases "Suc i < length p")
    case True
    then show ?thesis using p by (simp add: path_def nth_append)
  next
    case False
    then have "length p = Suc i" using i by simp
    then have "p \<noteq> []" "length p - Suc 0 = i" "i < length p" by auto
    then show ?thesis using e \<open>length p = Suc i\<close> by (simp add: nth_append last_conv_nth)
  qed
qed

lemma path_take: "path adj p \<Longrightarrow> path adj (take n p)"
  by (simp add: path_def)

lemma path_drop: "path adj p \<Longrightarrow> path adj (drop n p)"
  by (simp add: path_def)

lemma path_trancl:
  assumes "path adj p" "i < j" "j < length p"
  shows "(p ! i, p ! j) \<in> (edges adj)\<^sup>+"
  using assms(2,3)
proof (induction j)
  case (Suc j)
  have step: "(p ! j, p ! Suc j) \<in> edges adj"
    using assms(1) Suc.prems by (simp add: path_def)
  show ?case
  proof (cases "i = j")
    case True
    then show ?thesis using step by blast
  next
    case False
    then have "(p ! i, p ! j) \<in> (edges adj)\<^sup>+" using Suc by simp
    then show ?thesis using step by (rule trancl_into_trancl)
  qed
qed simp

lemma real_cycle_not_acyclic: "real_cycle adj c \<Longrightarrow> \<not> acyclic (edges adj)"
proof -
  assume c: "real_cycle adj c"
  then have "(c ! 0, c ! (length c - 1)) \<in> (edges adj)\<^sup>+"
    by (intro path_trancl) (auto simp: real_cycle_def)
  moreover have "c ! 0 = c ! (length c - 1)"
    using c by (metis hd_conv_nth last_conv_nth list.size(3) not_numeral_le_zero real_cycle_def)
  ultimately show ?thesis by (metis acyclic_def)
qed

lemma acyclic_add_closed:
  assumes ac: "acyclic (Restr E B)" and closed: "\<And>u v. u \<in> B \<Longrightarrow> (u, v) \<in> E \<Longrightarrow> v \<in> B"
    and new: "x \<notin> B" and succs: "\<And>v. (x, v) \<in> E \<Longrightarrow> v \<in> B"
  shows "acyclic (Restr E (insert x B))"
proof -
  let ?R = "Restr E (insert x B)"
  have stay: "v \<in> B \<and> (u, v) \<in> (Restr E B)\<^sup>+" if "(u, v) \<in> ?R\<^sup>+" "u \<in> B" for u v
    using that
  proof (induction rule: trancl_induct)
    case (base v)
    then show ?case using closed by blast
  next
    case (step v w)
    then have "(v, w) \<in> Restr E B" using closed by blast
    with step show ?case by (meson IntE SigmaD2 trancl.trancl_into_trancl)
  qed
  have "(u, u) \<notin> ?R\<^sup>+" for u
  proof
    assume cyc: "(u, u) \<in> ?R\<^sup>+"
    then obtain w where "(w, u) \<in> ?R" by (meson tranclE)
    then have "u \<in> B" using closed succs by blast
    then show False using stay [OF cyc] ac by (simp add: acyclic_def)
  qed
  then show ?thesis by (simp add: acyclic_def)
qed


section \<open>The walk\<close>

definition blacks :: "('a, color) omap \<Rightarrow> 'a set" where
  "blacks color = {k. om_get color k = Some Black}"

definition whites :: "('a, color) omap \<Rightarrow> 'a set" where
  "whites color = {k. om_get color k = Some White}"

lemma finite_whites [simp]: "finite (whites color)"
proof -
  have "whites color \<subseteq> fst ` set color"
    by (auto simp: whites_def om_get_def dest: map_of_SomeD intro: rev_image_eqI)
  then show ?thesis by (rule finite_subset) simp
qed

text \<open>What holds between any two steps of the walk: a colour for each key, the grey nodes are the
  path, and the black ones are closed under the edges and free of cycles.\<close>

definition walk_inv :: "'a adjacency \<Rightarrow> ('a, color) omap \<Rightarrow> 'a list \<Rightarrow> bool" where
  "walk_inv adj color stack \<longleftrightarrow>
     (\<forall>k. om_get color k = None \<longleftrightarrow> om_get adj k = None)
   \<and> (\<forall>k pos. om_get color k = Some (Gray pos) \<longleftrightarrow> pos < length stack \<and> stack ! pos = k)
   \<and> path adj stack
   \<and> (\<forall>u v. u \<in> blacks color \<longrightarrow> (u, v) \<in> edges adj \<longrightarrow> v \<in> blacks color)
   \<and> acyclic (Restr (edges adj) (blacks color))"

lemma walk_inv_path: "walk_inv adj color stack \<Longrightarrow> path adj stack"
  unfolding walk_inv_def by (elim conjE)

lemma walk_inv_key: "walk_inv adj color stack \<Longrightarrow> om_get adj d \<noteq> None \<Longrightarrow> om_get color d \<noteq> None"
proof -
  assume "walk_inv adj color stack"
  then have "\<forall>k. om_get color k = None \<longleftrightarrow> om_get adj k = None"
    unfolding walk_inv_def by (elim conjE)
  then show "om_get adj d \<noteq> None \<Longrightarrow> om_get color d \<noteq> None" by simp
qed

lemma walk_inv_grayD:
  assumes "walk_inv adj color stack" "om_get color k = Some (Gray pos)"
  shows "pos < length stack" "stack ! pos = k"
proof -
  have "\<forall>k pos. om_get color k = Some (Gray pos) \<longleftrightarrow> pos < length stack \<and> stack ! pos = k"
    using assms(1) unfolding walk_inv_def by (elim conjE)
  then have "pos < length stack \<and> stack ! pos = k" using assms(2) by simp
  then show "pos < length stack" "stack ! pos = k" by simp_all
qed

lemma walk_inv_distinct: "walk_inv adj color stack \<Longrightarrow> distinct stack"
  unfolding walk_inv_def distinct_conv_nth by (metis color.inject option.inject)

lemma walk_inv_keys:
  assumes inv: "walk_inv adj color stack" and some: "om_get color i = Some x"
  shows "\<forall>k. om_get (om_put i c color) k = None \<longleftrightarrow> om_get adj k = None"
proof
  fix k
  have all: "\<forall>k. om_get color k = None \<longleftrightarrow> om_get adj k = None"
    using inv unfolding walk_inv_def by blast
  then have "om_get adj i \<noteq> None" using some by (metis option.distinct(1))
  then show "om_get (om_put i c color) k = None \<longleftrightarrow> om_get adj k = None" using all by simp
qed

lemma walk_inv_gray:
  assumes inv: "walk_inv adj color stack" and white: "om_get color i = Some White"
    and edge: "stack \<noteq> [] \<Longrightarrow> (List.last stack, i) \<in> edges adj"
  shows "walk_inv adj (om_put i (Gray (length stack)) color) (stack @ [i])"
proof -
  have "blacks (om_put i (Gray (length stack)) color) = blacks color"
    using white by (auto simp: blacks_def)
  moreover have "path adj (stack @ [i])"
    using inv edge by (auto simp: walk_inv_def intro: path_snoc)
  moreover have "om_get (om_put i (Gray (length stack)) color) k = Some (Gray pos) \<longleftrightarrow>
      pos < length (stack @ [i]) \<and> (stack @ [i]) ! pos = k" for k pos
  proof (cases "k = i")
    case True
    have "\<not> (pos < length stack \<and> stack ! pos = i)"
      using inv white unfolding walk_inv_def by (metis color.distinct(1) option.inject)
    then show ?thesis using True by (auto simp: nth_append)
  next
    case False
    then show ?thesis using inv by (auto simp: walk_inv_def nth_append)
  qed
  moreover have "\<forall>k. om_get (om_put i (Gray (length stack)) color) k = None \<longleftrightarrow> om_get adj k = None"
    using inv white by (rule walk_inv_keys)
  moreover have "(\<forall>u v. u \<in> blacks color \<longrightarrow> (u, v) \<in> edges adj \<longrightarrow> v \<in> blacks color)
      \<and> acyclic (Restr (edges adj) (blacks color))"
    using inv unfolding walk_inv_def by blast
  ultimately show ?thesis unfolding walk_inv_def by presburger
qed

lemma walk_inv_black:
  assumes inv: "walk_inv adj color (stack @ [i])"
    and succs: "\<And>v. (i, v) \<in> edges adj \<Longrightarrow> v \<in> blacks color"
  shows "walk_inv adj (om_put i Black color) stack"
proof -
  have dist: "distinct (stack @ [i])" using inv by (rule walk_inv_distinct)
  have gray: "om_get color i = Some (Gray (length stack))"
    using inv by (auto simp: walk_inv_def)
  have b: "blacks (om_put i Black color) = insert i (blacks color)"
    by (auto simp: blacks_def)
  have new: "i \<notin> blacks color" using gray by (simp add: blacks_def)
  have "acyclic (Restr (edges adj) (insert i (blacks color)))"
    using inv succs new by (intro acyclic_add_closed) (auto simp: walk_inv_def)
  moreover have "om_get (om_put i Black color) k = Some (Gray pos) \<longleftrightarrow>
      pos < length stack \<and> stack ! pos = k" for k pos
  proof -
    have "om_get color k = Some (Gray pos) \<longleftrightarrow> pos < length (stack @ [i]) \<and> (stack @ [i]) ! pos = k"
      using inv by (auto simp: walk_inv_def)
    then show ?thesis using dist by (auto simp: nth_append in_set_conv_nth)
  qed
  moreover have "path adj stack"
    using inv path_take [of adj "stack @ [i]" "length stack"] by (simp add: walk_inv_def)
  moreover have "\<forall>k. om_get (om_put i Black color) k = None \<longleftrightarrow> om_get adj k = None"
    using inv gray by (rule walk_inv_keys)
  moreover have "\<forall>u v. u \<in> insert i (blacks color) \<longrightarrow> (u, v) \<in> edges adj \<longrightarrow> v \<in> insert i (blacks color)"
    using inv succs by (auto simp: walk_inv_def)
  ultimately show ?thesis unfolding walk_inv_def b by blast
qed


text \<open>A walk that meets a grey node closes a cycle on the path.\<close>

lemma gray_closes_cycle:
  assumes inv: "walk_inv adj color stack" and gray: "om_get color d = Some (Gray pos)"
    and edge: "(List.last stack, d) \<in> edges adj"
  shows "real_cycle adj (drop pos stack @ [d])"
proof -
  have pos: "pos < length stack" and at: "stack ! pos = d"
    using walk_inv_grayD [OF inv gray] by simp_all
  have "path adj (drop pos stack @ [d])"
  proof (rule path_snoc)
    show "path adj (drop pos stack)"
      by (rule path_drop [OF walk_inv_path [OF inv]])
    show "(List.last (drop pos stack), d) \<in> edges adj"
      using edge pos by simp
  qed
  moreover have "distinct (drop pos stack)"
    using walk_inv_distinct [OF inv] by simp
  moreover have "hd (drop pos stack @ [d]) = d"
    using pos at by (simp add: hd_drop_conv_nth)
  moreover have "2 \<le> length (drop pos stack @ [d])"
    using pos by simp
  ultimately show ?thesis by (simp add: real_cycle_def)
qed

text \<open>What a step of the walk leaves: a cycle, or the path as it was and more black nodes.\<close>

definition leaves :: "'a adjacency \<Rightarrow> ('a, color) omap \<Rightarrow> 'a list \<Rightarrow> 'a set \<Rightarrow>
    ('a list + ('a, color) omap \<times> 'a list) option \<Rightarrow> bool" where
  "leaves adj color stack done r \<longleftrightarrow>
     (case r of
        None \<Rightarrow> False
      | Some (Inl c) \<Rightarrow> real_cycle adj c
      | Some (Inr (color', stack')) \<Rightarrow>
          walk_inv adj color' stack' \<and> stack' = stack \<and> done \<subseteq> blacks color'
        \<and> blacks color \<subseteq> blacks color' \<and> whites color' \<subseteq> whites color)"

lemma key_color:
  assumes inv: "walk_inv adj color stack" and key: "om_get adj d \<noteq> None"
  obtains "om_get color d = Some White" | pos where "om_get color d = Some (Gray pos)"
    | "om_get color d = Some Black"
proof -
  have "om_get color d \<noteq> None" by (rule walk_inv_key [OF inv key])
  then obtain c where "om_get color d = Some c" by blast
  then show ?thesis using that by (cases c) auto
qed

lemma leaves_trans:
  assumes "leaves adj color stack A (Some (Inr (color', stack')))"
    and "leaves adj color' stack' B r"
  shows "leaves adj color stack (A \<union> B) r"
  using assms by (auto simp: leaves_def split: option.splits sum.splits)

lemma walk_leaves:
  fixes adj :: "'a::linorder adjacency"
  shows "walk_inv adj color stack \<Longrightarrow> om_get color i = Some White \<Longrightarrow>
      (stack \<noteq> [] \<Longrightarrow> (List.last stack, i) \<in> edges adj) \<Longrightarrow> card (whites color) \<le> fuel \<Longrightarrow>
      leaves adj color stack {i} (visit fuel adj i color stack)"
    and "walk_inv adj color stack \<Longrightarrow> stack \<noteq> [] \<Longrightarrow>
      (\<And>d. d \<in> set deps \<Longrightarrow> om_get adj d \<noteq> None \<Longrightarrow> (List.last stack, d) \<in> edges adj) \<Longrightarrow>
      card (whites color) \<le> fuel \<Longrightarrow>
      leaves adj color stack {d \<in> set deps. om_get adj d \<noteq> None} (visit_deps fuel adj deps color stack)"
proof (induction fuel adj i color stack and fuel adj deps color stack rule: visit_visit_deps.induct)
  case (1 adj i color stack)
  then have "i \<in> whites color" by (simp add: whites_def)
  then have "card (whites color) \<noteq> 0" by auto
  with 1 show ?case by simp
next
  case (2 fuel adj i color stack)
  let ?gray = "om_put i (Gray (length stack)) color" and ?deps = "unwrap_or (om_get adj i) []"
  have inv: "walk_inv adj ?gray (stack @ [i])"
    using "2.prems" by (intro walk_inv_gray) auto
  have "whites ?gray = whites color - {i}" by (auto simp: whites_def)
  then have fuel: "card (whites ?gray) \<le> fuel"
    using "2.prems" by (simp add: whites_def card_Diff_singleton)
  have adj: "om_get adj i \<noteq> None"
    using "2.prems"(1,2) unfolding walk_inv_def by (metis option.distinct(1))
  have succs: "(i, v) \<in> edges adj \<longleftrightarrow> v \<in> {d \<in> set ?deps. om_get adj d \<noteq> None}" for v
    using adj by (auto simp: edges_def unwrap_or_def)
  have sub: "leaves adj ?gray (stack @ [i]) {d \<in> set ?deps. om_get adj d \<noteq> None}
      (visit_deps fuel adj ?deps ?gray (stack @ [i]))"
    using "2.IH" inv fuel succs by auto
  show ?case
  proof (cases "visit_deps fuel adj ?deps ?gray (stack @ [i])")
    case None
    then show ?thesis using sub by (simp add: leaves_def)
  next
    case (Some r)
    show ?thesis
    proof (cases r)
      case (Inl c)
      then show ?thesis using sub Some by (simp add: leaves_def)
    next
      case (Inr st)
      obtain color' stack' where st: "st = (color', stack')" by fastforce
      have post: "walk_inv adj color' (stack @ [i])" "stack' = stack @ [i]"
        "{d \<in> set ?deps. om_get adj d \<noteq> None} \<subseteq> blacks color'"
        "blacks ?gray \<subseteq> blacks color'" "whites color' \<subseteq> whites ?gray"
        using sub Some Inr st by (auto simp: leaves_def)
      have "walk_inv adj (om_put i Black color') stack"
        using post succs by (intro walk_inv_black) auto
      moreover have "blacks (om_put i Black color') = insert i (blacks color')"
        "whites (om_put i Black color') = whites color' - {i}"
        by (auto simp: blacks_def whites_def)
      moreover have "blacks color \<subseteq> blacks color'"
        using post(4) "2.prems"(2) by (force simp: blacks_def subset_iff split: if_splits)
      ultimately show ?thesis
        using post Some Inr st \<open>whites ?gray = whites color - {i}\<close> by (auto simp: leaves_def)
    qed
  qed
next
  case (3 fuel adj color stack)
  then show ?case by (simp add: leaves_def)
next
  case (4 fuel adj dep deps color stack)
  show ?case
  proof (cases "om_get adj dep = None")
    case True
    have "{d \<in> set (dep # deps). om_get adj d \<noteq> None} = {d \<in> set deps. om_get adj d \<noteq> None}"
      using True by auto
    then show ?thesis using "4.IH"(1) True "4.prems" by simp
  next
    case False
    then obtain ds where key: "om_get adj dep = Some ds" by blast
    have split: "{d \<in> set (dep # deps). om_get adj d \<noteq> None} =
        {dep} \<union> {d \<in> set deps. om_get adj d \<noteq> None}"
      using key by auto
    have edge: "(List.last stack, dep) \<in> edges adj" using "4.prems" key by simp
    from "4.prems"(1) False show ?thesis
    proof (cases rule: key_color)
      case 1
      have first: "leaves adj color stack {dep} (visit fuel adj dep color stack)"
        using "4.prems" 1 key edge "4.IH" by simp
      show ?thesis
      proof (cases "visit fuel adj dep color stack")
        case None
        then show ?thesis using first by (simp add: leaves_def)
      next
        case (Some r)
        show ?thesis
        proof (cases r)
          case (Inl c)
          then show ?thesis using first Some 1 key by (simp add: leaves_def)
        next
          case (Inr st)
          obtain color' stack' where st: "st = (color', stack')" by fastforce
          have post: "walk_inv adj color' stack" "stack' = stack" "whites color' \<subseteq> whites color"
            using first Some Inr st by (auto simp: leaves_def)
          have "card (whites color') \<le> fuel"
            using post(3) "4.prems"(4) card_mono [OF finite_whites post(3)] by linarith
          then have "leaves adj color' stack' {d \<in> set deps. om_get adj d \<noteq> None}
              (visit_deps fuel adj deps color' stack')"
            using "4.IH" Some Inr st 1 key post "4.prems" by simp
          then have "leaves adj color stack ({dep} \<union> {d \<in> set deps. om_get adj d \<noteq> None})
              (visit_deps fuel adj deps color' stack')"
            using first Some Inr st by (intro leaves_trans) auto
          then show ?thesis using split Some Inr st 1 key by simp
        qed
      qed
    next
      case (2 pos)
      have "real_cycle adj (drop pos stack @ [dep])"
        using "4.prems"(1) 2 edge by (rule gray_closes_cycle)
      then show ?thesis using 2 key by (simp add: leaves_def)
    next
      case 3
      have "leaves adj color stack {d \<in> set deps. om_get adj d \<noteq> None} (visit_deps fuel adj deps color stack)"
        using "4.IH" 3 key "4.prems" by simp
      then have "leaves adj color stack ({dep} \<union> {d \<in> set deps. om_get adj d \<noteq> None})
          (visit_deps fuel adj deps color stack)"
        using 3 by (auto simp: leaves_def blacks_def split: option.splits sum.splits)
      then show ?thesis using split 3 key by simp
    qed
  qed
qed


section \<open>The whole search\<close>

lemma roots_leave:
  assumes "walk_inv adj color []" "card (whites color) \<le> fuel"
    and "\<And>k. k \<in> set is \<Longrightarrow> om_get adj k \<noteq> None"
  shows "case visit_roots fuel adj is color [] of
           None \<Rightarrow> False
         | Some (Some c) \<Rightarrow> real_cycle adj c
         | Some None \<Rightarrow> \<exists>color'. walk_inv adj color' [] \<and> set is \<union> blacks color \<subseteq> blacks color'"
  using assms
proof (induction "is" arbitrary: color)
  case Nil
  then show ?case by auto
next
  case (Cons i "is")
  show ?case
  proof (cases "om_get color i = Some White")
    case True
    have first: "leaves adj color [] {i} (visit fuel adj i color [])"
      using Cons.prems True by (intro walk_leaves(1)) auto
    then consider c where "visit fuel adj i color [] = Some (Inl c)" "real_cycle adj c"
      | color' where "visit fuel adj i color [] = Some (Inr (color', []))" "walk_inv adj color' []"
          "i \<in> blacks color'" "blacks color \<subseteq> blacks color'" "whites color' \<subseteq> whites color"
      by (auto simp: leaves_def split: option.splits sum.splits)
    then show ?thesis
    proof cases
      case 1
      then show ?thesis using True by simp
    next
      case (2 color')
      have "card (whites color') \<le> fuel"
        using card_mono [OF finite_whites 2(5)] Cons.prems(2) by linarith
      then show ?thesis
        using Cons.IH [OF 2(2)] Cons.prems(3) 2 True by (fastforce split: option.splits)
    qed
  next
    case False
    moreover have "om_get color i \<noteq> Some (Gray pos)" for pos
      using walk_inv_grayD(1) [OF Cons.prems(1), of i pos] by auto
    ultimately have "om_get color i = Some Black"
      using key_color [OF Cons.prems(1), of i] Cons.prems(3) by (metis list.set_intros(1))
    then show ?thesis
      using Cons.IH [OF Cons.prems(1,2)] Cons.prems(3) False
      by (fastforce simp: blacks_def split: option.splits)
  qed
qed

lemma om_get_colored:
  "om_get (map (\<lambda>(k, _). (k, White)) adj) k = (if om_get adj k = None then None else Some White)"
  by (induction adj) (auto simp: om_get_def)

lemma walk_inv_start: "walk_inv adj (map (\<lambda>(k, _). (k, White)) adj) []"
proof -
  have "blacks (map (\<lambda>(k, _). (k, White)) adj) = {}"
    by (auto simp: blacks_def om_get_colored split: if_splits)
  then show ?thesis by (simp add: walk_inv_def om_get_colored path_def acyclic_def)
qed

lemma fuel_start: "card (whites (map (\<lambda>(k, _). (k, White)) adj)) \<le> length adj"
proof -
  have "whites (map (\<lambda>(k, _). (k, White)) adj) = {k. om_get adj k \<noteq> None}"
    by (auto simp: whites_def om_get_colored)
  also have "\<dots> \<subseteq> set (map fst adj)"
    by (auto simp: om_get_def dest: map_of_SomeD intro: rev_image_eqI)
  finally have "whites (map (\<lambda>(k, _). (k, White)) adj) \<subseteq> set (map fst adj)" .
  then have "card (whites (map (\<lambda>(k, _). (k, White)) adj)) \<le> card (set (map fst adj))"
    by (intro card_mono) auto
  also have "\<dots> \<le> length adj" by (metis card_length length_map)
  finally show ?thesis .
qed

lemma find_cycle_cases:
  fixes adj :: "'a::linorder adjacency"
  obtains c where "find_cycle adj = Some (Some c)" "real_cycle adj c"
    | "find_cycle adj = Some None" "acyclic (edges adj)"
proof -
  let ?colors = "map (\<lambda>(k, _). (k, White)) adj"
  have keys: "k \<in> set (om_keys adj) \<longleftrightarrow> om_get adj k \<noteq> None" for k
    by (simp add: om_keys_def om_get_def map_of_eq_None_iff)
  have res: "case find_cycle adj of
      None \<Rightarrow> False
    | Some (Some c) \<Rightarrow> real_cycle adj c
    | Some None \<Rightarrow> \<exists>color'. walk_inv adj color' [] \<and> set (om_keys adj) \<union> blacks ?colors \<subseteq> blacks color'"
    unfolding find_cycle_def
    by (rule roots_leave [OF walk_inv_start fuel_start]) (erule keys [THEN iffD1])
  show ?thesis
  proof (cases "find_cycle adj")
    case None
    then show ?thesis using res by simp
  next
    case (Some r)
    show ?thesis
    proof (cases r)
      case (Some c)
      then show ?thesis using that(1) res \<open>find_cycle adj = Some r\<close> by simp
    next
      case None
      then obtain color' where inv: "walk_inv adj color' []" and all: "set (om_keys adj) \<subseteq> blacks color'"
        using res \<open>find_cycle adj = Some r\<close> by auto
      have "Restr (edges adj) (blacks color') = edges adj"
        using all keys by (fastforce simp: edges_def)
      moreover have "acyclic (Restr (edges adj) (blacks color'))"
        using inv unfolding walk_inv_def by (elim conjE)
      ultimately show ?thesis using that(2) None \<open>find_cycle adj = Some r\<close> by simp
    qed
  qed
qed

text \<open>C19. The cycle search always returns: one unit of fuel for each declared node is enough. What it
  answers is right in both directions. \<open>None\<close> is returned exactly when no chain of dependencies
  leads from a node back to itself.\<close>

theorem find_cycle_decides_acyclicity:
  "\<exists>r. find_cycle adj = Some r \<and> (r = None \<longleftrightarrow> acyclic (edges adj))"
  by (cases rule: find_cycle_cases [of adj]) (auto dest: real_cycle_not_acyclic)

text \<open>A cycle that the search reports is a path of the declared dependencies that closes on the
  node it starts from and passes no other node twice.\<close>

lemma reported_cycle_is_real:
  assumes "find_cycle adj = Some (Some c)"
  shows "2 \<le> length c \<and> hd c = List.last c \<and> distinct (butlast c)
       \<and> (\<forall>i < length c - 1. (c ! i, c ! Suc i) \<in> edges adj)"
proof -
  have "real_cycle adj c"
    using assms by (cases rule: find_cycle_cases [of adj]) auto
  then show ?thesis by (simp add: real_cycle_def path_def)
qed

definition sample_graph :: "string adjacency" where
  "sample_graph = [(''a'', [''b'', ''missing'']), (''b'', [''c'']), (''c'', [''b''])]"

end
