(* ===== verification/Modes.thy ===== *)
theory Modes
  imports Workflow_Model Dependency_Graph
begin

text \<open>
  What a run's mode does to the workflow graph (\<open>engine/src/modes.rs\<close>): the nodes it schedules, the
  nodes it reaches and what each scheduled node waits on once the others drop out; and the nodes
  that go with an optional one left out (\<open>workflow/optional.rs\<close>). A set of node ids is a list read
  by membership. The lemmas show that the walk of the dependencies always ends, that on an acyclic
  graph each list holds exactly the included nodes reached through excluded ones, and that the order
  of the nodes that stay is the declared one.
\<close>

section \<open>The nodes a mode keeps\<close>

definition mode_included_nodes :: "workflow \<Rightarrow> mode_name \<Rightarrow> node_id list option" where
  "mode_included_nodes w m =
     (case mode_named w m of
        None \<Rightarrow> None
      | Some spec \<Rightarrow> (case ms_include spec of Include_All \<Rightarrow> None | Include_Nodes ids \<Rightarrow> Some ids))"

definition included_nodes :: "workflow \<Rightarrow> mode_name \<Rightarrow> left_out list \<Rightarrow> node_id list option" where
  "included_nodes w m gone =
     (let by_mode = mode_included_nodes w m
      in if gone = [] then by_mode
         else Some (foldl (\<lambda>inc g. filter (\<lambda>i. i \<noteq> lo_node g) inc)
                      (unwrap_or by_mode (map nd_id (wf_nodes w))) gone))"

definition reached_nodes :: "workflow \<Rightarrow> mode_name \<Rightarrow> left_out list \<Rightarrow> node list" where
  "reached_nodes w m gone = iter_nodes_under w (included_nodes w m gone)"

text \<open>\<open>by_id\<close>: the last node to claim an id holds it.\<close>

definition node_by_id :: "workflow \<Rightarrow> node_id \<Rightarrow> node option" where
  "node_by_id w i = map_of (rev (map (\<lambda>n. (nd_id n, n)) (wf_nodes w))) i"

definition is_included :: "node_id list option \<Rightarrow> node_id \<Rightarrow> bool" where
  "is_included included i = is_none_or included (\<lambda>ids. i \<in> set ids)"

definition push_unique :: "node_id list \<Rightarrow> node_id \<Rightarrow> node_id list" where
  "push_unique xs i = (if i \<in> set xs then xs else xs @ [i])"

definition declared_deps :: "workflow \<Rightarrow> node_id \<Rightarrow> node_id list" where
  "declared_deps w i = (case node_by_id w i of Some n \<Rightarrow> nd_depends_on n | None \<Rightarrow> [])"

section \<open>What each node waits on\<close>

type_synonym dep_map = "(node_id, node_id list) omap"

text \<open>\<open>effective_dependencies\<close> and the loop over one node's dependencies; the outer \<open>None\<close> is fuel
  that ran out. The map is the memo, the list after it the nodes being visited.\<close>

fun effective_dependencies :: "nat \<Rightarrow> workflow \<Rightarrow> (node_id \<Rightarrow> bool) \<Rightarrow> node_id \<Rightarrow> dep_map \<Rightarrow>
      node_id list \<Rightarrow> (dep_map \<times> node_id list) option"
  and inherit_dependencies :: "nat \<Rightarrow> workflow \<Rightarrow> (node_id \<Rightarrow> bool) \<Rightarrow> node_id list \<Rightarrow>
      node_id list \<Rightarrow> dep_map \<Rightarrow> node_id list \<Rightarrow> (dep_map \<times> node_id list) option" where
  "effective_dependencies 0 w inc i memo visiting = None"
| "effective_dependencies (Suc fuel) w inc i memo visiting =
     (case om_get memo i of
        Some deps \<Rightarrow> Some (memo, deps)
      | None \<Rightarrow>
          if i \<in> set visiting then Some (memo, [])
          else (case inherit_dependencies fuel w inc (declared_deps w i) [] memo (visiting @ [i]) of
                  None \<Rightarrow> None
                | Some (memo', out) \<Rightarrow> Some (om_put i out memo', out)))"
| "inherit_dependencies fuel w inc [] out memo visiting = Some (memo, out)"
| "inherit_dependencies fuel w inc (dep # deps) out memo visiting =
     (if inc dep then inherit_dependencies fuel w inc deps (push_unique out dep) memo visiting
      else (case effective_dependencies fuel w inc dep memo visiting of
              None \<Rightarrow> None
            | Some (memo', inherited) \<Rightarrow>
                inherit_dependencies fuel w inc deps (foldl push_unique out inherited) memo' visiting))"

fun walk_included :: "nat \<Rightarrow> workflow \<Rightarrow> (node_id \<Rightarrow> bool) \<Rightarrow> node list \<Rightarrow> dep_map \<Rightarrow> dep_map option" where
  "walk_included fuel w inc [] memo = Some memo"
| "walk_included fuel w inc (n # ns) memo =
     (case effective_dependencies fuel w inc (nd_id n) memo [] of
        None \<Rightarrow> None
      | Some (memo', _) \<Rightarrow> walk_included fuel w inc ns memo')"

definition dependencies_in_mode :: "workflow \<Rightarrow> node_id list option \<Rightarrow> dep_map option" where
  "dependencies_in_mode w included =
     map_option (filter (\<lambda>(i, _). is_included included i))
       (walk_included (Suc (length (wf_nodes w))) w (is_included included)
          (filter (\<lambda>n. is_included included (nd_id n)) (wf_nodes w)) [])"

section \<open>The nodes that go with a node left out\<close>

definition reroutes_to :: "node \<Rightarrow> node_id \<Rightarrow> bool" where
  "reroutes_to n target \<longleftrightarrow>
     is_some_and (nd_on_failure n) (\<lambda>f. of_goto f = target)
   \<or> (case nd_kind n of Gate _ _ _ on _ _ \<Rightarrow> list_ex (\<lambda>(_, to). to = target) on | _ \<Rightarrow> False)"

definition reroute_sources :: "workflow \<Rightarrow> node_id \<Rightarrow> node_id list" where
  "reroute_sources w target = map nd_id (filter (\<lambda>n. reroutes_to n target) (wf_nodes w))"

definition only_through :: "workflow \<Rightarrow> node \<Rightarrow> node_id list \<Rightarrow> node_id option" where
  "only_through w n gone =
     (if nd_depends_on n \<noteq> [] \<or> dependents w (nd_id n) \<noteq> [] then None
      else case reroute_sources w (nd_id n) of
             [] \<Rightarrow> None
           | first # rest \<Rightarrow>
               if list_all (\<lambda>s. s \<in> set gone) (first # rest) then Some first else None)"

fun find_map :: "('a \<Rightarrow> 'b option) \<Rightarrow> 'a list \<Rightarrow> 'b option" where
  "find_map f [] = None"
| "find_map f (x # xs) = (case f x of Some y \<Rightarrow> Some y | None \<Rightarrow> find_map f xs)"

lemma find_map_SomeD: "find_map f xs = Some y \<Longrightarrow> \<exists>x \<in> set xs. f x = Some y"
  by (induction xs) (auto split: option.splits)

lemma find_map_None_iff: "find_map f xs = None \<longleftrightarrow> (\<forall>x \<in> set xs. f x = None)"
  by (induction xs) (auto split: option.splits)

definition next_follower :: "workflow \<Rightarrow> node_id list \<Rightarrow> (node_id \<times> node_id) option" where
  "next_follower w gone =
     find_map (\<lambda>n. map_option (Pair (nd_id n)) (only_through w n gone))
       (filter (\<lambda>n. nd_id n \<notin> set gone) (wf_nodes w))"

lemma next_follower_SomeD:
  assumes "next_follower w gone = Some (i, t)"
  obtains n where "n \<in> set (wf_nodes w)" "nd_id n = i" "i \<notin> set gone" "only_through w n gone = Some t"
  using assms by (auto simp: next_follower_def dest!: find_map_SomeD)

function followers :: "workflow \<Rightarrow> node_id list \<Rightarrow> (node_id \<times> node_id) list" where
  "followers w gone =
     (case next_follower w gone of
        None \<Rightarrow> []
      | Some (i, through) \<Rightarrow> (i, through) # followers w (i # gone))"
  by pat_completeness auto
termination
proof (relation "measure (\<lambda>(w, gone). card (nd_id ` set (wf_nodes w) - set gone))")
  fix w gone and p :: "node_id \<times> node_id" and i t
  assume "next_follower w gone = Some p" "(i, t) = p"
  then have "next_follower w gone = Some (i, t)" by simp
  then have mem: "i \<in> nd_id ` set (wf_nodes w) - set gone"
    by (rule next_follower_SomeD) auto
  have "nd_id ` set (wf_nodes w) - set (i # gone) = nd_id ` set (wf_nodes w) - set gone - {i}"
    by auto
  then have "card (nd_id ` set (wf_nodes w) - set (i # gone)) < card (nd_id ` set (wf_nodes w) - set gone)"
    using card_Diff1_less [OF _ mem] by simp
  then show "((w, i # gone), (w, gone)) \<in> measure (\<lambda>(w, gone). card (nd_id ` set (wf_nodes w) - set gone))"
    by simp
qed simp

declare followers.simps [simp del]


section \<open>The walk ends\<close>

definition unvisited :: "workflow \<Rightarrow> node_id list \<Rightarrow> node_id set" where
  "unvisited w visiting = nd_id ` set (wf_nodes w) - set visiting"

lemma node_by_id_SomeD: "node_by_id w i = Some n \<Longrightarrow> n \<in> set (wf_nodes w) \<and> nd_id n = i"
  by (auto simp: node_by_id_def dest: map_of_SomeD)

lemma declared_deps_id: "declared_deps w i \<noteq> [] \<Longrightarrow> i \<in> nd_id ` set (wf_nodes w)"
  by (auto simp: declared_deps_def dest: node_by_id_SomeD split: option.splits)

lemma card_unvisited_snoc:
  assumes "i \<in> nd_id ` set (wf_nodes w)" "i \<notin> set visiting"
  shows "card (unvisited w (visiting @ [i])) < card (unvisited w visiting)"
proof -
  have "unvisited w (visiting @ [i]) = unvisited w visiting - {i}" by (auto simp: unvisited_def)
  then show ?thesis using assms by (simp add: unvisited_def card_Diff1_less del: card_Diff_insert)
qed

lemma walk_returns:
  "card (unvisited w visiting) < fuel \<Longrightarrow> effective_dependencies fuel w inc i memo visiting \<noteq> None"
  "deps = [] \<or> card (unvisited w visiting) < fuel \<Longrightarrow>
     inherit_dependencies fuel w inc deps out memo visiting \<noteq> None"
proof (induction fuel w inc i memo visiting and fuel w inc deps out memo visiting
    rule: effective_dependencies_inherit_dependencies.induct)
  case (2 fuel w inc i memo visiting)
  show ?case
  proof (cases "om_get memo i = None \<and> i \<notin> set visiting")
    case True
    have "declared_deps w i = [] \<or> card (unvisited w (visiting @ [i])) < fuel"
      using declared_deps_id card_unvisited_snoc [of i w visiting] True "2.prems" by fastforce
    then have "inherit_dependencies fuel w inc (declared_deps w i) [] memo (visiting @ [i]) \<noteq> None"
      using "2.IH" True by simp
    then show ?thesis using True by (auto split: option.splits)
  qed (auto split: option.splits)
next
  case (4 fuel w inc dep deps out memo visiting)
  then show ?case by (cases "inc dep") (auto split: option.splits)
qed simp_all

lemma walk_included_returns: "length (wf_nodes w) < fuel \<Longrightarrow> walk_included fuel w inc ns memo \<noteq> None"
proof (induction ns arbitrary: memo)
  case (Cons n ns)
  have "card (unvisited w []) \<le> length (wf_nodes w)"
    by (simp add: unvisited_def) (metis card_image_le card_length finite_set le_trans)
  then have "effective_dependencies fuel w inc (nd_id n) memo [] \<noteq> None"
    using Cons.prems by (intro walk_returns) simp
  with Cons show ?case by (auto split: option.splits)
qed simp

section \<open>What the walk answers\<close>

text \<open>The declared order, and what an included node waits on in it: an included dependency, or what an
  excluded dependency waits on.\<close>

definition dep_edges :: "workflow \<Rightarrow> (node_id \<times> node_id) set" where
  "dep_edges w = {(u, v). v \<in> set (declared_deps w u)}"

lemma dep_edges_iff:
  "(u, v) \<in> dep_edges w \<longleftrightarrow> (\<exists>n. node_by_id w u = Some n \<and> v \<in> set (nd_depends_on n))"
  by (cases "node_by_id w u") (auto simp: dep_edges_def declared_deps_def)

inductive waits_on :: "workflow \<Rightarrow> (node_id \<Rightarrow> bool) \<Rightarrow> node_id \<Rightarrow> node_id \<Rightarrow> bool"
  for w inc where
  kept: "(u, v) \<in> dep_edges w \<Longrightarrow> inc v \<Longrightarrow> waits_on w inc u v"
| through: "(u, x) \<in> dep_edges w \<Longrightarrow> \<not> inc x \<Longrightarrow> waits_on w inc x v \<Longrightarrow> waits_on w inc u v"

inductive_simps waits_on_unfold: "waits_on w inc u v"

lemma waits_on_included: "waits_on w inc u v \<Longrightarrow> inc v"
  by (induction rule: waits_on.induct)

lemma waits_on_trancl: "waits_on w inc u v \<Longrightarrow> (u, v) \<in> (dep_edges w)\<^sup>+"
  by (induction rule: waits_on.induct) (auto intro: trancl_into_trancl2)

text \<open>What a list of dependencies gives: each kept one, and all an excluded one waits on.\<close>

definition gives :: "workflow \<Rightarrow> (node_id \<Rightarrow> bool) \<Rightarrow> node_id list \<Rightarrow> node_id set" where
  "gives w inc ds = {v. \<exists>d \<in> set ds. if inc d then v = d else waits_on w inc d v}"

lemma gives_declared: "gives w inc (declared_deps w u) = {v. waits_on w inc u v}"
  by (auto simp: gives_def waits_on_unfold [of w inc u] dep_edges_def split: if_splits)

lemma set_push_unique [simp]: "set (push_unique xs i) = insert i (set xs)"
  by (auto simp: push_unique_def)

lemma distinct_push_unique [simp]: "distinct xs \<Longrightarrow> distinct (push_unique xs i)"
  by (simp add: push_unique_def)

lemma set_foldl_push [simp]: "set (foldl push_unique xs ys) = set xs \<union> set ys"
  by (induction ys arbitrary: xs) auto

lemma distinct_foldl_push [simp]: "distinct xs \<Longrightarrow> distinct (foldl push_unique xs ys)"
  by (induction ys arbitrary: xs) auto

lemma foldl_push_first_order: "foldl push_unique [] ys = first_order ys"
proof (induction ys rule: rev_induct)
  case (snoc y ys)
  then show ?case by (simp add: first_order_snoc push_unique_def)
qed simp

definition memo_ok :: "workflow \<Rightarrow> (node_id \<Rightarrow> bool) \<Rightarrow> dep_map \<Rightarrow> bool" where
  "memo_ok w inc memo \<longleftrightarrow>
     (\<forall>k ds. om_get memo k = Some ds \<longrightarrow> distinct ds \<and> set ds = {v. waits_on w inc k v})"

lemma memo_ok_put: "memo_ok w inc memo \<Longrightarrow> distinct ds \<Longrightarrow> set ds = {v. waits_on w inc k v}
    \<Longrightarrow> memo_ok w inc (om_put k ds memo)"
  by (simp add: memo_ok_def)

lemma walk_answers:
  "memo_ok w inc memo \<Longrightarrow> \<forall>v \<in> set visiting. (v, i) \<in> (dep_edges w)\<^sup>+ \<Longrightarrow>
       effective_dependencies fuel w inc i memo visiting = Some (memo', out) \<Longrightarrow>
       acyclic (dep_edges w) \<Longrightarrow> memo_ok w inc memo' \<and> distinct out \<and> set out = {v. waits_on w inc i v}
     \<and> om_get memo' i \<noteq> None
     \<and> (\<forall>k. om_get memo k \<noteq> None \<longrightarrow> om_get memo' k \<noteq> None)
     \<and> (\<forall>k. om_get memo' k \<noteq> None \<longrightarrow> om_get memo k \<noteq> None \<or> k = i \<or> \<not> inc k)"
  "memo_ok w inc memo \<Longrightarrow> distinct out0 \<Longrightarrow>
       \<forall>v \<in> set visiting. \<forall>d \<in> set deps. (v, d) \<in> (dep_edges w)\<^sup>+ \<Longrightarrow>
       inherit_dependencies fuel w inc deps out0 memo visiting = Some (memo', out) \<Longrightarrow>
       acyclic (dep_edges w) \<Longrightarrow> memo_ok w inc memo' \<and> distinct out \<and> set out = set out0 \<union> gives w inc deps
     \<and> (\<forall>k. om_get memo k \<noteq> None \<longrightarrow> om_get memo' k \<noteq> None)
     \<and> (\<forall>k. om_get memo' k \<noteq> None \<longrightarrow> om_get memo k \<noteq> None \<or> \<not> inc k)"
proof (induction fuel w inc i memo visiting and fuel w inc deps out0 memo visiting
    arbitrary: memo' out and memo' out
    rule: effective_dependencies_inherit_dependencies.induct)
  case (2 fuel w inc i memo visiting)
  show ?case
  proof (cases "om_get memo i")
    case (Some ds)
    then show ?thesis using "2.prems" by (auto simp: memo_ok_def)
  next
    case None
    have new: "i \<notin> set visiting"
      using "2.prems"(2) "2.prems"(4) by (auto simp: acyclic_def)
    have edge: "(i, d) \<in> dep_edges w" if "d \<in> set (declared_deps w i)" for d
      using that by (simp add: dep_edges_def)
    have ahead: "\<forall>v \<in> set (visiting @ [i]). \<forall>d \<in> set (declared_deps w i). (v, d) \<in> (dep_edges w)\<^sup>+"
      using "2.prems"(2) edge by (auto intro: trancl_into_trancl)
    obtain memo1 where run: "inherit_dependencies fuel w inc (declared_deps w i) [] memo (visiting @ [i])
        = Some (memo1, out)" and memo': "memo' = om_put i out memo1"
      using "2.prems"(3) None new by (auto split: option.splits)
    have ans: "memo_ok w inc memo1 \<and> distinct out \<and> set out = set [] \<union> gives w inc (declared_deps w i)
        \<and> (\<forall>k. om_get memo k \<noteq> None \<longrightarrow> om_get memo1 k \<noteq> None)
        \<and> (\<forall>k. om_get memo1 k \<noteq> None \<longrightarrow> om_get memo k \<noteq> None \<or> \<not> inc k)"
      using "2.IH" [OF None new] "2.prems"(1) "2.prems"(4) ahead run by simp
    then have out: "set out = {v. waits_on w inc i v}" by (simp add: gives_declared)
    have "memo_ok w inc memo'"
      unfolding memo' using ans out by (intro memo_ok_put) auto
    then show ?thesis using ans out by (auto simp: memo')
  qed
next
  case (4 fuel w inc dep deps out0 memo visiting)
  show ?case
  proof (cases "inc dep")
    case True
    have "gives w inc (dep # deps) = insert dep (gives w inc deps)"
      using True by (auto simp: gives_def)
    then show ?thesis using "4.IH"(1) [OF True] "4.prems" True by simp
  next
    case False
    have g: "gives w inc (dep # deps) = {v. waits_on w inc dep v} \<union> gives w inc deps"
      using False by (auto simp: gives_def)
    obtain memo1 inherited where run: "effective_dependencies fuel w inc dep memo visiting = Some (memo1, inherited)"
      and rest: "inherit_dependencies fuel w inc deps (foldl push_unique out0 inherited) memo1 visiting
          = Some (memo', out)"
      using "4.prems"(4) False by (auto split: option.splits)
    have ans: "memo_ok w inc memo1 \<and> distinct inherited \<and> set inherited = {v. waits_on w inc dep v}
        \<and> om_get memo1 dep \<noteq> None
        \<and> (\<forall>k. om_get memo k \<noteq> None \<longrightarrow> om_get memo1 k \<noteq> None)
        \<and> (\<forall>k. om_get memo1 k \<noteq> None \<longrightarrow> om_get memo k \<noteq> None \<or> k = dep \<or> \<not> inc k)"
      using "4.IH"(2) [OF False] "4.prems"(1,3,5) run by simp
    have "memo_ok w inc memo' \<and> distinct out
        \<and> set out = set (foldl push_unique out0 inherited) \<union> gives w inc deps
        \<and> (\<forall>k. om_get memo1 k \<noteq> None \<longrightarrow> om_get memo' k \<noteq> None)
        \<and> (\<forall>k. om_get memo' k \<noteq> None \<longrightarrow> om_get memo1 k \<noteq> None \<or> \<not> inc k)"
      using "4.IH"(3) [OF False run refl] ans rest "4.prems" by simp
    then have post: "memo_ok w inc memo'" "distinct out"
        "set out = set (foldl push_unique out0 inherited) \<union> gives w inc deps"
        "\<forall>k. om_get memo1 k \<noteq> None \<longrightarrow> om_get memo' k \<noteq> None"
        "\<forall>k. om_get memo' k \<noteq> None \<longrightarrow> om_get memo1 k \<noteq> None \<or> \<not> inc k"
      by blast+
    have "\<forall>k. om_get memo k \<noteq> None \<longrightarrow> om_get memo' k \<noteq> None" using ans post(4) by metis
    moreover have "\<forall>k. om_get memo' k \<noteq> None \<longrightarrow> om_get memo k \<noteq> None \<or> \<not> inc k"
      using ans post(5) False by metis
    moreover have "set out = set out0 \<union> gives w inc (dep # deps)" using ans post(3) g by auto
    ultimately show ?thesis using post(1,2) by blast
  qed
qed (simp_all add: gives_def)


lemma walk_included_answers:
  assumes "acyclic (dep_edges w)" "memo_ok w inc memo" "walk_included fuel w inc ns memo = Some memo'"
  shows "memo_ok w inc memo'
    \<and> (\<forall>k. om_get memo k \<noteq> None \<or> k \<in> nd_id ` set ns \<longrightarrow> om_get memo' k \<noteq> None)
    \<and> (\<forall>k. om_get memo' k \<noteq> None \<longrightarrow> om_get memo k \<noteq> None \<or> k \<in> nd_id ` set ns \<or> \<not> inc k)"
  using assms(2,3)
proof (induction ns arbitrary: memo)
  case (Cons n ns)
  obtain memo1 out where run: "effective_dependencies fuel w inc (nd_id n) memo [] = Some (memo1, out)"
    and rest: "walk_included fuel w inc ns memo1 = Some memo'"
    using Cons.prems by (auto split: option.splits)
  have one: "memo_ok w inc memo1" "om_get memo1 (nd_id n) \<noteq> None"
      "\<forall>k. om_get memo k \<noteq> None \<longrightarrow> om_get memo1 k \<noteq> None"
      "\<forall>k. om_get memo1 k \<noteq> None \<longrightarrow> om_get memo k \<noteq> None \<or> k = nd_id n \<or> \<not> inc k"
    using walk_answers(1) [OF Cons.prems(1) _ run assms(1)] by auto
  have more: "memo_ok w inc memo'"
      "\<forall>k. om_get memo1 k \<noteq> None \<or> k \<in> nd_id ` set ns \<longrightarrow> om_get memo' k \<noteq> None"
      "\<forall>k. om_get memo' k \<noteq> None \<longrightarrow> om_get memo1 k \<noteq> None \<or> k \<in> nd_id ` set ns \<or> \<not> inc k"
    using Cons.IH [OF one(1) rest] by blast+
  have "\<forall>k. om_get memo k \<noteq> None \<or> k \<in> nd_id ` set (n # ns) \<longrightarrow> om_get memo' k \<noteq> None"
  proof (intro allI impI)
    fix k assume "om_get memo k \<noteq> None \<or> k \<in> nd_id ` set (n # ns)"
    then have "om_get memo k \<noteq> None \<or> k = nd_id n \<or> k \<in> nd_id ` set ns" by simp
    then show "om_get memo' k \<noteq> None" using one(2,3) more(2) by metis
  qed
  moreover have "\<forall>k. om_get memo' k \<noteq> None \<longrightarrow>
      om_get memo k \<noteq> None \<or> k \<in> nd_id ` set (n # ns) \<or> \<not> inc k"
  proof (intro allI impI)
    fix k assume "om_get memo' k \<noteq> None"
    then have "om_get memo k \<noteq> None \<or> k = nd_id n \<or> k \<in> nd_id ` set ns \<or> \<not> inc k"
      using one(4) more(3) by metis
    then show "om_get memo k \<noteq> None \<or> k \<in> nd_id ` set (n # ns) \<or> \<not> inc k" by simp
  qed
  ultimately show ?case using more(1) by blast
qed auto

lemma om_get_keep: "om_get (filter (\<lambda>(i, _). P i) m) k = (if P k then om_get m k else None)"
  by (induction m) (auto simp: om_get_def)

lemma dependencies_in_mode_total: "\<exists>deps. dependencies_in_mode w included = Some deps"
  using walk_included_returns [of w "Suc (length (wf_nodes w))" "is_included included"
      "filter (\<lambda>n. is_included included (nd_id n)) (wf_nodes w)" "[]"]
  by (auto simp: dependencies_in_mode_def)

definition scheduled :: "workflow \<Rightarrow> node_id list option \<Rightarrow> node_id set" where
  "scheduled w included = {i \<in> nd_id ` set (wf_nodes w). is_included included i}"

lemma dependencies_in_mode_spec:
  assumes acyc: "acyclic (dep_edges w)" and run: "dependencies_in_mode w included = Some deps"
  shows "(\<forall>u. om_get deps u \<noteq> None \<longleftrightarrow> u \<in> scheduled w included)
       \<and> (\<forall>u ds. om_get deps u = Some ds \<longrightarrow>
            distinct ds \<and> set ds = {v. waits_on w (is_included included) u v})"
proof -
  let ?inc = "is_included included"
  obtain memo where walk: "walk_included (Suc (length (wf_nodes w))) w ?inc
      (filter (\<lambda>n. ?inc (nd_id n)) (wf_nodes w)) [] = Some memo"
    and deps: "deps = filter (\<lambda>(i, _). ?inc i) memo"
    using run by (auto simp: dependencies_in_mode_def)
  have start: "memo_ok w ?inc []" by (simp add: memo_ok_def)
  note ans = walk_included_answers [OF acyc start walk]
  have ok: "memo_ok w ?inc memo" using ans by blast
  have kept: "om_get memo k \<noteq> None" if "k \<in> scheduled w included" for k
    using ans that by (auto simp: scheduled_def simp del: not_None_eq)
  have only: "k \<in> scheduled w included" if "om_get memo k \<noteq> None" "?inc k" for k
    using ans that by (auto simp: scheduled_def simp del: not_None_eq)
  have "om_get deps u \<noteq> None \<longleftrightarrow> u \<in> scheduled w included" for u
    using kept only by (auto simp: deps om_get_keep scheduled_def simp del: not_None_eq)
  moreover have "distinct ds \<and> set ds = {v. waits_on w ?inc u v}" if "om_get deps u = Some ds" for u ds
    using ok that by (auto simp: deps om_get_keep memo_ok_def split: if_splits)
  ultimately show ?thesis by blast
qed

definition map_edges :: "dep_map \<Rightarrow> (node_id \<times> node_id) set" where
  "map_edges deps = {(u, v). \<exists>ds. om_get deps u = Some ds \<and> v \<in> set ds}"

lemma map_edges_waits_on:
  assumes "acyclic (dep_edges w)" "dependencies_in_mode w included = Some deps"
  shows "(u, v) \<in> map_edges deps \<longleftrightarrow> is_included included u \<and> waits_on w (is_included included) u v"
proof -
  note spec = dependencies_in_mode_spec [OF assms]
  have node: "u \<in> nd_id ` set (wf_nodes w)" if "waits_on w (is_included included) u v"
  proof (rule declared_deps_id)
    show "declared_deps w u \<noteq> []" using that by (cases rule: waits_on.cases) (auto simp: dep_edges_def)
  qed
  show ?thesis
  proof
    assume "(u, v) \<in> map_edges deps"
    then obtain ds where "om_get deps u = Some ds" "v \<in> set ds" by (auto simp: map_edges_def)
    then show "is_included included u \<and> waits_on w (is_included included) u v"
      using spec by (auto simp: scheduled_def)
  next
    assume r: "is_included included u \<and> waits_on w (is_included included) u v"
    then have "u \<in> scheduled w included" using node by (simp add: scheduled_def)
    then obtain ds where "om_get deps u = Some ds" using spec by blast
    then show "(u, v) \<in> map_edges deps" using spec r by (auto simp: map_edges_def)
  qed
qed

lemma map_edges_trancl:
  assumes "acyclic (dep_edges w)" "dependencies_in_mode w included = Some deps"
  shows "(u, v) \<in> (map_edges deps)\<^sup>+ \<Longrightarrow> (u, v) \<in> (dep_edges w)\<^sup>+"
proof (induction rule: trancl_induct)
  case (base y)
  then show ?case using map_edges_waits_on [OF assms] waits_on_trancl by blast
next
  case (step y z)
  then show ?case using map_edges_waits_on [OF assms] waits_on_trancl by (meson trancl_trans)
qed

lemma map_edges_acyclic:
  assumes "acyclic (dep_edges w)" "dependencies_in_mode w included = Some deps"
  shows "acyclic (map_edges deps)"
  using assms map_edges_trancl [OF assms] by (auto simp: acyclic_def)

lemma kept_order:
  assumes acyc: "acyclic (dep_edges w)" and run: "dependencies_in_mode w included = Some deps"
    and "(u, v) \<in> (dep_edges w)\<^sup>+" "is_included included v"
  shows "\<exists>x. waits_on w (is_included included) u x \<and> (x, v) \<in> (map_edges deps)\<^sup>*"
  using assms(3,4)
proof (induction rule: converse_trancl_induct)
  case (base u)
  then show ?case by (blast intro: waits_on.kept)
next
  case (step u y)
  then obtain x where x: "waits_on w (is_included included) y x" "(x, v) \<in> (map_edges deps)\<^sup>*" by blast
  show ?case
  proof (cases "is_included included y")
    case True
    then have "(y, x) \<in> map_edges deps" using x map_edges_waits_on [OF acyc run] by blast
    then show ?thesis using step True x(2) by (blast intro: waits_on.kept converse_rtrancl_into_rtrancl)
  next
    case False
    then show ?thesis using step x by (blast intro: waits_on.through)
  qed
qed


section \<open>The check that a workflow has no cycle\<close>

definition workflow_adjacency :: "node list \<Rightarrow> node_id adjacency" where
  "workflow_adjacency ns = foldl (\<lambda>m n. om_put (nd_id n) (nd_depends_on n) m) [] ns"

definition find_depends_on_cycle :: "node list \<Rightarrow> node_id list option option" where
  "find_depends_on_cycle ns = find_cycle (workflow_adjacency ns)"

lemma om_get_workflow_adjacency:
  "om_get (workflow_adjacency (wf_nodes w)) i = map_option nd_depends_on (node_by_id w i)"
proof -
  have "om_get (workflow_adjacency ns) i =
      map_option nd_depends_on (map_of (rev (map (\<lambda>n. (nd_id n, n)) ns)) i)" for ns
    unfolding workflow_adjacency_def by (induction ns rule: rev_induct) auto
  then show ?thesis by (simp add: node_by_id_def)
qed

lemma dep_edges_known:
  assumes "(u, v) \<in> (dep_edges w)\<^sup>+" "node_by_id w v \<noteq> None"
  shows "(u, v) \<in> (edges (workflow_adjacency (wf_nodes w)))\<^sup>+"
proof -
  have edge: "(y, z) \<in> edges (workflow_adjacency (wf_nodes w))"
    if "(y, z) \<in> dep_edges w" "node_by_id w z \<noteq> None" for y z
    using that by (auto simp: edges_def dep_edges_iff om_get_workflow_adjacency)
  show ?thesis
    using assms
  proof (induction rule: trancl_induct)
    case (base y)
    then show ?case using edge by blast
  next
    case (step y z)
    then have "node_by_id w y \<noteq> None" by (auto simp: dep_edges_iff)
    then show ?case using step edge by (meson trancl_into_trancl)
  qed
qed

lemma checked_acyclic:
  assumes "find_depends_on_cycle (wf_nodes w) = Some None"
  shows "acyclic (dep_edges w)"
proof -
  let ?E = "edges (workflow_adjacency (wf_nodes w))"
  have ac: "acyclic ?E"
    using assms unfolding find_depends_on_cycle_def
    by (cases rule: find_cycle_cases [of "workflow_adjacency (wf_nodes w)"]) auto
  have "(x, x) \<notin> (dep_edges w)\<^sup>+" for x
  proof
    assume cyc: "(x, x) \<in> (dep_edges w)\<^sup>+"
    then obtain y where "(x, y) \<in> dep_edges w" by (meson tranclD)
    then have "node_by_id w x \<noteq> None" by (auto simp: dep_edges_iff)
    then show False using dep_edges_known [OF cyc] ac by (auto simp: acyclic_def)
  qed
  then show ?thesis by (simp add: acyclic_def)
qed

section \<open>What the nodes a mode keeps wait on\<close>

text \<open>The dependencies of a mode are computed for every workflow, cyclic or not: the walk that
  replaces an excluded node by what it waits on always ends.\<close>

lemma mode_dependencies_return: "\<exists>deps. dependencies_in_mode w included = Some deps"
  by (rule dependencies_in_mode_total)

text \<open>On a workflow that the check accepts, every node a mode keeps has one list and no other node
  has any; the list names, once each, exactly the kept nodes reached from it through excluded ones.\<close>

lemma mode_dependencies_exact:
  assumes "find_depends_on_cycle (wf_nodes w) = Some None"
    and "dependencies_in_mode w included = Some deps"
  shows "(om_get deps u \<noteq> None \<longleftrightarrow> u \<in> nd_id ` set (wf_nodes w) \<and> is_included included u)
       \<and> (\<forall>ds. om_get deps u = Some ds \<longrightarrow>
             distinct ds \<and> set ds = {v. waits_on w (is_included included) u v})"
  using dependencies_in_mode_spec [OF checked_acyclic [OF assms(1)] assms(2)]
  by (simp add: scheduled_def)

text \<open>C20. A mode keeps the order of the work that remains: between two nodes it keeps, one waits on the
  other, directly or through others, exactly when it does in the workflow as declared.\<close>

theorem mode_keeps_order:
  assumes "find_depends_on_cycle (wf_nodes w) = Some None"
    and "dependencies_in_mode w included = Some deps"
    and "is_included included u" "is_included included v"
  shows "(u, v) \<in> (map_edges deps)\<^sup>+ \<longleftrightarrow> (u, v) \<in> (dep_edges w)\<^sup>+"
proof
  note acyc = checked_acyclic [OF assms(1)]
  show "(u, v) \<in> (map_edges deps)\<^sup>+ \<Longrightarrow> (u, v) \<in> (dep_edges w)\<^sup>+"
    by (rule map_edges_trancl [OF acyc assms(2)])
  assume "(u, v) \<in> (dep_edges w)\<^sup>+"
  then obtain x where "waits_on w (is_included included) u x" "(x, v) \<in> (map_edges deps)\<^sup>*"
    using kept_order [OF acyc assms(2)] assms(4) by blast
  then have "(u, x) \<in> map_edges deps" "(x, v) \<in> (map_edges deps)\<^sup>*"
    using map_edges_waits_on [OF acyc assms(2)] assms(3) by auto
  then show "(u, v) \<in> (map_edges deps)\<^sup>+" by (rule rtrancl_into_trancl2)
qed

definition bash_node :: "node_id \<Rightarrow> node_id list \<Rightarrow> node" where
  "bash_node i deps =
     Node i (Bash (Script ''true'')) deps Unscoped None [] None None None None None None None None
       None [] [] False False None None"

definition plain_workflow :: "node list \<Rightarrow> workflow" where
  "plain_workflow ns =
     \<lparr>wf_name = ''chain'', wf_description = None, wf_modes = None, wf_inputs = [],
      wf_node_defaults = None, wf_nodes = ns, wf_yunta_schema = None, wf_on_finish = []\<rparr>"

definition chain_workflow :: workflow where
  "chain_workflow = plain_workflow
     [bash_node ''start'' [], bash_node ''review'' [''start''],
      bash_node ''extra'' [''review'', ''start''], bash_node ''ship'' [''extra'']]"

definition chain_mode :: "node_id list option" where
  "chain_mode = Some [''start'', ''ship'']"

lemma chain_runs:
  "find_depends_on_cycle (wf_nodes chain_workflow) = Some None"
  "dependencies_in_mode chain_workflow chain_mode = Some [(''ship'', [''start'']), (''start'', [])]"
  "is_included chain_mode ''ship''" "is_included chain_mode ''start''"
  by code_simp+

theorem mode_keeps_order_witness: "(''ship'', ''start'') \<in> (dep_edges chain_workflow)\<^sup>+"
proof -
  have "(''ship'', ''start'') \<in> map_edges [(''ship'', [''start'']), (''start'', [])]"
    by (simp add: map_edges_def om_get_def)
  then show ?thesis
    using mode_keeps_order [OF chain_runs(1,2,3,4)] by blast
qed

text \<open>A workflow nothing narrows keeps each declared list, an id named twice once.\<close>

lemma inherit_all: "inherit_dependencies fuel w (\<lambda>_. True) ds out memo visiting
    = Some (memo, foldl push_unique out ds)"
  by (induction ds arbitrary: out) simp_all

lemma walk_all:
  assumes "0 < fuel" "\<forall>k ds. om_get memo k = Some ds \<longrightarrow> ds = first_order (declared_deps w k)"
    "walk_included fuel w (\<lambda>_. True) ns memo = Some memo'"
  shows "\<forall>k ds. om_get memo' k = Some ds \<longrightarrow> ds = first_order (declared_deps w k)"
  using assms(2,3)
proof (induction ns arbitrary: memo)
  case (Cons n ns)
  obtain f where f: "fuel = Suc f" using assms(1) by (cases fuel) auto
  show ?case
  proof (cases "om_get memo (nd_id n)")
    case None
    then have "walk_included fuel w (\<lambda>_. True) ns
        (om_put (nd_id n) (first_order (declared_deps w (nd_id n))) memo) = Some memo'"
      using Cons.prems(2) f by (simp add: inherit_all foldl_push_first_order)
    moreover have "\<forall>k ds. om_get (om_put (nd_id n) (first_order (declared_deps w (nd_id n))) memo) k = Some ds
        \<longrightarrow> ds = first_order (declared_deps w k)"
      using Cons.prems(1) by (auto simp: om_get_put)
    ultimately show ?thesis using Cons.IH by blast
  next
    case (Some ds)
    then have "walk_included fuel w (\<lambda>_. True) ns memo = Some memo'"
      using Cons.prems(2) f by simp
    then show ?thesis using Cons.IH Cons.prems(1) by blast
  qed
qed simp

lemma unnarrowed_lists:
  assumes "dependencies_in_mode w None = Some deps" "om_get deps u = Some ds"
  shows "ds = first_order (declared_deps w u)"
proof -
  have inc: "is_included None = (\<lambda>_. True)" by (simp add: is_included_def is_none_or_def fun_eq_iff)
  have "walk_included (Suc (length (wf_nodes w))) w (\<lambda>_. True) (wf_nodes w) [] = Some deps"
    using assms(1) by (auto simp: dependencies_in_mode_def inc)
  then show ?thesis using walk_all [of "Suc (length (wf_nodes w))" "[]" w "wf_nodes w" deps] assms(2) by simp
qed

section \<open>What goes with a node left out\<close>

lemma only_through_cong: "set a = set b \<Longrightarrow> only_through w n a = only_through w n b"
  by (simp add: only_through_def split: list.split)

lemma next_follower_cong:
  assumes "set a = set b"
  shows "next_follower w a = next_follower w b"
proof -
  have "only_through w n a = only_through w n b" for n
    using assms by (rule only_through_cong)
  then show ?thesis using assms by (simp add: next_follower_def)
qed

lemma only_through_SomeD:
  assumes "only_through w n gone = Some t"
  shows "nd_depends_on n = []" "dependents w (nd_id n) = []"
    "reroute_sources w (nd_id n) \<noteq> []" "set (reroute_sources w (nd_id n)) \<subseteq> set gone"
    "t \<in> set (reroute_sources w (nd_id n))"
  using assms by (auto simp: only_through_def list_all_iff split: if_splits list.splits)

lemma followers_stop: "next_follower w (map fst (followers w gone) @ gone) = None"
proof (induction w gone rule: followers.induct)
  case (1 w gone)
  show ?case
  proof (cases "next_follower w gone")
    case None
    then show ?thesis by (simp add: followers.simps [of w gone])
  next
    case (Some p)
    obtain i t where p: "p = (i, t)" by fastforce
    have "next_follower w (map fst (followers w (i # gone)) @ (i # gone)) = None"
      using 1 Some p by blast
    moreover have "followers w gone = (i, t) # followers w (i # gone)"
      using Some p by (simp add: followers.simps [of w gone])
    ultimately show ?thesis
      using next_follower_cong [of "map fst (followers w (i # gone)) @ (i # gone)"
          "map fst (followers w gone) @ gone" w] by simp
  qed
qed

lemma followers_each:
  "(i, t) \<in> set (followers w gone) \<Longrightarrow>
     i \<notin> set gone \<and> i \<in> nd_id ` set (wf_nodes w) \<and> dependents w i = []
   \<and> t \<in> set (reroute_sources w i)
   \<and> set (reroute_sources w i) \<subseteq> set gone \<union> fst ` set (followers w gone)"
proof (induction w gone rule: followers.induct)
  case (1 w gone)
  show ?case
  proof (cases "next_follower w gone")
    case None
    then show ?thesis using "1.prems" by (simp add: followers.simps [of w gone])
  next
    case (Some p)
    obtain j s where p: "p = (j, s)" by fastforce
    have unfold: "followers w gone = (j, s) # followers w (j # gone)"
      using Some p by (simp add: followers.simps [of w gone])
    show ?thesis
    proof (cases "(i, t) = (j, s)")
      case True
      then show ?thesis
        using Some p unfold by (auto elim!: next_follower_SomeD dest: only_through_SomeD)
    next
      case False
      then have "(i, t) \<in> set (followers w (j # gone))" using "1.prems" unfold by auto
      then show ?thesis using "1.IH" [OF Some] p unfold by auto
    qed
  qed
qed

text \<open>What goes with the nodes left out: a node nothing waits on and that only reroutes reach,
  each of them from a node left out or gone with one; and no such node is left behind.\<close>

lemma followers_are_unreachable:
  "(\<forall>(i, t) \<in> set (followers w gone).
      i \<notin> set gone \<and> dependents w i = [] \<and> t \<in> set (reroute_sources w i)
    \<and> set (reroute_sources w i) \<subseteq> set gone \<union> fst ` set (followers w gone))
 \<and> (\<forall>n \<in> set (wf_nodes w). nd_id n \<notin> set gone \<union> fst ` set (followers w gone) \<longrightarrow>
      only_through w n (map fst (followers w gone) @ gone) = None)"
proof
  show "\<forall>(i, t) \<in> set (followers w gone).
      i \<notin> set gone \<and> dependents w i = [] \<and> t \<in> set (reroute_sources w i)
    \<and> set (reroute_sources w i) \<subseteq> set gone \<union> fst ` set (followers w gone)"
    using followers_each by blast
  show "\<forall>n \<in> set (wf_nodes w). nd_id n \<notin> set gone \<union> fst ` set (followers w gone) \<longrightarrow>
      only_through w n (map fst (followers w gone) @ gone) = None"
    using followers_stop [of w gone] by (force simp: next_follower_def find_map_None_iff)
qed


definition rerouting_workflow :: workflow where
  "rerouting_workflow = plain_workflow
     [Node ''lint'' (Bash (Script ''true'')) [] Unscoped None [] None None None None
        (Some \<lparr>of_goto = ''fix'', of_max_reroutes = 1\<rparr>) None None None None [] [] False True None None,
      bash_node ''fix'' [], bash_node ''ship'' []]"

end
