(* ===== verification/Decisions.thy ===== *)
theory Decisions
  imports Derivation
begin

text \<open>
  What a person decided about a node, and whether the run's tree moved since a node failed, read off
  the derived state (\<open>replay/decisions.rs\<close>, \<open>replay/tree.rs\<close>). The lemmas show that a resolution waits
  to be acted on only while nothing the log holds came after it, so it is acted on once, and that a
  failure reads no movement while every newer record leaves the tree as the failure did.
\<close>

section \<open>The order on positions that may be missing\<close>

text \<open>\<open>Option<Seq>\<close> compares with \<open>None\<close> below every position.\<close>

fun opt_less :: "'a::linorder option \<Rightarrow> 'a option \<Rightarrow> bool" where
  "opt_less None (Some _) = True"
| "opt_less (Some x) (Some y) = (x < y)"
| "opt_less _ None = False"

definition opt_max :: "'a::linorder option \<Rightarrow> 'a option \<Rightarrow> 'a option" where
  "opt_max x y = (if opt_less y x then x else y)"

lemma opt_less_Some_iff: "opt_less b (Some x) \<longleftrightarrow> (\<forall>y. b = Some y \<longrightarrow> y < x)"
  by (cases b) simp_all

text \<open>\<open>iter.max()\<close>.\<close>

definition max_opt :: "'a::linorder list \<Rightarrow> 'a option" where
  "max_opt xs = (if xs = [] then None else Some (Max (set xs)))"

lemma opt_less_max_iff: "opt_less (max_opt xs) (Some x) \<longleftrightarrow> (\<forall>y \<in> set xs. y < x)"
  by (simp add: max_opt_def)

section \<open>Decisions\<close>

definition standing_wait :: "run_state \<Rightarrow> node_id \<Rightarrow> seq option" where
  "standing_wait S n = map_option snd (Option.bind (gate_get (rs_gates S) n) gr_waiting)"

definition consumers :: "run_state \<Rightarrow> node_id \<Rightarrow> seq list" where
  "consumers S n =
     List.map_filter (\<lambda>x. x)
       ((case nodes_get (rs_nodes S) n of
           None \<Rightarrow> []
         | Some r \<Rightarrow> [last_terminal r, map_option ro_seq (last_reroute r)])
        @ [last_paused_at (rs_run S)])"

definition unconsumed :: "run_state \<Rightarrow> node_id \<Rightarrow> seq \<Rightarrow> bool" where
  "unconsumed S n at \<longleftrightarrow>
     opt_less (max_opt (consumers S n)) (Some at) \<and> opt_less (standing_wait S n) (Some at)"

definition pre_seeded :: "run_state \<Rightarrow> node_id \<Rightarrow> (gate_resolved \<times> seq) option" where
  "pre_seeded S n =
     Option.bind (gate_get (rs_gates S) n) (\<lambda>r.
       Option.bind (last_opt (resolved r)) (\<lambda>(res, at).
         if unconsumed S n at then Some (res, at) else None))"

definition answer_awaits_its_resume :: "run_state \<Rightarrow> bool" where
  "answer_awaits_its_resume S \<longleftrightarrow>
     run_paused (rs_run S) \<noteq> None \<and> list_ex (\<lambda>n. pre_seeded S n \<noteq> None) (om_keys (gates_of (rs_gates S)))"

definition run_again_chosen :: "run_state \<Rightarrow> node_id \<Rightarrow> reserved_option option" where
  "run_again_chosen S n =
     Option.bind (gate_get (rs_gates S) n) (\<lambda>r.
       Option.bind (last_opt (own_resolutions r)) (\<lambda>(res, at).
         case res of
           Chosen choice \<Rightarrow>
             Option.bind (reserved_of (hc_option choice)) (\<lambda>opt.
               if runs_again opt \<and> unconsumed S n at then Some opt else None)
         | _ \<Rightarrow> None))"

definition choice_after_failure :: "run_state \<Rightarrow> node_id \<Rightarrow> (seq \<times> human_choice) option" where
  "choice_after_failure S n =
     Option.bind (Option.bind (nodes_get (rs_nodes S) n) last_failed) (\<lambda>failed.
       Option.bind (gate_get (rs_gates S) n) (\<lambda>r.
         Option.bind (last_opt (own_resolutions r)) (\<lambda>(res, at).
           case res of Chosen choice \<Rightarrow> if at > failed then Some (at, choice) else None | _ \<Rightarrow> None)))"

definition reset_waited :: "run_state \<Rightarrow> node_id \<Rightarrow> instant \<Rightarrow> bool" where
  "reset_waited S n at \<longleftrightarrow>
     (case rl_paused (rs_run S) of
        Some (Pause_AwaitingReset waited due, _) \<Rightarrow> waited = n \<and> due = at
      | _ \<Rightarrow> False)
   \<and> run_paused (rs_run S) = None
   \<and> is_some_and (rl_resumed_at (rs_run S)) (\<lambda>woke. woke \<ge> at)"

section \<open>The run's tree\<close>

definition newest_tree :: "run_state \<Rightarrow> (node_id \<Rightarrow> bool) \<Rightarrow> (seq \<times> tree_id) option" where
  "newest_tree S counts_close =
     max_by_key fst
       (List.map_filter (\<lambda>x. x) [latest_tree (rs_nodes S) counts_close, rl_woke_on (rs_run S)])"

definition current_change :: "run_state \<Rightarrow> changes_counted option" where
  "current_change S =
     Option.bind (rl_changes (rs_run S)) (\<lambda>counted.
       case newest_tree S (\<lambda>_. True) of
         Some (_, tree) \<Rightarrow> if tree \<noteq> cc_tree counted then None else Some counted
       | None \<Rightarrow> Some counted)"

definition tree_moved_since_failure :: "run_state \<Rightarrow> node_id \<Rightarrow> bool" where
  "tree_moved_since_failure S n =
     (case Option.bind (nodes_get (rs_nodes S) n) failed_tree of
        None \<Rightarrow> False
      | Some failed \<Rightarrow> is_some_and (newest_tree S (\<lambda>_. True)) (\<lambda>(_, tree). tree \<noteq> failed))"


section \<open>A decision is acted on once\<close>

lemma unconsumed_iff:
  "unconsumed S n at \<longleftrightarrow>
     (\<forall>c \<in> set (consumers S n). c < at) \<and> (\<forall>s. standing_wait S n = Some s \<longrightarrow> s < at)"
  unfolding unconsumed_def opt_less_max_iff by (simp add: opt_less_Some_iff)

text \<open>The events that act on a decision about \<open>n\<close>: the run pauses, \<open>n\<close> ends or is rerouted, or a new
  question about \<open>n\<close> is put to a person.\<close>

definition acts_on :: "stored_event \<Rightarrow> node_id \<Rightarrow> bool" where
  "acts_on e n =
     (case payload_of e of
        Some (Run_Payload re) \<Rightarrow> (case re of Run_Paused _ \<Rightarrow> True | _ \<Rightarrow> False)
      | Some (Node_Payload ne) \<Rightarrow>
          ev_node_id e = Some n \<and>
          (case ne of Node_Finished _ \<Rightarrow> True | Node_Failed _ \<Rightarrow> True | NodeRerouted _ \<Rightarrow> True | _ \<Rightarrow> False)
      | Some (Gates_Payload ge) \<Rightarrow>
          ev_node_id e = Some n \<and> (case ge of Gate_Waiting _ \<Rightarrow> True | _ \<Rightarrow> False)
      | _ \<Rightarrow> False)"

lemma some_mem: "c \<in> set (List.map_filter (\<lambda>x. x) xs) \<longleftrightarrow> Some c \<in> set xs"
  by (auto simp: set_map_filter)

lemma consumers_mem:
  "c \<in> set (consumers S n) \<longleftrightarrow>
     last_paused_at (rs_run S) = Some c
   \<or> last_terminal (rec_of (rs_nodes S) n) = Some c
   \<or> map_option ro_seq (last_reroute (rec_of (rs_nodes S) n)) = Some c"
  by (cases "nodes_get (rs_nodes S) n")
     (auto simp: consumers_def some_mem rec_of_def nodes_get_def record_default_def
        eq_commute [of "Some c"] simp del: List.map_filter_simps)

lemma rec_of_moved_beside_self:
  "last_terminal (rec_of (moved_beside L w left) n) = last_terminal (rec_of L n)"
  "last_reroute (rec_of (moved_beside L w left) n) = last_reroute (rec_of L n)"
  by (simp_all add: rec_of_moved_beside mark_moved_def split: option.split) (auto simp: rec_of_def)


lemma nodes_apply_consumes:
  assumes "m_node m = Some n"
    "case ne of Node_Finished _ \<Rightarrow> True | Node_Failed _ \<Rightarrow> True | NodeRerouted _ \<Rightarrow> True | _ \<Rightarrow> False"
  shows "last_terminal (rec_of (nodes_apply L ne m asleep) n) = Some (m_seq m)
       \<or> map_option ro_seq (last_reroute (rec_of (nodes_apply L ne m asleep) n)) = Some (m_seq m)"
  using assms
  by (cases ne)
     (auto simp: nodes_apply_def Let_def rec_of_moved_beside_self rec_finished_def rec_failed_def
        rec_rerouted_def reroute_of_def end_attempt_def split: option.split)

lemma gates_apply_stands:
  assumes "m_node m = Some n"
  shows "map_option snd (Option.bind (gate_get (gates_apply L (Gate_Waiting p) m) n) gr_waiting) = Some (m_seq m)"
  using assms by (simp add: gates_apply_def gate_get_def Let_def split: option.split)

lemma acts_on_consumes:
  assumes "replay_apply S e = Inr S'" "acts_on e n"
  shows "ev_seq e \<in> set (consumers S' n) \<or> standing_wait S' n = Some (ev_seq e)"
proof -
  obtain st2 where own: "apply_owners (book_event S e) e (meta_of e) = Inr st2"
    and S': "S' = st2\<lparr>rs_activity := activity_apply (rs_activity st2) e, rs_tail_paused := is_pause e\<rparr>"
    using assms(1) by (rule replay_apply_InrE)
  have same: "consumers S' n = consumers st2 n" "standing_wait S' n = standing_wait st2 n"
    by (simp_all add: S' consumers_def standing_wait_def)
  obtain p where p: "payload_of e = Some p"
    using assms(2) by (auto simp: acts_on_def split: option.splits)
  show ?thesis
  proof (cases p)
    case (Run_Payload re)
    then obtain reason where "re = Run_Paused reason"
      using assms(2) p by (auto simp: acts_on_def split: run_event.splits)
    then have "last_paused_at (rs_run st2) = Some (ev_seq e)"
      using own p Run_Payload
      by (auto simp: apply_owners_def apply_run_def last_paused_at_def meta_of_def Let_def)
    then show ?thesis by (simp add: same consumers_mem)
  next
    case (Node_Payload ne)
    then have ne: "m_node (meta_of e) = Some n"
      "case ne of Node_Finished _ \<Rightarrow> True | Node_Failed _ \<Rightarrow> True | NodeRerouted _ \<Rightarrow> True | _ \<Rightarrow> False"
      using assms(2) p by (auto simp: acts_on_def meta_of_def)
    have "rs_nodes st2 = nodes_apply (rs_nodes (book_event S e)) ne (meta_of e)
        (rl_suspensions (rs_run (book_event S e)))"
      using own p Node_Payload by (auto simp: apply_owners_def)
    then show ?thesis
      using nodes_apply_consumes [OF ne] by (auto simp: same consumers_mem meta_of_def)
  next
    case (Gates_Payload ge)
    then obtain w where w: "ge = Gate_Waiting w" and n: "m_node (meta_of e) = Some n"
      using assms(2) p by (auto simp: acts_on_def meta_of_def split: gate_event.splits)
    obtain st1 where "st2 = st1\<lparr>rs_gates := gates_apply (rs_gates st1) (Gate_Waiting w) (meta_of e)\<rparr>"
      using own p Gates_Payload w by (auto simp: apply_owners_def split: sum.splits)
    then have "standing_wait st2 n = Some (m_seq (meta_of e))"
      using gates_apply_stands [OF n] by (simp add: standing_wait_def)
    then show ?thesis by (simp add: same meta_of_def)
  qed (use assms(2) p in \<open>simp_all add: acts_on_def\<close>)
qed

lemma last_opt_mem: "last_opt xs = Some x \<Longrightarrow> x \<in> set xs"
  by (auto simp: last_opt_def split: if_splits)

lemma pre_seeded_unconsumed: "pre_seeded S n = Some (res, at) \<Longrightarrow> unconsumed S n at"
  by (auto simp: pre_seeded_def split: bind_splits if_splits)

lemma run_again_chosen_unconsumed:
  assumes "run_again_chosen S n \<noteq> None"
  obtains r res at where "gate_get (rs_gates S) n = Some r" "last_opt (own_resolutions r) = Some (res, at)"
    "unconsumed S n at"
proof -
  obtain r where r: "gate_get (rs_gates S) n = Some r"
    using assms by (cases "gate_get (rs_gates S) n") (auto simp: run_again_chosen_def)
  obtain res at where l: "last_opt (own_resolutions r) = Some (res, at)"
    using assms r by (cases "last_opt (own_resolutions r)") (auto simp: run_again_chosen_def)
  have "unconsumed S n at"
    using assms r l by (auto simp: run_again_chosen_def split: gate_resolved.splits bind_splits if_splits)
  then show ?thesis using that r l by blast
qed

text \<open>C24. A decision is acted on once. Whatever ends what a person decided about a node (the run pauses,
  the node ends or is rerouted, another question about it is put) leaves no decision taken by then to
  act on: no resolution seeded while the run was parked, and no choice to run the node again.\<close>

theorem decision_acted_on_once:
  assumes "replay_apply S e = Inr S'" "acts_on e n"
  shows "(\<forall>res at. pre_seeded S' n = Some (res, at) \<longrightarrow> ev_seq e < at)
       \<and> (run_again_chosen S' n \<noteq> None \<longrightarrow>
            (\<exists>r res at. gate_get (rs_gates S') n = Some r \<and> (res, at) \<in> set (own_resolutions r) \<and> ev_seq e < at))"
proof -
  have later: "ev_seq e < at" if "unconsumed S' n at" for at
    using acts_on_consumes [OF assms] that by (auto simp: unconsumed_iff)
  have "ev_seq e < at" if "pre_seeded S' n = Some (res, at)" for res at
    using that pre_seeded_unconsumed later by blast
  moreover have "\<exists>r res at. gate_get (rs_gates S') n = Some r \<and> (res, at) \<in> set (own_resolutions r) \<and> ev_seq e < at"
    if "run_again_chosen S' n \<noteq> None"
    using that by (rule run_again_chosen_unconsumed) (blast intro: later last_opt_mem)
  ultimately show ?thesis by blast
qed


definition parked_state :: run_state where
  "parked_state = run_state_default\<lparr>rs_gates :=
     gates_new\<lparr>gates_of := [(''plan'', gate_record_default\<lparr>resolved := [(Closed, 2)]\<rparr>)]\<rparr>\<rparr>"

definition parked_again :: stored_event where
  "parked_again = (log_event 3 30 (Run_Payload (Run_Paused Pause_Cancelled)))\<lparr>ev_node_id := None\<rparr>"

theorem decision_acted_on_once_witness:
  "pre_seeded parked_state ''plan'' = Some (Closed, 2)
 \<and> (\<exists>S'. replay_apply parked_state parked_again = Inr S' \<and> pre_seeded S' ''plan'' \<noteq> Some (Closed, 2))"
proof -
  have seeded: "pre_seeded parked_state ''plan'' = Some (Closed, 2)"
    by code_simp
  have "refuse parked_state parked_again = None"
    by (simp add: parked_again_def refuse_def log_event_def payload_of_def)
  then obtain S' where run: "replay_apply parked_state parked_again = Inr S'"
    using replay_apply_Inl [of parked_state parked_again] by (cases "replay_apply parked_state parked_again") auto
  have "acts_on parked_again ''plan''"
    by (simp add: acts_on_def parked_again_def log_event_def payload_of_def)
  from decision_acted_on_once [OF run this] have "pre_seeded S' ''plan'' \<noteq> Some (Closed, 2)"
    by (auto simp: parked_again_def log_event_def)
  with seeded run show ?thesis by blast
qed

section \<open>What a tree record says\<close>

lemma newest_tree_max:
  assumes "newest_tree S f = Some (sq, t)"
    "mark \<in> set (List.map_filter (\<lambda>x. x) [latest_tree (rs_nodes S) f, rl_woke_on (rs_run S)])"
  shows "fst mark \<le> sq"
  using max_by_key_SomeD [of fst _ "(sq, t)"] assms unfolding newest_tree_def by fastforce

lemma newest_tree_marks:
  assumes "newest_tree S f = Some (sq, t)" "(n, r) \<in> set (per_node (rs_nodes S))"
    "mark \<in> set (tree_marks (f n) r)"
  shows "fst mark \<le> sq"
proof -
  let ?marks = "concat (map (\<lambda>(n, r). tree_marks (f n) r) (per_node (rs_nodes S)))"
  have mem: "mark \<in> set ?marks" using assms(2,3) by auto
  then obtain best where best: "latest_tree (rs_nodes S) f = Some best"
    by (cases "latest_tree (rs_nodes S) f") (auto simp: latest_tree_def)
  then have "fst mark \<le> fst best"
    using max_by_key_SomeD [of fst ?marks best] mem unfolding latest_tree_def by blast
  also have "fst best \<le> sq"
    using newest_tree_max [OF assms(1), of best] best by (simp add: some_mem)
  finally show ?thesis .
qed


lemma moved_since_failure_iff:
  assumes "nodes_get (rs_nodes S) n = Some r" "last_failed r = Some failed" "failed_tree r = Some t"
  shows "tree_moved_since_failure S n \<longleftrightarrow>
     (\<exists>sq t'. newest_tree S (\<lambda>_. True) = Some (sq, t') \<and> failed \<le> sq \<and> t' \<noteq> t)"
proof -
  have mem: "(n, r) \<in> set (per_node (rs_nodes S))"
    using assms(1) by (auto simp: nodes_get_def om_get_def dest: map_of_SomeD)
  have mark: "(failed, t) \<in> set (tree_marks True r)"
    by (simp add: tree_marks_def some_mem zip_opt_def filter_opt_def assms(2,3) del: List.map_filter_simps)
  have "failed \<le> sq" if "newest_tree S (\<lambda>_. True) = Some (sq, t')" for sq t'
    using newest_tree_marks [OF that mem mark] by simp
  then show ?thesis
    using assms by (auto simp: tree_moved_since_failure_def is_some_and_iff)
qed

end
