(* ===== verification/Failure_Access.thy ===== *)
theory Failure_Access
  imports Scope_Policy Remedies
begin

text \<open>
  What a failure hands its readers (\<open>events/failure/accessors.rs\<close>): the lines its command printed,
  the run object holding its output, the paths it wrote outside its scope, the scope a grant would
  add and the artifacts that did not close; and how an attempt on an unchanged tree wraps the
  failure before it (\<open>Failure::unchanged\<close>). The lemmas show that wrapping a failure changes nothing
  that any accessor answers, and that a wider scope is wanted exactly when a grant would add one.
\<close>

fun tail :: "failure \<Rightarrow> string list" where
  "tail (Exited exited) = ce_tail exited"
| "tail (Red (Regression _ _ lines)) = lines"
| "tail (Unchanged _ f) = tail f"
| "tail (ChildFailed _ (Some child)) = tail child"
| "tail _ = []"

fun failure_output :: "failure \<Rightarrow> content_hash option" where
  "failure_output (Exited exited) = ce_output exited"
| "failure_output (Red (Command _ _ _ object)) = object"
| "failure_output (Unchanged _ f) = failure_output f"
| "failure_output (ChildFailed _ (Some child)) = failure_output child"
| "failure_output _ = None"

fun outside_scope :: "failure \<Rightarrow> path list" where
  "outside_scope (ScopeViolated outside) = outside"
| "outside_scope (Unchanged _ f) = outside_scope f"
| "outside_scope _ = []"

fun wants_scope :: "failure \<Rightarrow> bool" where
  "wants_scope (ScopeViolated outside) \<longleftrightarrow> outside \<noteq> []"
| "wants_scope (ScopeRequested requested) \<longleftrightarrow> rs_paths requested \<noteq> []"
| "wants_scope (ScopeOwed owed) \<longleftrightarrow> list_ex (\<lambda>o'. os_paths o' \<noteq> []) owed"
| "wants_scope (Unchanged _ f) \<longleftrightarrow> wants_scope f"
| "wants_scope _ \<longleftrightarrow> False"

text \<open>\<open>compiles\<close> is the glob library's answer to whether a pattern parses.\<close>

definition scope_wanted :: "(string \<Rightarrow> bool) \<Rightarrow> failure \<Rightarrow> string + scope_glob list" where
  "scope_wanted compiles f =
     (case f of
        ScopeRequested requested \<Rightarrow> Inr (rs_paths requested)
      | ScopeViolated _ \<Rightarrow> collect (map (glob_exact compiles) (outside_scope f))
      | Unchanged _ _ \<Rightarrow> collect (map (glob_exact compiles) (outside_scope f))
      | _ \<Rightarrow> Inr [])"

fun artifact_failures :: "failure \<Rightarrow> json list" where
  "artifact_failures (Artifacts broken) = broken"
| "artifact_failures (Unchanged _ f) = artifact_failures f"
| "artifact_failures _ = []"

text \<open>The refusal of an attempt on a tree nothing changed, which never nests.\<close>

definition failure_unchanged :: "u32 \<Rightarrow> failure \<Rightarrow> failure" where
  "failure_unchanged since f = (case f of Unchanged n g \<Rightarrow> Unchanged n g | _ \<Rightarrow> Unchanged since f)"

section \<open>Wrapping\<close>

definition is_unchanged :: "failure \<Rightarrow> bool" where
  "is_unchanged f = (case f of Unchanged _ _ \<Rightarrow> True | _ \<Rightarrow> False)"

lemma failure_unchanged_is: "is_unchanged (failure_unchanged n f)"
  by (cases f) (simp_all add: failure_unchanged_def is_unchanged_def)

lemma failure_unchanged_idem: "failure_unchanged m (failure_unchanged n f) = failure_unchanged n f"
  by (cases f) (simp_all add: failure_unchanged_def)

lemma accessors_of_unchanged [simp]:
  "tail (failure_unchanged n f) = tail f"
  "failure_output (failure_unchanged n f) = failure_output f"
  "outside_scope (failure_unchanged n f) = outside_scope f"
  "wants_scope (failure_unchanged n f) = wants_scope f"
  "artifact_failures (failure_unchanged n f) = artifact_failures f"
  by (cases f; simp add: failure_unchanged_def)+

lemma unchanged_scope_wanted:
  "scope_wanted ok (failure_unchanged n f) = collect (map (glob_exact ok) (outside_scope f))"
  by (cases f) (simp_all add: failure_unchanged_def scope_wanted_def)

section \<open>A wider scope\<close>

lemma collect_length: "collect xs = Inr ys \<Longrightarrow> length ys = length xs"
  by (induction xs arbitrary: ys rule: collect.induct) (auto split: sum.splits)

lemma collect_Nil_iff: "collect xs = Inr ys \<Longrightarrow> ys = [] \<longleftrightarrow> xs = []"
  using collect_length[of xs ys] by auto

lemma collect_Inr_set: "collect xs = Inr ys \<Longrightarrow> xs = map Inr ys"
  by (induction xs arbitrary: ys rule: collect.induct) (auto split: sum.splits)

lemma outside_scope_wants: "outside_scope f \<noteq> [] \<Longrightarrow> wants_scope f"
  by (induction f rule: outside_scope.induct) simp_all

text \<open>The failures whose request the node itself is granted: not a task's request, and not a
  refusal of a request repeated on the same tree.\<close>

fun node_request :: "failure \<Rightarrow> bool" where
  "node_request (ScopeOwed _) = False"
| "node_request (Unchanged _ f) \<longleftrightarrow> outside_scope f \<noteq> [] \<or> \<not> wants_scope f"
| "node_request _ = True"

lemma scope_wanted_Nil_iff:
  assumes "scope_wanted ok f = Inr globs" "node_request f"
  shows "globs \<noteq> [] \<longleftrightarrow> wants_scope f"
  using assms outside_scope_wants
  by (cases f) (auto simp: scope_wanted_def dest: collect_Nil_iff)

text \<open>Every glob a violation would be granted is the exact path it wrote.\<close>

lemma scope_wanted_exact:
  assumes "scope_wanted ok f = Inr globs" "outside_scope f \<noteq> []"
  shows "globs = map literal_text (outside_scope f)"
proof -
  have "map (glob_exact ok) (outside_scope f) = map Inr globs"
    using assms by (cases f) (auto simp: scope_wanted_def dest: collect_Inr_set)
  then show ?thesis
    by (intro nth_equalityI)
       (auto simp: list_eq_iff_nth_eq glob_exact_def Let_def split: if_splits)
qed

end
