(* ===== verification/Board.thy ===== *)
theory Board
  imports Modes Decisions Failure_Access Expansion
begin

text \<open>
  What the scheduler reads and what it answers (\<open>engine/src/run/schedule.rs\<close>,
  \<open>schedule/decision.rs\<close>, \<open>schedule/policy.rs\<close>, \<open>schedule/baseline.rs\<close>, \<open>schedule/grant.rs\<close>,
  \<open>schedule/retry.rs\<close>, \<open>schedule/follow.rs\<close>, \<open>engine/src/run/baseline.rs\<close>): the decisions, the policy
  a run froze, the board the questions of a decision read, and the measurement a lineage owes. The
  lemmas show that the walk behind \<open>depends_on\<close> decides reachability and always ends.
\<close>

section \<open>What the run does next\<close>

text \<open>\<open>Owed\<close>, and the measurement a lineage takes once.\<close>

record owed =
  owed_suite :: "string option"
  owed_held :: "(string \<times> string) list"

definition owed_is_empty :: "owed \<Rightarrow> bool" where
  "owed_is_empty o' \<longleftrightarrow> owed_suite o' = None \<and> owed_held o' = []"

definition owed_commands :: "owed \<Rightarrow> string list" where
  "owed_commands o' =
     map snd (owed_held o') @ (case owed_suite o' of None \<Rightarrow> [] | Some s \<Rightarrow> [s])"

datatype (plugins only: code size) next_decision =
  MeasureBaseline owed
| Execute "(node_id \<times> u32) list"
| Reroute node_id node_id u32 u32 failure
| Pause pause_reason
| Fail node_id failure
| GateExhaustedReroutes node_id node_id u32 failure
| EscalateFailure node_id failure u32 outlook
| Dec_WaitUntil node_id instant
| PublishGate node_id
| PollGate node_id string
| ResolveInternalGate node_id
| AskQuestions node_id
| FinishAnswered node_id
| Finish
| Broken string

section \<open>The policy\<close>

record policy =
  po_max_parallel_nodes :: u32
  po_on_interrupt :: on_interrupt
  po_on_failure :: default_on_failure
  po_mode_nodes :: "node_id list option"
  po_baseline_suite :: "string option"
  po_baseline_held :: "(string \<times> string) list"
  po_measures_aside :: bool
  po_may_promote :: bool
  po_grants_scope :: bool
  po_protected :: protected
  po_follows_builds :: bool

fun next_after :: "mode_name \<Rightarrow> (mode_name \<times> mode_spec) list \<Rightarrow> mode_name option" where
  "next_after m [] = None"
| "next_after m ((k, _) # ms) =
     (if k = m then (case ms of [] \<Rightarrow> None | (k', _) # _ \<Rightarrow> Some k') else next_after m ms)"

definition next_mode_after :: "workflow \<Rightarrow> mode_name \<Rightarrow> mode_name option" where
  "next_mode_after w m = Option.bind (wf_modes w) (next_after m)"

section \<open>The board\<close>

definition is_gate :: "node \<Rightarrow> bool" where
  "is_gate n = (case nd_kind n of Gate _ _ _ _ _ _ \<Rightarrow> True | _ \<Rightarrow> False)"

definition is_external_gate :: "node \<Rightarrow> bool" where
  "is_external_gate n = (case nd_kind n of Gate _ _ _ _ _ ext \<Rightarrow> ext \<noteq> None | _ \<Rightarrow> False)"

definition deps_in :: "dep_map \<Rightarrow> node_id \<Rightarrow> node_id list" where
  "deps_in deps i = unwrap_or (om_get deps i) []"

definition reroute_destinations :: "node \<Rightarrow> node_id list" where
  "reroute_destinations n =
     (case nd_on_failure n of Some f \<Rightarrow> [of_goto f] | None \<Rightarrow> [])
   @ (case nd_kind n of Gate _ _ _ on _ _ \<Rightarrow> map snd on | _ \<Rightarrow> [])"

definition reroute_only_targets :: "node list \<Rightarrow> dep_map \<Rightarrow> node_id list" where
  "reroute_only_targets ns deps =
     filter (\<lambda>i. deps_in deps i = [] \<and> \<not> list_ex (\<lambda>n. i \<in> set (deps_in deps (nd_id n))) ns)
       (concat (map reroute_destinations ns))"

record board =
  bo_nodes :: "node list"
  bo_dependencies :: dep_map
  bo_reroute_only :: "node_id list"
  bo_state :: run_state
  bo_policy :: policy

definition board_of :: "workflow \<Rightarrow> run_state \<Rightarrow> policy \<Rightarrow> board" where
  "board_of w S P =
     (let ns = filter (\<lambda>n. is_none_or (po_mode_nodes P) (\<lambda>ids. nd_id n \<in> set ids)) (wf_nodes w);
          deps = unwrap_or (dependencies_in_mode w (po_mode_nodes P)) []
      in \<lparr>bo_nodes = ns, bo_dependencies = deps, bo_reroute_only = reroute_only_targets ns deps,
          bo_state = S, bo_policy = P\<rparr>)"

definition deps_of :: "board \<Rightarrow> node_id \<Rightarrow> node_id list" where
  "deps_of B i = deps_in (bo_dependencies B) i"

definition node_state_on :: "board \<Rightarrow> node_id \<Rightarrow> node_state option" where
  "node_state_on B i = node_state_of (rs_nodes (bo_state B)) i"

fun is_finished :: "node_state option \<Rightarrow> bool" where
  "is_finished (Some (NS_Finished _ _)) = True"
| "is_finished _ = False"

definition bo_finished :: "board \<Rightarrow> node_id \<Rightarrow> bool" where
  "bo_finished B i = is_finished (node_state_on B i)"

text \<open>The walk of \<open>depends_on\<close>: the stack's top is the head of the list, and \<open>extend\<close> leaves the last
  dependency on top.\<close>

function depends_walk :: "dep_map \<Rightarrow> node_id \<Rightarrow> node_id list \<Rightarrow> node_id list \<Rightarrow> bool" where
  "depends_walk deps on seen [] = False"
| "depends_walk deps on seen (d # stack) =
     (if d = on then True
      else if d \<in> set seen then depends_walk deps on seen stack
      else depends_walk deps on (d # seen) (rev (deps_in deps d) @ stack))"
  by pat_completeness auto
termination
proof (relation "(\<lambda>(deps, on, seen, stack). card (fst ` set deps - set seen)) <*mlex*>
    measure (\<lambda>(deps, on, seen, stack). length stack)")
  show "wf ((\<lambda>(deps :: dep_map, on :: node_id, seen, stack :: node_id list).
        card (fst ` set deps - set seen)) <*mlex*>
      measure (\<lambda>(deps, on, seen, stack). length stack))"
    by (intro wf_mlex) simp
next
  fix deps :: dep_map and on d :: node_id and seen and stack :: "node_id list"
  assume "d \<notin> set seen"
  show "((deps, on, d # seen, rev (deps_in deps d) @ stack), deps, on, seen, d # stack)
      \<in> (\<lambda>(deps, on, seen, stack). card (fst ` set deps - set seen)) <*mlex*>
        measure (\<lambda>(deps, on, seen, stack). length stack)"
  proof (cases "d \<in> fst ` set deps")
    case True
    then have "card (fst ` set deps - set (d # seen)) < card (fst ` set deps - set seen)"
      using \<open>d \<notin> set seen\<close> by (intro psubset_card_mono) auto
    then show ?thesis by (intro mlex_less) simp
  next
    case False
    then have "deps_in deps d = []"
      by (auto simp: deps_in_def om_get_def map_of_eq_None_iff [THEN iffD2])
    moreover have "fst ` set deps - set (d # seen) = fst ` set deps - set seen" using False by auto
    ultimately show ?thesis by (intro mlex_leq) (auto simp del: list.set)
  qed
qed (auto intro: mlex_leq)

definition depends_on :: "board \<Rightarrow> node_id \<Rightarrow> node_id \<Rightarrow> bool" where
  "depends_on B i on = depends_walk (bo_dependencies B) on [] (rev (deps_of B i))"

definition deps_satisfied :: "board \<Rightarrow> node \<Rightarrow> bool" where
  "deps_satisfied B n = list_all (bo_finished B) (deps_of B (nd_id n))"

definition reroute_only :: "board \<Rightarrow> node_id \<Rightarrow> bool" where
  "reroute_only B i \<longleftrightarrow> i \<in> set (bo_reroute_only B)"

definition next_attempt :: "board \<Rightarrow> node_id \<Rightarrow> u32" where
  "next_attempt B i =
     (case nodes_get (rs_nodes (bo_state B)) i of None \<Rightarrow> 0 | Some r \<Rightarrow> attempts r) + 1"

definition gate_drive :: "node_id \<Rightarrow> string option \<Rightarrow> bool \<Rightarrow> next_decision" where
  "gate_drive i handle external =
     (case handle of
        Some ref \<Rightarrow> PollGate i ref
      | None \<Rightarrow> if external then PublishGate i else ResolveInternalGate i)"

definition drive_gate :: "board \<Rightarrow> node \<Rightarrow> next_decision" where
  "drive_gate B n =
     gate_drive (nd_id n) (last_external_ref (rs_gates (bo_state B)) (nd_id n)) (is_external_gate n)"

section \<open>Grants and retries\<close>

text \<open>\<open>matches\<close> and \<open>compiles\<close> are the glob library's answers.\<close>

definition grantable ::
  "(scope_glob \<Rightarrow> path \<Rightarrow> bool) \<Rightarrow> (string \<Rightarrow> bool) \<Rightarrow> board \<Rightarrow> node \<Rightarrow> failure \<Rightarrow> bool" where
  "grantable matches compiles B n f =
     (let widenable = po_grants_scope (bo_policy B) \<and> writes_worktree n \<and> wants_scope f;
          offered = (\<lambda>paths. case node_offer matches paths (po_protected (bo_policy B)) widenable of
                       Inl _ \<Rightarrow> False | Inr _ \<Rightarrow> True)
      in case f of
           ScopeOwed owed \<Rightarrow> list_ex (\<lambda>r. offered (os_paths r)) owed
         | _ \<Rightarrow> (case scope_wanted compiles f of Inl _ \<Rightarrow> False | Inr wanted \<Rightarrow> offered wanted))"

definition retry_chosen :: "board \<Rightarrow> node_id \<Rightarrow> outlook \<Rightarrow> bool" where
  "retry_chosen B i out =
     (case out of
        Choose rs \<Rightarrow>
          is_some_and (run_again_chosen (bo_state B) i) (\<lambda>opt. list_ex (\<lambda>r. rem_option r = opt) rs)
      | _ \<Rightarrow> False)"

section \<open>The measurement\<close>

definition shows_tasks :: "artifact_context_ref \<Rightarrow> bool" where
  "shows_tasks r \<longleftrightarrow> ar_id r = Ref_Kind Tasks_Kind"

function reads_the_measurement :: "node \<Rightarrow> bool" where
  "reads_the_measurement n =
     (case nd_kind n of
        Check b \<Rightarrow> b = BaselineCompare
      | Loop _ _ _ _ \<Rightarrow> True
      | Sub_Workflow _ _ _ _ \<Rightarrow> True
      | Gate _ _ _ _ shows_refs _ \<Rightarrow> list_ex shows_tasks shows_refs
      | Parallel _ _ ns \<Rightarrow> list_ex reads_the_measurement ns
      | _ \<Rightarrow> False)"
  by pat_completeness auto
termination
proof (relation "measure size")
  fix n x j c ns
  assume "nd_kind n = Parallel j c ns" "x \<in> set ns"
  then show "(x, n) \<in> measure size"
    using size_children [of n] size_list_estimation' [of x "children n" "size x" size]
    by (simp add: children_def)
qed simp

declare reads_the_measurement.simps [simp del]

function waits_for_the_measurement :: "node \<Rightarrow> bool" where
  "waits_for_the_measurement n =
     (case nd_kind n of
        Loop _ _ _ _ \<Rightarrow> False
      | Parallel _ _ ns \<Rightarrow> list_ex waits_for_the_measurement ns
      | _ \<Rightarrow> reads_the_measurement n)"
  by pat_completeness auto
termination
proof (relation "measure size")
  fix n x j c ns
  assume "nd_kind n = Parallel j c ns" "x \<in> set ns"
  then show "(x, n) \<in> measure size"
    using size_children [of n] size_list_estimation' [of x "children n" "size x" size]
    by (simp add: children_def)
qed simp

declare waits_for_the_measurement.simps [simp del]

definition reads_the_baseline :: "workflow \<Rightarrow> bool" where
  "reads_the_baseline w = list_ex reads_the_measurement (wf_nodes w)"

definition owed_baseline :: "run_state \<Rightarrow> policy \<Rightarrow> owed option" where
  "owed_baseline S P =
     (case po_baseline_suite P of
        None \<Rightarrow> None
      | Some suite \<Rightarrow>
          (let held = rl_baseline (rs_run S) in
           if is_some_and held (\<lambda>h. bc_origin h \<noteq> Measured) then None
           else let owes = \<lparr>owed_suite = (if held = None then Some suite else None),
                            owed_held = filter (\<lambda>(name, _). om_get (rl_held (rs_run S)) name = None)
                                          (po_baseline_held P)\<rparr>
                in if owed_is_empty owes then None else Some owes))"

definition node_in :: "workflow \<Rightarrow> node_id \<Rightarrow> node option" where
  "node_in w i = List.find (\<lambda>n. nd_id n = i) (iter_nodes w)"

definition step_reads :: "workflow \<Rightarrow> policy \<Rightarrow> next_decision \<Rightarrow> bool" where
  "step_reads w P step =
     (let waits = (\<lambda>i. is_some_and (node_in w i) waits_for_the_measurement)
      in case step of
           Execute batch \<Rightarrow> list_ex (\<lambda>(i, _). waits i) batch
         | PublishGate i \<Rightarrow> waits i
         | PollGate i _ \<Rightarrow> waits i
         | ResolveInternalGate i \<Rightarrow> waits i
         | GateExhaustedReroutes _ _ _ _ \<Rightarrow> po_may_promote P
         | _ \<Rightarrow> False)"

definition measure_before :: "workflow \<Rightarrow> run_state \<Rightarrow> policy \<Rightarrow> next_decision \<Rightarrow> next_decision" where
  "measure_before w S P step =
     (case owed_baseline S P of
        Some owes \<Rightarrow>
          if \<not> po_measures_aside P \<or> step_reads w P step then MeasureBaseline owes else step
      | None \<Rightarrow> step)"

text \<open>What a run hands to one it gives birth to.\<close>

record birth_baseline =
  bb_measured_by :: run_id
  bb_command :: string
  bb_results :: baseline_results
  bb_hash :: content_hash
  bb_held :: "baseline_held list"

definition inherited_baseline :: "run_id \<Rightarrow> run_state \<Rightarrow> birth_baseline option" where
  "inherited_baseline parent S =
     map_option (\<lambda>held.
       \<lparr>bb_measured_by = (case bc_origin held of Measured \<Rightarrow> parent | Inherited run \<Rightarrow> run),
        bb_command = bc_command held, bb_results = bc_results held, bb_hash = bc_hash held,
        bb_held = om_values (rl_held (rs_run S))\<rparr>) (rl_baseline (rs_run S))"

definition birth_captured :: "birth_baseline \<Rightarrow> baseline_captured" where
  "birth_captured b =
     \<lparr>bc_command = bb_command b, bc_results = bb_results b, bc_hash = bb_hash b,
      bc_origin = Inherited (bb_measured_by b), bc_tree = None, bc_duration_ms = None\<rparr>"

definition birth_held :: "birth_baseline \<Rightarrow> baseline_held list" where
  "birth_held b =
     map (\<lambda>h. h\<lparr>bh_origin := Inherited (bb_measured_by b), bh_tree := None, bh_duration_ms := None\<rparr>)
       (bb_held b)"

section \<open>Moving into the checkout the last unit built in\<close>

definition builds_in_the_runs_tree :: "node \<Rightarrow> bool" where
  "builds_in_the_runs_tree n \<longleftrightarrow>
     (case nd_kind n of
        Bash _ \<Rightarrow> True | Prompt _ \<Rightarrow> True | Executor _ _ _ \<Rightarrow> True
      | Check b \<Rightarrow> judges_the_tree b
      | Sub_Workflow _ _ tree _ \<Rightarrow> tree = Iso_None
      | _ \<Rightarrow> False)
   \<and> \<not> audits n"

definition works_at_the_runs_commit :: "node \<Rightarrow> bool" where
  "works_at_the_runs_commit n \<longleftrightarrow> builds_in_the_runs_tree n \<or> (audits n \<and> \<not> is_loop n)"

definition landed_and_built :: "workflow \<Rightarrow> (node_id, node_record) omap \<Rightarrow> seq option \<times> seq option" where
  "landed_and_built w recs =
     foldl (\<lambda>(landed, built) (i, r).
       case node_in w i of
         None \<Rightarrow> (landed, built)
       | Some n \<Rightarrow>
           (if lands_units n then opt_max landed (last_terminal r) else landed,
            if builds_in_the_runs_tree n then opt_max built (last_started r) else built))
       (None, None) recs"

definition landed_since_built :: "workflow \<Rightarrow> run_state \<Rightarrow> bool" where
  "landed_since_built w S =
     (case rl_bound_at (rs_run S) of
        None \<Rightarrow> False
      | Some bound \<Rightarrow>
          (case landed_and_built w (per_node (rs_nodes S)) of
             (landed, built) \<Rightarrow>
               is_some_and landed (\<lambda>l. l > bound \<and> is_none_or built (\<lambda>b. l > b))))"

definition follows_build :: "workflow \<Rightarrow> run_state \<Rightarrow> policy \<Rightarrow> (node_id \<times> u32) list \<Rightarrow> bool" where
  "follows_build w S P batch =
     (let busy = list_ex (\<lambda>r. is_running (state r) \<or> is_waiting (state r))
                   (om_values (per_node (rs_nodes S)));
          works_here = list_ex (\<lambda>(i, _). is_some_and (node_in w i) works_at_the_runs_commit) batch
      in po_follows_builds P \<and> \<not> busy \<and> works_here \<and> landed_since_built w S)"


section \<open>The walk decides reachability\<close>

lemma map_edges_deps_in: "(u, v) \<in> map_edges deps \<longleftrightarrow> v \<in> set (deps_in deps u)"
  by (cases "om_get deps u") (auto simp: map_edges_def deps_in_def)

lemma reach_leaves_seen:
  assumes "(d, on) \<in> (map_edges deps)\<^sup>*" "d \<in> set seen" "on \<notin> set seen"
    and "\<And>s t. s \<in> set seen \<Longrightarrow> (s, t) \<in> map_edges deps \<Longrightarrow> t \<in> set seen \<union> set stack"
  shows "\<exists>s \<in> set stack. (s, on) \<in> (map_edges deps)\<^sup>*"
  using assms(1,2)
proof (induction rule: converse_rtrancl_induct)
  case base
  then show ?case using assms(3) by simp
next
  case (step y z)
  then show ?case using assms(4) by blast
qed

lemma depends_walk_iff:
  assumes "on \<notin> set seen"
    "\<And>s t. s \<in> set seen \<Longrightarrow> (s, t) \<in> map_edges deps \<Longrightarrow> t \<in> set seen \<union> set stack"
  shows "depends_walk deps on seen stack \<longleftrightarrow> (\<exists>d \<in> set stack. (d, on) \<in> (map_edges deps)\<^sup>*)"
  using assms
proof (induction deps on seen stack rule: depends_walk.induct)
  case (2 deps on seen d stack)
  consider "d = on" | "d \<noteq> on" "d \<in> set seen" | "d \<noteq> on" "d \<notin> set seen" by blast
  then show ?case
  proof cases
    case 1
    then show ?thesis by auto
  next
    case 2
    have closed: "t \<in> set seen \<union> set stack" if "s \<in> set seen" "(s, t) \<in> map_edges deps" for s t
      using "2.prems"(2) [OF that] 2 by auto
    have "depends_walk deps on seen stack \<longleftrightarrow> (\<exists>s \<in> set stack. (s, on) \<in> (map_edges deps)\<^sup>*)"
      using "2.IH"(1) [OF 2] "2.prems"(1) closed by blast
    then show ?thesis
      using 2 reach_leaves_seen [of d on deps seen stack] "2.prems"(1) closed by auto
  next
    case 3
    have "depends_walk deps on (d # seen) (rev (deps_in deps d) @ stack) \<longleftrightarrow>
        (\<exists>s \<in> set (rev (deps_in deps d) @ stack). (s, on) \<in> (map_edges deps)\<^sup>*)"
      using "2.IH"(2) [OF 3] "2.prems" 3 by (fastforce simp: map_edges_deps_in)
    moreover have "(d, on) \<in> (map_edges deps)\<^sup>* \<longleftrightarrow>
        (\<exists>s \<in> set (deps_in deps d). (s, on) \<in> (map_edges deps)\<^sup>*)"
      using 3 by (metis converse_rtranclE converse_rtrancl_into_rtrancl map_edges_deps_in)
    ultimately show ?thesis using 3 by auto
  qed
qed simp

lemma depends_on_iff: "depends_on B i on \<longleftrightarrow> (i, on) \<in> (map_edges (bo_dependencies B))\<^sup>+"
proof -
  let ?E = "map_edges (bo_dependencies B)"
  have "depends_on B i on \<longleftrightarrow> (\<exists>d. (i, d) \<in> ?E \<and> (d, on) \<in> ?E\<^sup>*)"
    unfolding depends_on_def deps_of_def
    by (subst depends_walk_iff) (auto simp: map_edges_deps_in)
  also have "\<dots> \<longleftrightarrow> (i, on) \<in> ?E\<^sup>+" by (meson rtrancl_into_trancl2 tranclD)
  finally show ?thesis .
qed

section \<open>The measurement is owed once\<close>

lemma inherited_is_inherited:
  "inherited_baseline parent S = Some b \<Longrightarrow> bc_origin (birth_captured b) \<noteq> Measured"
  by (simp add: birth_captured_def)

lemma born_holding_owes_nothing:
  assumes "rl_baseline (rs_run S) = Some (birth_captured b)"
  shows "owed_baseline S P = None"
  using assms by (simp add: owed_baseline_def birth_captured_def Let_def split: option.split)

end
