(* ===== verification/Schedule.thy ===== *)
theory Schedule
  imports Board
begin

text \<open>
  The scheduler's decision function (\<open>engine/src/run/schedule.rs\<close>, \<open>schedule/failure.rs\<close>,
  \<open>schedule/reverify.rs\<close>, \<open>schedule/ready.rs\<close>): seven questions asked in order, the first that
  answers decides.
\<close>

section \<open>Gates, waits, answers and orphans\<close>

definition gate_step :: "board \<Rightarrow> next_decision option" where
  "gate_step B =
     map_option (drive_gate B)
       (List.find (\<lambda>n. is_gate n \<and> is_running (node_state_on B (nd_id n))) (bo_nodes B))"

definition waiting_answer :: "board \<Rightarrow> node \<Rightarrow> next_decision option" where
  "waiting_answer B n =
     (case node_state_on B (nd_id n) of
        Some (NS_Waiting (Wait_Gate ref)) \<Rightarrow> Some (gate_drive (nd_id n) ref (is_external_gate n))
      | Some (NS_Waiting (Wait_Questions _)) \<Rightarrow> Some (AskQuestions (nd_id n))
      | _ \<Rightarrow> None)"

definition waiting_step :: "board \<Rightarrow> next_decision option" where
  "waiting_step B = find_map (waiting_answer B) (bo_nodes B)"

definition answered_step :: "board \<Rightarrow> next_decision option" where
  "answered_step B =
     map_option (\<lambda>n. FinishAnswered (nd_id n))
       (List.find (\<lambda>n. rs_answered_unfinished (bo_state B) (nd_id n)) (bo_nodes B))"

definition resume_policies :: "node list \<Rightarrow> run_state \<Rightarrow> on_interrupt \<Rightarrow> resume_policy list" where
  "resume_policies ns S inherited =
     map (\<lambda>n. \<lparr>rp_node = nd_id n, rp_on_interrupt = unwrap_or (nd_on_interrupt n) inherited\<rparr>)
       (filter (\<lambda>n. \<not> is_gate n \<and> is_running (node_state_of (rs_nodes S) (nd_id n))) ns)"

definition orphan_step :: "board \<Rightarrow> next_decision option" where
  "orphan_step B =
     (let orphaned = resume_policies (bo_nodes B) (bo_state B) (po_on_interrupt (bo_policy B));
          uncertain = map rp_node (filter (\<lambda>p. rp_on_interrupt p = FailIfUncertain) orphaned)
      in if orphaned = [] then None
         else if uncertain \<noteq> [] then Some (Pause (Pause_UncertainOrphans uncertain))
         else Some (Execute (map (\<lambda>p. (rp_node p, next_attempt B (rp_node p))) orphaned)))"

section \<open>Failures\<close>

definition facts_of ::
  "(scope_glob \<Rightarrow> path \<Rightarrow> bool) \<Rightarrow> (string \<Rightarrow> bool) \<Rightarrow> board \<Rightarrow> node \<Rightarrow> failure \<Rightarrow> instant \<Rightarrow> facts" where
  "facts_of matches compiles B n f at =
     \<lparr>failed_at = at, fact_continuable = continuable_by (rs_tasks (bo_state B)) (nd_id n),
      may_grant = grantable matches compiles B n f,
      tree_moved = tree_moved_since_failure (bo_state B) (nd_id n)\<rparr>"

definition correction_can_change :: "failure \<Rightarrow> outlook \<Rightarrow> bool" where
  "correction_can_change f out \<longleftrightarrow>
     \<not> (case f of Unchanged _ g \<Rightarrow> is_plan_unpassable g | _ \<Rightarrow> False)
   \<and> \<not> (case out of WaitUntil _ \<Rightarrow> True | _ \<Rightarrow> False)
   \<and> \<not> (case out of Stuck s \<Rightarrow> s = FrozenConfig \<or> s = Frozen_Input | _ \<Rightarrow> False)"

definition paused_failure :: "board \<Rightarrow> node \<Rightarrow> failure \<Rightarrow> outlook \<Rightarrow> next_decision" where
  "paused_failure B n f out =
     (let i = nd_id n; again = Execute [(i, next_attempt B i)] in
      case out of
        WaitUntil at \<Rightarrow> if reset_waited (bo_state B) i at then again else Dec_WaitUntil i at
      | _ \<Rightarrow>
          if is_gate n then Pause (Pause_NodeFailed i f)
          else if retry_chosen B i out then again
          else EscalateFailure i f (next_attempt B i) out)"

definition unrerouted ::
  "(scope_glob \<Rightarrow> path \<Rightarrow> bool) \<Rightarrow> (string \<Rightarrow> bool) \<Rightarrow> board \<Rightarrow> node \<Rightarrow> failure \<Rightarrow> u32 \<Rightarrow> instant \<Rightarrow>
     next_decision option" where
  "unrerouted matches compiles B n f done_reroutes at =
     (let out = remedies f (facts_of matches compiles B n f at) in
      case filter_opt (\<lambda>_. correction_can_change f out) (nd_on_failure n) of
        Some spec \<Rightarrow>
          if done_reroutes < of_max_reroutes spec
          then Some (Reroute (nd_id n) (of_goto spec) (done_reroutes + 1) (of_max_reroutes spec) f)
          else Some (GateExhaustedReroutes (nd_id n) (of_goto spec) (of_max_reroutes spec) f)
      | None \<Rightarrow>
          (case po_on_failure (bo_policy B) of
             On_Pause \<Rightarrow> Some (paused_failure B n f out)
           | On_Abort \<Rightarrow> Some (Fail (nd_id n) f)
           | On_Continue \<Rightarrow> None))"

datatype stale = Rerun node_id | Stale_Failed

definition stale_since :: "board \<Rightarrow> seq \<Rightarrow> node_id \<Rightarrow> bool" where
  "stale_since B corrected i =
     is_none_or (Option.bind (nodes_get (rs_nodes (bo_state B)) i) last_finished) (\<lambda>sq. sq < corrected)"

definition between_nodes :: "board \<Rightarrow> node_id \<Rightarrow> node_id \<Rightarrow> node_id list" where
  "between_nodes B to failed =
     filter (\<lambda>i. depends_on B i to \<and> depends_on B failed i)
       (filter (\<lambda>i. i \<noteq> to \<and> i \<noteq> failed) (map nd_id (bo_nodes B)))"

definition stale_between :: "board \<Rightarrow> node_id \<Rightarrow> node_id \<Rightarrow> seq \<Rightarrow> stale option" where
  "stale_between B to failed corrected =
     (let between = between_nodes B to failed in
      case List.find (\<lambda>i. stale_since B corrected i \<and>
             list_all (\<lambda>d. d \<notin> set between \<or> \<not> stale_since B corrected d) (deps_of B i)) between of
        None \<Rightarrow> None
      | Some i \<Rightarrow>
          Some (if is_some_and (Option.bind (nodes_get (rs_nodes (bo_state B)) i) last_failed)
                     (\<lambda>sq. sq > corrected)
                then Stale_Failed else Rerun i))"

definition run_or_drive :: "board \<Rightarrow> node option \<Rightarrow> node_id \<Rightarrow> next_decision" where
  "run_or_drive B found i =
     (case found of
        Some n \<Rightarrow> if is_gate n then drive_gate B n else Execute [(i, next_attempt B i)]
      | None \<Rightarrow> Execute [(i, next_attempt B i)])"

definition after_reroute :: "board \<Rightarrow> node \<Rightarrow> node_id \<Rightarrow> seq \<Rightarrow> next_decision option" where
  "after_reroute B n to reroute_seq =
     (let corrective = unwrap_or (nodes_get (rs_nodes (bo_state B)) to) record_default in
      case filter_opt (\<lambda>sq. sq > reroute_seq) (last_finished corrective) of
        Some corrected \<Rightarrow>
          (case stale_between B to (nd_id n) corrected of
             Some (Rerun i) \<Rightarrow>
               Some (run_or_drive B (List.find (\<lambda>m. nd_id m = i) (bo_nodes B)) i)
           | Some Stale_Failed \<Rightarrow> None
           | None \<Rightarrow> Some (run_or_drive B (Some n) (nd_id n)))
      | None \<Rightarrow>
          if is_some_and (last_failed corrective) (\<lambda>sq. sq > reroute_seq) then None
          else Some (Execute [(to, next_attempt B to)]))"

definition failure_of :: "board \<Rightarrow> node_id \<Rightarrow> failure option" where
  "failure_of B i = (case node_state_on B i of Some (NS_Failed f _) \<Rightarrow> Some f | _ \<Rightarrow> None)"

definition rerouted_for_this :: "node_record \<Rightarrow> (seq \<times> node_id) option" where
  "rerouted_for_this r =
     map_option (\<lambda>ro. (ro_seq ro, ro_to ro))
       (filter_opt (\<lambda>ro. opt_less (last_failed r) (Some (ro_seq ro))) (last_reroute r))"

definition failed_answer ::
  "(scope_glob \<Rightarrow> path \<Rightarrow> bool) \<Rightarrow> (string \<Rightarrow> bool) \<Rightarrow> board \<Rightarrow> node \<Rightarrow> next_decision option" where
  "failed_answer matches compiles B n =
     (case failure_of B (nd_id n) of
        None \<Rightarrow> None
      | Some f \<Rightarrow>
          (let r = unwrap_or (nodes_get (rs_nodes (bo_state B)) (nd_id n)) record_default in
           case rerouted_for_this r of
             None \<Rightarrow>
               unrerouted matches compiles B n f (on_failure_reroutes r) (unwrap_or (last_terminal_at r) 0)
           | Some (reroute_seq, to) \<Rightarrow> after_reroute B n to reroute_seq))"

definition failure_step ::
  "(scope_glob \<Rightarrow> path \<Rightarrow> bool) \<Rightarrow> (string \<Rightarrow> bool) \<Rightarrow> board \<Rightarrow> next_decision option" where
  "failure_step matches compiles B = find_map (failed_answer matches compiles B) (bo_nodes B)"

section \<open>Invariants whose pass no longer speaks for the tree\<close>

definition pass_is_stale :: "(seq \<times> tree_id) option \<Rightarrow> node_record \<Rightarrow> bool" where
  "pass_is_stale newest r \<longleftrightarrow>
     is_finished (state r)
   \<and> (rec_tree_moved r
      \<or> is_some_and newest (\<lambda>(at, tree).
           is_some_and (last_finished r) (\<lambda>finished. finished < at)
         \<and> is_some_and (left_tree r) (\<lambda>left. left \<noteq> tree)))"

definition reverify_step :: "board \<Rightarrow> next_decision option" where
  "reverify_step B =
     (if list_ex (\<lambda>r. is_running (state r)) (om_values (per_node (rs_nodes (bo_state B)))) then None
      else
        let verifiers = filter verifies_the_tree (bo_nodes B);
            newest = newest_tree (bo_state B) (\<lambda>i. \<not> list_ex (\<lambda>n. nd_id n = i) verifiers)
        in map_option (\<lambda>n. Execute [(nd_id n, next_attempt B (nd_id n))])
             (List.find (\<lambda>n. is_some_and (nodes_get (rs_nodes (bo_state B)) (nd_id n)) (pass_is_stale newest))
                verifiers))"

section \<open>What is ready\<close>

definition fresh :: "board \<Rightarrow> node \<Rightarrow> bool" where
  "fresh B n \<longleftrightarrow> \<not> has_state (rs_nodes (bo_state B)) (nd_id n) \<and> \<not> reroute_only B (nd_id n)
     \<and> deps_satisfied B n"

definition ready_gate :: "board \<Rightarrow> next_decision option" where
  "ready_gate B = map_option (drive_gate B) (List.find (\<lambda>n. is_gate n \<and> fresh B n) (bo_nodes B))"

definition capacity :: "policy \<Rightarrow> nat" where
  "capacity P = unat (max (po_max_parallel_nodes P) 1)"

definition ready_nodes :: "board \<Rightarrow> next_decision option" where
  "ready_nodes B =
     (let batch = map (\<lambda>n. (nd_id n, 1))
                    (take (capacity (bo_policy B)) (filter (\<lambda>n. \<not> is_gate n \<and> fresh B n) (bo_nodes B)))
      in if batch = [] then None else Some (Execute batch))"

definition left_undone :: "board \<Rightarrow> node \<Rightarrow> bool" where
  "left_undone B n \<longleftrightarrow> \<not> bo_finished B (nd_id n)
     \<and> \<not> (reroute_only B (nd_id n) \<and> \<not> has_state (rs_nodes (bo_state B)) (nd_id n))"

definition nothing_runnable :: "board \<Rightarrow> next_decision" where
  "nothing_runnable B =
     (case List.find (left_undone B) (bo_nodes B) of
        None \<Rightarrow> Finish
      | Some stuck \<Rightarrow>
          (let blocked = Pause (Pause_Blocked (nd_id stuck)
                 (filter (\<lambda>d. \<not> bo_finished B d) (deps_of B (nd_id stuck))))
           in if po_on_failure (bo_policy B) = On_Continue then
                (case find_map (\<lambda>n. map_option (Pair (nd_id n)) (failure_of B (nd_id n))) (bo_nodes B) of
                   Some (i, f) \<Rightarrow> Fail i f
                 | None \<Rightarrow> blocked)
              else blocked))"

definition ready_batch :: "board \<Rightarrow> next_decision" where
  "ready_batch B = unwrap_or (or_else (ready_gate B) (ready_nodes B)) (nothing_runnable B)"

section \<open>The decision\<close>

definition next_step ::
  "(scope_glob \<Rightarrow> path \<Rightarrow> bool) \<Rightarrow> (string \<Rightarrow> bool) \<Rightarrow> board \<Rightarrow> next_decision" where
  "next_step matches compiles B =
     unwrap_or
       (or_else (gate_step B)
       (or_else (waiting_step B)
       (or_else (answered_step B)
       (or_else (orphan_step B)
       (or_else (failure_step matches compiles B)
                (reverify_step B))))))
       (ready_batch B)"

definition decide ::
  "(scope_glob \<Rightarrow> path \<Rightarrow> bool) \<Rightarrow> (string \<Rightarrow> bool) \<Rightarrow> workflow \<Rightarrow> run_state \<Rightarrow> policy \<Rightarrow> next_decision" where
  "decide matches compiles w S P =
     (case rs_broken S of
        Some diagnostic \<Rightarrow> Broken diagnostic
      | None \<Rightarrow> measure_before w S P (next_step matches compiles (board_of w S P)))"

end
