(* ===== verification/Progress.thy ===== *)
theory Progress
  imports Schedule
begin

text \<open>
  What the scheduler promises: no node starts before what it waits on, no orphan is restarted that
  may not be, reroutes stay under their cap, a run finishes only when its work is done, and a run
  with no failure is never stuck.
\<close>

section \<open>Reading a decision back\<close>

lemma or_else_Some_iff: "or_else x y = Some z \<longleftrightarrow> x = Some z \<or> (x = None \<and> y = Some z)"
  by (cases x) (simp_all add: or_else_def)

lemma unwrap_or_or_else: "unwrap_or (or_else x y) z = (case x of Some v \<Rightarrow> v | None \<Rightarrow> unwrap_or y z)"
  by (cases x) (simp_all add: or_else_def)

lemma measure_before_same:
  "measure_before w S P step = d \<Longrightarrow> (\<forall>o'. d \<noteq> MeasureBaseline o') \<Longrightarrow> step = d"
  by (auto simp: measure_before_def split: option.splits if_splits)

lemma decideE:
  assumes "decide matches compiles w S P = d" "\<forall>o'. d \<noteq> MeasureBaseline o'" "\<forall>t. d \<noteq> Broken t"
  shows "rs_broken S = None" "next_step matches compiles (board_of w S P) = d"
  using assms measure_before_same [of w S P _ d] by (auto simp: decide_def split: option.splits)

text \<open>The seven questions, and which of them answered.\<close>

lemma next_step_cases:
  obtains (gate) d where "gate_step B = Some d" "next_step matches compiles B = d"
  | (waiting) d where "gate_step B = None" "waiting_step B = Some d" "next_step matches compiles B = d"
  | (answered) d where "answered_step B = Some d" "next_step matches compiles B = d"
  | (orphan) d where "gate_step B = None" "waiting_step B = None" "orphan_step B = Some d"
      "next_step matches compiles B = d"
  | (failed) d where "gate_step B = None" "waiting_step B = None" "orphan_step B = None"
      "failure_step matches compiles B = Some d" "next_step matches compiles B = d"
  | (reverify) d where "orphan_step B = None" "failure_step matches compiles B = None"
      "reverify_step B = Some d" "next_step matches compiles B = d"
  | (ready) "gate_step B = None" "waiting_step B = None" "orphan_step B = None"
      "failure_step matches compiles B = None" "reverify_step B = None"
      "next_step matches compiles B = ready_batch B"
  unfolding next_step_def unwrap_or_or_else
  by (cases "gate_step B"; cases "waiting_step B"; cases "answered_step B"; cases "orphan_step B";
      cases "failure_step matches compiles B"; cases "reverify_step B") (auto simp: unwrap_or_def)

text \<open>What each question can answer.\<close>

definition drives :: "next_decision \<Rightarrow> bool" where
  "drives d = (case d of PollGate _ _ \<Rightarrow> True | PublishGate _ \<Rightarrow> True | ResolveInternalGate _ \<Rightarrow> True | _ \<Rightarrow> False)"

lemma drives_gate_drive [simp]: "drives (gate_drive i h e)"
  by (simp add: gate_drive_def drives_def split: option.split)

lemma drives_drive_gate [simp]: "drives (drive_gate B n)"
  by (simp add: drive_gate_def)

lemma drives_not [simp]:
  "\<not> drives (Execute b)" "\<not> drives (Pause r)" "\<not> drives (Fail i f)" "\<not> drives Finish"
  "\<not> drives (Reroute i t k m f)"
  by (simp_all add: drives_def)

lemma gate_step_drives: "gate_step B = Some d \<Longrightarrow> drives d"
  by (auto simp: gate_step_def)

lemma ready_gate_drives: "ready_gate B = Some d \<Longrightarrow> drives d"
  by (auto simp: ready_gate_def)

lemma waiting_answer_cases:
  "waiting_answer B n =
     (if is_waiting (node_state_on B (nd_id n)) then
        (case waiting_on (the (node_state_on B (nd_id n))) of
           Some (Wait_Gate ref) \<Rightarrow> Some (gate_drive (nd_id n) ref (is_external_gate n))
         | Some (Wait_Questions _) \<Rightarrow> Some (AskQuestions (nd_id n))
         | None \<Rightarrow> None)
      else None)"
proof (cases "node_state_on B (nd_id n)")
  case (Some s)
  show ?thesis
  proof (cases s)
    case (NS_Waiting on)
    then show ?thesis using Some by (cases on) (simp_all add: waiting_answer_def is_waiting_def waiting_on_def)
  qed (use Some in \<open>simp_all add: waiting_answer_def is_waiting_def\<close>)
qed (simp add: waiting_answer_def is_waiting_def)

lemma waiting_step_asks:
  assumes "waiting_step B = Some d"
  shows "drives d \<or> (\<exists>i. d = AskQuestions i)"
proof -
  obtain n where "waiting_answer B n = Some d"
    using assms unfolding waiting_step_def by (auto dest: find_map_SomeD)
  then show ?thesis
    by (auto simp: waiting_answer_cases split: if_split_asm option.split_asm node_wait.split_asm)
qed

lemma answered_step_finishes: "answered_step B = Some d \<Longrightarrow> \<exists>i. d = FinishAnswered i"
  by (auto simp: answered_step_def)

lemma orphan_step_Execute:
  assumes "orphan_step B = Some (Execute batch)"
  shows "batch \<noteq> []"
    and "batch = map (\<lambda>n. (nd_id n, next_attempt B (nd_id n)))
        (filter (\<lambda>n. \<not> is_gate n \<and> is_running (node_state_on B (nd_id n))) (bo_nodes B))"
    and "\<forall>n \<in> set (bo_nodes B). \<not> is_gate n \<and> is_running (node_state_on B (nd_id n)) \<longrightarrow>
        unwrap_or (nd_on_interrupt n) (po_on_interrupt (bo_policy B)) \<noteq> FailIfUncertain"
  using assms
  by (auto simp: orphan_step_def Let_def resume_policies_def node_state_on_def filter_empty_conv comp_def
      split: if_splits)

lemma orphan_step_None: "orphan_step B = None \<longleftrightarrow>
    (\<forall>n \<in> set (bo_nodes B). \<not> is_gate n \<longrightarrow> \<not> is_running (node_state_on B (nd_id n)))"
  by (auto simp: orphan_step_def Let_def resume_policies_def node_state_on_def filter_empty_conv)

lemma find_None_iff': "List.find p xs = None \<longleftrightarrow> (\<forall>x \<in> set xs. \<not> p x)"
  by (auto simp: find_None_iff)

lemma find_SomeD': "List.find p xs = Some x \<Longrightarrow> x \<in> set xs \<and> p x"
  by (auto simp: find_Some_iff)

lemma gate_step_None: "gate_step B = None \<longleftrightarrow>
    (\<forall>n \<in> set (bo_nodes B). is_gate n \<longrightarrow> \<not> is_running (node_state_on B (nd_id n)))"
  by (auto simp: gate_step_def find_None_iff')

lemma waiting_step_None: "waiting_step B = None \<longleftrightarrow>
    (\<forall>n \<in> set (bo_nodes B). \<not> is_waiting (node_state_on B (nd_id n)))"
  unfolding waiting_step_def find_map_None_iff
  by (intro ball_cong refl)
     (auto simp: waiting_answer_def is_waiting_def split: option.splits node_state.splits node_wait.splits)

lemma has_state_iff: "has_state L i \<longleftrightarrow> node_state_of L i \<noteq> None"
  by (auto simp: has_state_def node_state_of_def is_some_and_iff split: bind_splits)

lemma node_state_cases:
  assumes "\<not> is_running s" "\<not> is_waiting s"
  obtains "s = None" | "is_finished s" | f t where "s = Some (NS_Failed f t)"
  using assms by (cases s rule: is_finished.cases) (auto simp: is_running_def is_waiting_def)

lemma ready_nodes_Execute:
  assumes "ready_nodes B = Some (Execute batch)"
  shows "batch \<noteq> []" "length batch \<le> capacity (bo_policy B)"
    and "batch = map (\<lambda>n. (nd_id n, 1))
      (take (capacity (bo_policy B)) (filter (\<lambda>n. \<not> is_gate n \<and> fresh B n) (bo_nodes B)))"
  using assms by (auto simp: ready_nodes_def Let_def split: if_splits)

lemma nothing_runnable_not_Execute: "nothing_runnable B \<noteq> Execute batch"
  by (auto simp: nothing_runnable_def Let_def split: option.split)

lemma ready_batch_Execute: "ready_batch B = Execute batch \<Longrightarrow> ready_nodes B = Some (Execute batch)"
proof -
  assume "ready_batch B = Execute batch"
  moreover have "ready_gate B \<noteq> Some (Execute batch)" using ready_gate_drives by fastforce
  ultimately show ?thesis
    using nothing_runnable_not_Execute [of B batch]
    by (cases "ready_gate B"; cases "ready_nodes B") (auto simp: ready_batch_def or_else_def)
qed


section \<open>Who is executed\<close>

definition is_failed :: "node_state option \<Rightarrow> bool" where
  "is_failed s = (case s of Some (NS_Failed _ _) \<Rightarrow> True | _ \<Rightarrow> False)"

lemma failure_of_iff: "failure_of B i \<noteq> None \<longleftrightarrow> is_failed (node_state_on B i)"
  by (auto simp: failure_of_def is_failed_def split: option.split node_state.split)

lemma states_exclude:
  "is_running s \<Longrightarrow> s \<noteq> None \<and> \<not> is_failed s \<and> \<not> is_finished s"
  "is_failed s \<Longrightarrow> s \<noteq> None \<and> \<not> is_finished s" "is_finished s \<Longrightarrow> s \<noteq> None"
  by (cases s rule: is_finished.cases; simp add: is_running_def is_failed_def)+

definition record_on :: "board \<Rightarrow> node_id \<Rightarrow> node_record" where
  "record_on B i = unwrap_or (nodes_get (rs_nodes (bo_state B)) i) record_default"

text \<open>A failed node of the board whose failure control was already sent to \<open>to\<close> for, at \<open>sq\<close>.\<close>

definition rerouted :: "board \<Rightarrow> node \<Rightarrow> seq \<Rightarrow> node_id \<Rightarrow> bool" where
  "rerouted B n sq to \<longleftrightarrow>
     n \<in> set (bo_nodes B) \<and> is_failed (node_state_on B (nd_id n))
   \<and> rerouted_for_this (record_on B (nd_id n)) = Some (sq, to)"

text \<open>The work a reroute brings: its destination, and what lies between the destination and the node
  that failed.\<close>

definition corrects :: "board \<Rightarrow> node_id \<Rightarrow> bool" where
  "corrects B i \<longleftrightarrow>
     (\<exists>n sq to. rerouted B n sq to \<and> (i = to \<or> (depends_on B i to \<and> depends_on B (nd_id n) i)))"

lemma stale_between_Rerun:
  assumes "stale_between B to failed corrected = Some (Rerun i)"
  shows "i \<in> set (between_nodes B to failed)" "stale_since B corrected i"
    "\<forall>d \<in> set (deps_of B i). d \<in> set (between_nodes B to failed) \<longrightarrow> \<not> stale_since B corrected d"
  using assms
  by (auto simp: stale_between_def Let_def list_all_iff dest!: find_SomeD' split: option.splits if_splits)

lemma run_or_drive_Execute:
  "run_or_drive B found i = Execute batch \<Longrightarrow>
     batch = [(i, next_attempt B i)] \<and> (\<forall>n. found = Some n \<longrightarrow> \<not> is_gate n)"
  by (auto simp: run_or_drive_def split: option.splits if_splits) (metis drives_drive_gate drives_not(1))+

lemma after_reroute_Execute:
  assumes "after_reroute B n to sq = Some (Execute batch)"
  obtains (correction) "batch = [(to, next_attempt B to)]"
  | (between) i where "batch = [(i, next_attempt B i)]" "depends_on B i to" "depends_on B (nd_id n) i"
      "i \<noteq> nd_id n"
  | (again) corrected where "batch = [(nd_id n, next_attempt B (nd_id n))]" "\<not> is_gate n"
      "last_finished (record_on B to) = Some corrected" "sq < corrected"
      "stale_between B to (nd_id n) corrected = None"
proof -
  let ?r = "unwrap_or (nodes_get (rs_nodes (bo_state B)) to) record_default"
  show ?thesis
  proof (cases "filter_opt (\<lambda>s. s > sq) (last_finished ?r)")
    case None
    then show ?thesis
      using assms correction by (auto simp: after_reroute_def Let_def split: if_splits)
  next
    case (Some corrected)
    then have c: "last_finished (record_on B to) = Some corrected" "sq < corrected"
      by (auto simp: filter_opt_def record_on_def split: option.splits if_splits)
    consider (none) "stale_between B to (nd_id n) corrected = None"
      | (rerun) i where "stale_between B to (nd_id n) corrected = Some (Rerun i)"
      | (stop) "stale_between B to (nd_id n) corrected = Some Stale_Failed"
      by (metis option.exhaust stale.exhaust)
    then show ?thesis
    proof cases
      case none
      then have "run_or_drive B (Some n) (nd_id n) = Execute batch"
        using assms Some by (simp add: after_reroute_def Let_def)
      then show ?thesis using again c none run_or_drive_Execute by blast
    next
      case (rerun i)
      then have "run_or_drive B (List.find (\<lambda>m. nd_id m = i) (bo_nodes B)) i = Execute batch"
        using assms Some by (simp add: after_reroute_def Let_def)
      then have "batch = [(i, next_attempt B i)]" by (auto dest: run_or_drive_Execute)
      moreover have "depends_on B i to" "depends_on B (nd_id n) i" "i \<noteq> nd_id n"
        using stale_between_Rerun(1) [OF rerun] by (auto simp: between_nodes_def)
      ultimately show ?thesis by (rule between)
    next
      case stop
      then show ?thesis using assms Some by (simp add: after_reroute_def Let_def)
    qed
  qed
qed

text \<open>What the failure step runs: a failed node again, or the work a reroute brings.\<close>

lemma unrerouted_Execute:
  assumes "unrerouted matches compiles B n f k at = Some (Execute batch)"
  shows "batch = [(nd_id n, next_attempt B (nd_id n))]"
    and "is_gate n \<longrightarrow> (\<exists>reset. reset_waited (bo_state B) (nd_id n) reset)"
  using assms
  by (auto simp: unrerouted_def Let_def paused_failure_def split: option.splits if_splits
      default_on_failure.splits outlook.splits)

lemma failure_step_Execute:
  assumes "failure_step matches compiles B = Some (Execute batch)"
  obtains i where "batch = [(i, next_attempt B i)]"
    "corrects B i \<or> (\<exists>n \<in> set (bo_nodes B). nd_id n = i \<and> is_failed (node_state_on B i)
        \<and> (is_gate n \<longrightarrow> (\<exists>reset. reset_waited (bo_state B) i reset)))"
proof -
  obtain n where n: "n \<in> set (bo_nodes B)" "failed_answer matches compiles B n = Some (Execute batch)"
    using assms unfolding failure_step_def by (auto dest: find_map_SomeD)
  then obtain f where f: "failure_of B (nd_id n) = Some f"
    by (auto simp: failed_answer_def split: option.splits)
  then have failed: "is_failed (node_state_on B (nd_id n))" using failure_of_iff by blast
  show ?thesis
  proof (cases "rerouted_for_this (record_on B (nd_id n))")
    case None
    then have "unrerouted matches compiles B n f (on_failure_reroutes (record_on B (nd_id n)))
        (unwrap_or (last_terminal_at (record_on B (nd_id n))) 0) = Some (Execute batch)"
      using n f by (simp add: failed_answer_def record_on_def Let_def)
    from unrerouted_Execute [OF this] show ?thesis using that n(1) failed by blast
  next
    case (Some p)
    obtain sq to where p: "p = (sq, to)" by fastforce
    have r: "rerouted B n sq to" using n failed Some p by (simp add: rerouted_def)
    have "after_reroute B n to sq = Some (Execute batch)"
      using n f Some p by (simp add: failed_answer_def record_on_def Let_def)
    then show ?thesis
    proof (cases rule: after_reroute_Execute)
      case correction
      then show ?thesis using that r by (auto simp: corrects_def)
    next
      case (between i)
      then show ?thesis using that r by (auto simp: corrects_def)
    next
      case (again corrected)
      then show ?thesis using that n(1) failed by blast
    qed
  qed
qed

lemma reverify_step_Execute:
  assumes "reverify_step B = Some d"
  obtains n where "d = Execute [(nd_id n, next_attempt B (nd_id n))]" "n \<in> set (bo_nodes B)"
    "verifies_the_tree n" "is_finished (node_state_on B (nd_id n))"
proof -
  obtain newest n where find: "List.find (\<lambda>n. is_some_and (nodes_get (rs_nodes (bo_state B)) (nd_id n))
        (pass_is_stale newest)) (filter verifies_the_tree (bo_nodes B)) = Some n"
    and d: "d = Execute [(nd_id n, next_attempt B (nd_id n))]"
    using assms by (auto simp: reverify_step_def Let_def split: if_splits)
  then have n: "n \<in> set (bo_nodes B)" "verifies_the_tree n"
    "is_some_and (nodes_get (rs_nodes (bo_state B)) (nd_id n)) (pass_is_stale newest)"
    by (auto dest!: find_SomeD')
  then have "is_finished (node_state_on B (nd_id n))"
    by (auto simp: is_some_and_iff pass_is_stale_def node_state_on_def node_state_of_def nodes_get_def)
  then show ?thesis using that d n by blast
qed


text \<open>What the failure step never answers, and when it reroutes.\<close>

lemma paused_failure_not [simp]:
  "paused_failure B n f out \<noteq> Finish" "paused_failure B n f out \<noteq> Reroute i t k m g"
  "paused_failure B n f out \<noteq> Fail i g"
  by (auto simp: paused_failure_def Let_def split: outlook.split)

lemma run_or_drive_cases: "drives (run_or_drive B found i) \<or> (\<exists>b. run_or_drive B found i = Execute b)"
  by (simp add: run_or_drive_def split: option.split)

lemma after_reroute_cases:
  "after_reroute B n to sq = Some d \<Longrightarrow> drives d \<or> (\<exists>b. d = Execute b)"
  using run_or_drive_cases
  by (auto simp: after_reroute_def Let_def split: option.split_asm stale.split_asm if_split_asm)

lemma failed_answerE:
  assumes "failed_answer matches compiles B n = Some d"
  obtains f where "failure_of B (nd_id n) = Some f"
    "unrerouted matches compiles B n f (on_failure_reroutes (record_on B (nd_id n)))
       (unwrap_or (last_terminal_at (record_on B (nd_id n))) 0) = Some d"
  | "drives d \<or> (\<exists>b. d = Execute b)"
  using assms after_reroute_cases
  by (auto simp: failed_answer_def record_on_def Let_def split: option.split_asm prod.split_asm)

lemma failure_step_not_Finish: "failure_step matches compiles B \<noteq> Some Finish"
proof
  assume "failure_step matches compiles B = Some Finish"
  then obtain n where "failed_answer matches compiles B n = Some Finish"
    unfolding failure_step_def by (auto dest: find_map_SomeD)
  then show False
    by (cases rule: failed_answerE)
       (auto simp: unrerouted_def Let_def split: option.splits if_splits default_on_failure.splits)
qed

lemma word_succ_pos: "(a :: 'a::len word) < b \<Longrightarrow> 0 < a + 1"
  by uint_arith

lemma unrerouted_Reroute:
  assumes "unrerouted matches compiles B n f done_reroutes at = Some (Reroute i to k cap g)"
  shows "i = nd_id n" "g = f" "nd_on_failure n = Some \<lparr>of_goto = to, of_max_reroutes = cap\<rparr>"
    "k = done_reroutes + 1" "done_reroutes < cap"
  using assms
  by (auto simp: unrerouted_def Let_def filter_opt_def
      split: option.splits if_splits default_on_failure.splits)

lemma failure_step_Reroute:
  assumes "failure_step matches compiles B = Some (Reroute i to k cap f)"
  obtains n t where "n \<in> set (bo_nodes B)" "nd_id n = i"
    "nd_on_failure n = Some \<lparr>of_goto = to, of_max_reroutes = cap\<rparr>"
    "node_state_of (rs_nodes (bo_state B)) i = Some (NS_Failed f t)"
    "k = on_failure_reroutes (record_on B i) + 1" "0 < k" "k \<le> cap"
proof -
  obtain n where n: "n \<in> set (bo_nodes B)" "failed_answer matches compiles B n = Some (Reroute i to k cap f)"
    using assms unfolding failure_step_def by (auto dest: find_map_SomeD)
  from n(2) obtain g where g: "failure_of B (nd_id n) = Some g"
    "unrerouted matches compiles B n g (on_failure_reroutes (record_on B (nd_id n)))
       (unwrap_or (last_terminal_at (record_on B (nd_id n))) 0) = Some (Reroute i to k cap f)"
    by (cases rule: failed_answerE) auto
  note r = unrerouted_Reroute [OF g(2)]
  have "k \<le> cap" unfolding r(4) using r(5) by (rule inc_le)
  moreover have "0 < k" unfolding r(4) using r(5) by (rule word_succ_pos)
  moreover obtain t where "node_state_of (rs_nodes (bo_state B)) i = Some (NS_Failed f t)"
    using g(1) r(1,2) by (auto simp: failure_of_def node_state_on_def split: option.splits node_state.splits)
  ultimately show ?thesis using that n(1) r by auto
qed

lemma nothing_runnable_cases:
  "nothing_runnable B = Finish \<or> (\<exists>i on. nothing_runnable B = Pause (Pause_Blocked i on))
   \<or> (\<exists>i f. nothing_runnable B = Fail i f)"
  by (auto simp: nothing_runnable_def Let_def split: option.split)

lemma ready_batch_cases:
  "drives (ready_batch B) \<or> (\<exists>b. ready_batch B = Execute b) \<or> ready_batch B = nothing_runnable B"
proof (cases "ready_gate B")
  case (Some d)
  then show ?thesis using ready_gate_drives [OF Some] by (simp add: ready_batch_def or_else_def)
next
  case None
  then show ?thesis
    by (cases "ready_nodes B") (auto simp: ready_batch_def or_else_def ready_nodes_def Let_def split: if_splits)
qed

lemma ready_batch_not_Reroute: "ready_batch B \<noteq> Reroute i t k m f"
  using ready_batch_cases [of B] nothing_runnable_cases [of B] by auto

section \<open>The properties\<close>

lemma step_Execute_cases:
  assumes "next_step matches compiles B = Execute batch"
  obtains (orphan) "orphan_step B = Some (Execute batch)"
  | (failed) i where "orphan_step B = None" "batch = [(i, next_attempt B i)]"
      "corrects B i \<or> (\<exists>n \<in> set (bo_nodes B). nd_id n = i \<and> is_failed (node_state_on B i)
        \<and> (is_gate n \<longrightarrow> (\<exists>reset. reset_waited (bo_state B) i reset)))"
  | (reverify) n where "orphan_step B = None" "batch = [(nd_id n, next_attempt B (nd_id n))]"
      "n \<in> set (bo_nodes B)" "verifies_the_tree n" "is_finished (node_state_on B (nd_id n))"
  | (ready) "orphan_step B = None" "ready_nodes B = Some (Execute batch)"
  using assms
proof (cases rule: next_step_cases [of B matches compiles])
  case (gate d)
  then show ?thesis using assms gate_step_drives by fastforce
next
  case (waiting d)
  then show ?thesis using assms waiting_step_asks by fastforce
next
  case (answered d)
  then show ?thesis using assms answered_step_finishes by fastforce
next
  case (orphan d)
  then show ?thesis using assms that(1) by simp
next
  case (failed d)
  then have "failure_step matches compiles B = Some (Execute batch)" using assms by simp
  then show ?thesis by (rule failure_step_Execute) (use failed(3) that(2) in blast)
next
  case (reverify d)
  then have "reverify_step B = Some (Execute batch)" using assms by simp
  then show ?thesis by (rule reverify_step_Execute) (use reverify(1) that(3) in auto)
next
  case ready
  then have "ready_batch B = Execute batch" using assms by simp
  then show ?thesis using ready(3) that(4) ready_batch_Execute by blast
qed

lemma board_nodes: "n \<in> set (bo_nodes (board_of w S P)) \<longleftrightarrow>
    n \<in> set (wf_nodes w) \<and> is_included (po_mode_nodes P) (nd_id n)"
  by (auto simp: board_of_def Let_def is_included_def)

lemma board_state [simp]: "bo_state (board_of w S P) = S" "bo_policy (board_of w S P) = P"
  by (simp_all add: board_of_def Let_def)

lemma verifier_not_gate: "verifies_the_tree n \<Longrightarrow> \<not> is_gate n"
  by (auto simp: verifies_the_tree_def is_gate_def split: node_body.splits)

text \<open>C17. No node starts early. A node with no state that the scheduler executes waits on nothing
  unfinished and is not reached only by reroutes; or it is the correction a failed node was rerouted
  to, or lies between that correction and the node that failed.\<close>

theorem no_node_starts_early:
  assumes "decide matches compiles w S P = Execute batch" "(i, k) \<in> set batch"
    and "node_state_of (rs_nodes S) i = None"
  shows "corrects (board_of w S P) i
    \<or> ((\<forall>d \<in> set (deps_of (board_of w S P) i). bo_finished (board_of w S P) d)
      \<and> \<not> reroute_only (board_of w S P) i)"
proof -
  let ?B = "board_of w S P"
  have none: "node_state_on ?B i = None" using assms(3) by (simp add: node_state_on_def)
  have "next_step matches compiles ?B = Execute batch"
    using decideE(2) [OF assms(1)] by simp
  then show ?thesis
  proof (cases rule: step_Execute_cases)
    case orphan
    then show ?thesis
      using assms(2) none orphan_step_Execute(2) [OF orphan] by (auto dest: states_exclude(1))
  next
    case (failed j)
    then show ?thesis using assms(2) none by (auto dest: states_exclude(2))
  next
    case (reverify n)
    then show ?thesis using assms(2) none by (auto dest: states_exclude(3))
  next
    case ready
    then show ?thesis
      using assms(2) ready_nodes_Execute(3) [OF ready(2)]
      by (auto simp: fresh_def deps_satisfied_def list_all_iff dest!: in_set_takeD)
  qed
qed

text \<open>C21. After a crash no orphan is guessed at. When the scheduler executes anything while a node that
  is not a gate is running with no end, that node restarts in the same batch and nothing of its
  policy says it may not.\<close>

theorem uncertain_orphan_never_restarted:
  assumes "decide matches compiles w S P = Execute batch"
    and "n \<in> set (bo_nodes (board_of w S P))" "\<not> is_gate n"
    and "is_running (node_state_of (rs_nodes S) (nd_id n))"
  shows "unwrap_or (nd_on_interrupt n) (po_on_interrupt P) \<noteq> FailIfUncertain
       \<and> nd_id n \<in> fst ` set batch"
proof -
  let ?B = "board_of w S P"
  have run: "is_running (node_state_on ?B (nd_id n))" using assms(4) by (simp add: node_state_on_def)
  then have some: "orphan_step ?B \<noteq> None" using assms(2,3) orphan_step_None by blast
  have "next_step matches compiles ?B = Execute batch"
    using decideE(2) [OF assms(1)] by simp
  then have o: "orphan_step ?B = Some (Execute batch)"
    by (cases rule: step_Execute_cases) (use some in simp_all)
  show ?thesis
    using orphan_step_Execute(2,3) [OF o] assms(2,3) run by force
qed

lemma capacity_pos: "1 \<le> capacity P"
proof -
  have "(1 :: u32) \<le> max (po_max_parallel_nodes P) 1" by simp
  then show ?thesis unfolding capacity_def word_le_nat_alt by simp
qed

lemma distinct_board: "distinct (map nd_id (wf_nodes w)) \<Longrightarrow> distinct (map nd_id (bo_nodes (board_of w S P)))"
  by (simp add: board_of_def Let_def distinct_map_filter)

text \<open>C25. A batch is never empty, starts no node twice, and holds at most as many nodes as the run may
  run at once, unless every node of it was already running when the run stopped.\<close>

theorem batch_within_capacity:
  assumes "decide matches compiles w S P = Execute batch" "distinct (map nd_id (wf_nodes w))"
  shows "batch \<noteq> [] \<and> distinct (map fst batch)
    \<and> (length batch \<le> capacity P \<or> (\<forall>i \<in> fst ` set batch. is_running (node_state_of (rs_nodes S) i)))"
proof -
  let ?B = "board_of w S P"
  have one: "length [x] \<le> capacity P" for x :: "node_id \<times> u32" using capacity_pos by simp
  have "next_step matches compiles ?B = Execute batch"
    using decideE(2) [OF assms(1)] by simp
  then show ?thesis
  proof (cases rule: step_Execute_cases)
    case orphan
    then show ?thesis
      using orphan_step_Execute(1,2) [OF orphan] distinct_board [OF assms(2)]
      by (auto simp: comp_def distinct_map_filter node_state_on_def)
  next
    case (failed i)
    then show ?thesis using one by simp
  next
    case (reverify n)
    then show ?thesis using one by simp
  next
    case ready
    have "distinct (map nd_id (take (capacity P) (filter (\<lambda>n. \<not> is_gate n \<and> fresh ?B n) (bo_nodes ?B))))"
      using distinct_board [OF assms(2)] by (metis distinct_map_filter distinct_take take_map)
    then show ?thesis
      using ready_nodes_Execute [OF ready(2)] by (simp add: comp_def)
  qed
qed

text \<open>C26. A gate is published, polled or asked about, and reaches the execution of ordinary nodes in two
  cases only: a failed node was sent back to it or past it, or it failed itself on a limit whose reset the
  run waited out. The second is no accident of the statement (\<open>limited_gate_is_executed\<close>).\<close>

theorem gate_runs_as_node_only:
  assumes "decide matches compiles w S P = Execute batch" "distinct (map nd_id (wf_nodes w))"
    and "n \<in> set (wf_nodes w)" "is_gate n" "nd_id n \<in> fst ` set batch"
  shows "corrects (board_of w S P) (nd_id n)
    \<or> is_failed (node_state_of (rs_nodes S) (nd_id n)) \<and> (\<exists>reset. reset_waited S (nd_id n) reset)"
proof -
  let ?B = "board_of w S P"
  have same: "m = n" if "m \<in> set (bo_nodes ?B)" "nd_id m = nd_id n" for m
    using that assms(2,3) by (auto simp: board_nodes distinct_map inj_on_def)
  have "next_step matches compiles ?B = Execute batch"
    using decideE(2) [OF assms(1)] by simp
  then show ?thesis
  proof (cases rule: step_Execute_cases)
    case orphan
    obtain m where "m \<in> set (bo_nodes ?B)" "\<not> is_gate m" "nd_id m = nd_id n"
      using assms(5) unfolding orphan_step_Execute(2) [OF orphan]
      by (auto simp: image_image)
    then show ?thesis using same assms(4) by blast
  next
    case (failed i)
    then have i: "i = nd_id n" using assms(5) by simp
    from failed(3) show ?thesis
    proof
      assume "\<exists>m \<in> set (bo_nodes ?B). nd_id m = i \<and> is_failed (node_state_on ?B i)
          \<and> (is_gate m \<longrightarrow> (\<exists>reset. reset_waited (bo_state ?B) i reset))"
      then show ?thesis using same i assms(4) by (auto simp: node_state_on_def)
    qed (simp add: i)
  next
    case (reverify m)
    then have "nd_id m = nd_id n" using assms(5) by simp
    then have "m = n" using same reverify(3) by blast
    then show ?thesis using assms(4) verifier_not_gate [OF reverify(4)] by simp
  next
    case ready
    have "nd_id n \<in> nd_id ` set (take (capacity P) (filter (\<lambda>n. \<not> is_gate n \<and> fresh ?B n) (bo_nodes ?B)))"
      using assms(5) unfolding ready_nodes_Execute(3) [OF ready(2)] by (auto simp: image_image)
    then obtain m where "m \<in> set (bo_nodes ?B)" "\<not> is_gate m" "nd_id m = nd_id n"
      by (auto dest!: in_set_takeD)
    then show ?thesis using same assms(4) by blast
  qed
qed


text \<open>C23. A run finishes only when its work is done: every node its mode keeps has finished, or is one
  that only a reroute may start and that none did.\<close>

theorem finish_means_done:
  assumes "decide matches compiles w S P = Finish"
    and "n \<in> set (wf_nodes w)" "is_included (po_mode_nodes P) (nd_id n)"
  shows "is_finished (node_state_of (rs_nodes S) (nd_id n))
    \<or> (reroute_only (board_of w S P) (nd_id n) \<and> node_state_of (rs_nodes S) (nd_id n) = None)"
proof -
  let ?B = "board_of w S P"
  have step: "next_step matches compiles ?B = Finish"
    using decideE(2) [OF assms(1)] by simp
  have "nothing_runnable ?B = Finish"
    using step
  proof (cases rule: next_step_cases [of ?B matches compiles])
    case (gate d)
    then show ?thesis using step gate_step_drives by fastforce
  next
    case (waiting d)
    then show ?thesis using step waiting_step_asks by fastforce
  next
    case (answered d)
    then show ?thesis using step answered_step_finishes by fastforce
  next
    case (orphan d)
    then show ?thesis using step by (auto simp: orphan_step_def Let_def split: if_splits)
  next
    case (failed d)
    then have "failure_step matches compiles ?B = Some Finish" using step by simp
    then show ?thesis using failure_step_not_Finish by blast
  next
    case (reverify d)
    then show ?thesis using step by (auto elim!: reverify_step_Execute)
  next
    case ready
    then have "ready_batch ?B = Finish" using step by simp
    moreover have "ready_gate ?B \<noteq> Some Finish" using ready_gate_drives by fastforce
    moreover have "ready_nodes ?B \<noteq> Some Finish" by (auto simp: ready_nodes_def Let_def)
    ultimately show ?thesis
      by (cases "ready_gate ?B"; cases "ready_nodes ?B") (auto simp: ready_batch_def or_else_def)
  qed
  then have "List.find (left_undone ?B) (bo_nodes ?B) = None"
    by (auto simp: nothing_runnable_def Let_def split: option.splits if_splits)
  then have "\<not> left_undone ?B n"
    using assms(2,3) by (simp add: find_None_iff' board_nodes)
  then show ?thesis by (simp add: left_undone_def bo_finished_def node_state_on_def has_state_iff)
qed

text \<open>C22. Reroutes are bounded. A reroute leaves from a failed node of the run, to the destination it
  declares, with a number one above the reroutes its failures took so far and never above the
  number it declares.\<close>

theorem reroute_within_cap:
  assumes "decide matches compiles w S P = Reroute i to k cap f"
  shows "\<exists>n \<in> set (wf_nodes w). nd_id n = i \<and> nd_on_failure n = Some \<lparr>of_goto = to, of_max_reroutes = cap\<rparr>
    \<and> (\<exists>t. node_state_of (rs_nodes S) i = Some (NS_Failed f t))
    \<and> k = on_failure_reroutes (record_on (board_of w S P) i) + 1 \<and> 0 < k \<and> k \<le> cap"
proof -
  let ?B = "board_of w S P"
  have step: "next_step matches compiles ?B = Reroute i to k cap f"
    using decideE(2) [OF assms] by simp
  then have "failure_step matches compiles ?B = Some (Reroute i to k cap f)"
  proof (cases rule: next_step_cases [of ?B matches compiles])
    case (gate d)
    then show ?thesis using step gate_step_drives by fastforce
  next
    case (waiting d)
    then show ?thesis using step waiting_step_asks by fastforce
  next
    case (answered d)
    then show ?thesis using step answered_step_finishes by fastforce
  next
    case (orphan d)
    then show ?thesis using step by (auto simp: orphan_step_def Let_def split: if_splits)
  next
    case (reverify d)
    then show ?thesis using step by (auto elim!: reverify_step_Execute)
  next
    case ready
    then have "ready_batch ?B = Reroute i to k cap f" using step by simp
    then show ?thesis using ready_batch_not_Reroute [of ?B i to k cap f] by blast
  qed simp
  then show ?thesis by (auto elim!: failure_step_Reroute simp: board_nodes)
qed


section \<open>A run with no failure is never stuck\<close>

lemma finite_map_edges: "finite (map_edges deps)"
proof (rule finite_subset)
  show "map_edges deps \<subseteq> (\<Union>(u, ds) \<in> set deps. {u} \<times> set ds)"
    by (force simp: map_edges_def om_get_def dest: map_of_SomeD)
qed auto

text \<open>A least element of a set of nodes: none of its dependencies is in the set.\<close>

lemma least_in_order:
  assumes "acyclic (map_edges deps)" "x \<in> Q"
  obtains m where "m \<in> Q" "\<And>d. d \<in> set (deps_in deps m) \<Longrightarrow> d \<notin> Q"
proof -
  have "wf ((map_edges deps)\<inverse>)"
    using assms(1) finite_map_edges by (intro finite_acyclic_wf_converse)
  then obtain m where "m \<in> Q" "\<And>d. (d, m) \<in> (map_edges deps)\<inverse> \<Longrightarrow> d \<notin> Q"
    using assms(2) by (rule wfE_min) blast
  then show ?thesis using that by (simp add: map_edges_deps_in)
qed

definition closed_workflow :: "workflow \<Rightarrow> bool" where
  "closed_workflow w \<longleftrightarrow>
     find_depends_on_cycle (wf_nodes w) = Some None
   \<and> list_all (\<lambda>n. list_all (\<lambda>d. list_ex (\<lambda>m. nd_id m = d) (wf_nodes w)) (nd_depends_on n)) (wf_nodes w)"

lemma board_dependencies:
  obtains deps where "dependencies_in_mode w (po_mode_nodes P) = Some deps"
    "bo_dependencies (board_of w S P) = deps"
  using dependencies_in_mode_total [of w "po_mode_nodes P"] by (auto simp: board_of_def Let_def)

lemma board_acyclic: "closed_workflow w \<Longrightarrow> acyclic (map_edges (bo_dependencies (board_of w S P)))"
  using board_dependencies [of w P S] map_edges_acyclic [OF checked_acyclic, of w "po_mode_nodes P"]
  by (auto simp: closed_workflow_def)

lemma board_dep_is_node:
  assumes "closed_workflow w" "d \<in> set (deps_of (board_of w S P) u)"
  obtains m where "m \<in> set (bo_nodes (board_of w S P))" "nd_id m = d"
proof -
  obtain deps where deps: "dependencies_in_mode w (po_mode_nodes P) = Some deps"
    "bo_dependencies (board_of w S P) = deps"
    by (rule board_dependencies)
  have acyc: "acyclic (dep_edges w)" using assms(1) by (simp add: closed_workflow_def checked_acyclic)
  have wait: "waits_on w (is_included (po_mode_nodes P)) u d"
    using assms(2) map_edges_waits_on [OF acyc deps(1)]
    by (simp add: deps_of_def deps(2) map_edges_deps_in [symmetric])
  then obtain v where "(v, d) \<in> dep_edges w" by induction auto
  then obtain n where "n \<in> set (wf_nodes w)" "d \<in> set (nd_depends_on n)"
    by (auto simp: dep_edges_iff dest: node_by_id_SomeD)
  then obtain m where "m \<in> set (wf_nodes w)" "nd_id m = d"
    using assms(1) by (auto simp: closed_workflow_def list_all_iff list_ex_iff)
  then show ?thesis using that waits_on_included [OF wait] by (simp add: board_nodes)
qed

lemma reroute_only_no_dependents:
  assumes "reroute_only (board_of w S P) d" "n \<in> set (bo_nodes (board_of w S P))"
  shows "d \<notin> set (deps_of (board_of w S P) (nd_id n))"
  using assms
  by (auto simp: reroute_only_def board_of_def Let_def reroute_only_targets_def deps_of_def list_ex_iff)

lemma stuck_needs_failure:
  fixes w S P
  defines "B \<equiv> board_of w S P"
  assumes closed: "closed_workflow w"
    and idle: "gate_step B = None" "waiting_step B = None" "orphan_step B = None"
    and unready: "ready_gate B = None" "ready_nodes B = None"
    and nofail: "\<forall>n \<in> set (bo_nodes B). \<not> is_failed (node_state_on B (nd_id n))"
  shows "nothing_runnable B = Finish"
proof -
  have state: "node_state_on B (nd_id n) = None" if "n \<in> set (bo_nodes B)" "left_undone B n" for n
  proof -
    have "\<not> is_running (node_state_on B (nd_id n))"
      using that(1) idle(1,3) gate_step_None orphan_step_None by blast
    moreover have "\<not> is_waiting (node_state_on B (nd_id n))"
      using that(1) idle(2) waiting_step_None by blast
    ultimately show ?thesis
      using that nofail by (cases rule: node_state_cases)
        (auto simp: left_undone_def bo_finished_def is_failed_def)
  qed
  have "\<not> left_undone B n" if n: "n \<in> set (bo_nodes B)" for n
  proof
    assume "left_undone B n"
    then have mem: "nd_id n \<in> nd_id ` {n \<in> set (bo_nodes B). left_undone B n}" using n by blast
    have acyc: "acyclic (map_edges (bo_dependencies B))"
      unfolding B_def by (rule board_acyclic [OF closed])
    obtain x where "x \<in> nd_id ` {n \<in> set (bo_nodes B). left_undone B n}"
      "\<And>d. d \<in> set (deps_in (bo_dependencies B) x) \<Longrightarrow> d \<notin> nd_id ` {n \<in> set (bo_nodes B). left_undone B n}"
      using least_in_order [OF acyc mem] by blast
    then obtain m where m: "m \<in> set (bo_nodes B)" "left_undone B m"
      and least: "\<And>d. d \<in> set (deps_of B (nd_id m)) \<Longrightarrow> d \<notin> nd_id ` {n \<in> set (bo_nodes B). left_undone B n}"
      by (auto simp: deps_of_def)
    have none: "\<not> has_state (rs_nodes (bo_state B)) (nd_id m)"
      using state [OF m] by (simp add: has_state_iff node_state_on_def)
    then have "\<not> reroute_only B (nd_id m)" using m(2) by (simp add: left_undone_def)
    moreover have "bo_finished B d" if d: "d \<in> set (deps_of B (nd_id m))" for d
    proof -
      obtain k where k: "k \<in> set (bo_nodes B)" "nd_id k = d"
        using board_dep_is_node [OF closed, of d S P "nd_id m"] d unfolding B_def by blast
      have "\<not> left_undone B k" using least [OF d] k by blast
      moreover have "\<not> reroute_only B d"
        using reroute_only_no_dependents [of w S P d m] d m(1) unfolding B_def by blast
      ultimately show ?thesis using k by (simp add: left_undone_def)
    qed
    ultimately have fresh: "fresh B m"
      using none by (simp add: fresh_def deps_satisfied_def list_all_iff)
    show False
    proof (cases "is_gate m")
      case True
      then show ?thesis using unready(1) m(1) fresh by (auto simp: ready_gate_def find_None_iff')
    next
      case False
      then have "filter (\<lambda>n. \<not> is_gate n \<and> fresh B n) (bo_nodes B) \<noteq> []"
        using m(1) fresh by (auto simp: filter_empty_conv)
      then show ?thesis
        using unready(2) capacity_pos [of "bo_policy B"] by (auto simp: ready_nodes_def Let_def)
    qed
  qed
  then have "List.find (left_undone B) (bo_nodes B) = None" by (simp add: find_None_iff')
  then show ?thesis by (simp add: nothing_runnable_def)
qed

text \<open>C16. A run with no failure is never stuck. On a workflow that the check accepts (no cycle, every
  dependency declared), while no node has failed, the scheduler never blocks and never closes the
  run as failed: there is always a next step until the run finishes.\<close>

theorem never_stuck_without_failure:
  assumes "closed_workflow w"
    and "list_all (\<lambda>n. \<not> is_failed (node_state_of (rs_nodes S) (nd_id n))) (wf_nodes w)"
  shows "decide matches compiles w S P \<noteq> Pause (Pause_Blocked i on)
       \<and> decide matches compiles w S P \<noteq> Fail j f"
proof -
  let ?B = "board_of w S P"
  have nofail: "\<forall>n \<in> set (bo_nodes ?B). \<not> is_failed (node_state_on ?B (nd_id n))"
    using assms(2) by (auto simp: board_nodes list_all_iff node_state_on_def)
  have step: "next_step matches compiles ?B \<noteq> Pause (Pause_Blocked i on)
      \<and> next_step matches compiles ?B \<noteq> Fail j f" for i on j f
  proof (cases rule: next_step_cases [of ?B matches compiles])
    case (gate d)
    then show ?thesis using gate_step_drives by fastforce
  next
    case (waiting d)
    then show ?thesis using waiting_step_asks by fastforce
  next
    case (answered d)
    then show ?thesis using answered_step_finishes by fastforce
  next
    case (orphan d)
    then show ?thesis by (auto simp: orphan_step_def Let_def split: if_splits)
  next
    case (failed d)
    then obtain n where "n \<in> set (bo_nodes ?B)" "failed_answer matches compiles ?B n = Some d"
      unfolding failure_step_def by (auto dest: find_map_SomeD)
    then show ?thesis using nofail failure_of_iff by (fastforce simp: failed_answer_def split: option.splits)
  next
    case (reverify d)
    then show ?thesis by (auto elim!: reverify_step_Execute)
  next
    case ready
    show ?thesis
    proof (cases "ready_gate ?B = None \<and> ready_nodes ?B = None")
      case True
      then have "ready_batch ?B = Finish"
        using stuck_needs_failure [OF assms(1) ready(1-3)] nofail
        by (simp add: ready_batch_def or_else_def unwrap_or_def)
      then show ?thesis using ready by simp
    next
      case False
      then have "drives (ready_batch ?B) \<or> (\<exists>b. ready_batch ?B = Execute b)"
        using ready_gate_drives
        by (cases "ready_gate ?B"; cases "ready_nodes ?B")
          (auto simp: ready_batch_def or_else_def ready_nodes_def Let_def split: if_splits)
      then show ?thesis using ready by auto
    qed
  qed
  have "decide matches compiles w S P = d \<Longrightarrow> (\<forall>o'. d \<noteq> MeasureBaseline o') \<Longrightarrow> (\<forall>t. d \<noteq> Broken t)
      \<Longrightarrow> next_step matches compiles ?B = d" for d
    by (rule decideE(2))
  then show ?thesis using step by blast
qed

section \<open>A corrected node runs last\<close>

lemma no_stale_between:
  assumes "acyclic (map_edges (bo_dependencies B))" "stale_between B to failed corrected = None"
    "i \<in> set (between_nodes B to failed)"
  shows "\<not> stale_since B corrected i"
proof
  let ?Q = "{i \<in> set (between_nodes B to failed). stale_since B corrected i}"
  assume "stale_since B corrected i"
  then have "i \<in> ?Q" using assms(3) by simp
  with assms(1) obtain m where m: "m \<in> ?Q" "\<And>d. d \<in> set (deps_in (bo_dependencies B) m) \<Longrightarrow> d \<notin> ?Q"
    by (rule least_in_order) blast
  have "List.find (\<lambda>i. stale_since B corrected i \<and>
      list_all (\<lambda>d. d \<notin> set (between_nodes B to failed) \<or> \<not> stale_since B corrected d) (deps_of B i))
      (between_nodes B to failed) = None"
    using assms(2) by (auto simp: stale_between_def Let_def split: option.splits)
  then show False
    using m by (auto simp: find_None_iff' deps_of_def list_all_iff)
qed

text \<open>C18. A corrected node runs last. When a failed node runs again after the correction it was rerouted
  to, the correction has finished since, and so has every node that lies between the two: nothing it
  reads was made from what the correction replaced.\<close>

theorem corrected_node_runs_last:
  assumes "closed_workflow w" "after_reroute (board_of w S P) n to sq = Some (Execute batch)"
    and "nd_id n \<in> fst ` set batch" "nd_id n \<noteq> to"
  shows "\<exists>corrected. last_finished (record_on (board_of w S P) to) = Some corrected \<and> sq < corrected
    \<and> (\<forall>m \<in> set (bo_nodes (board_of w S P)).
         nd_id m \<noteq> to \<and> nd_id m \<noteq> nd_id n
       \<and> depends_on (board_of w S P) (nd_id m) to \<and> depends_on (board_of w S P) (nd_id n) (nd_id m) \<longrightarrow>
         (\<exists>finished. last_finished (record_on (board_of w S P) (nd_id m)) = Some finished
            \<and> corrected \<le> finished))"
  using assms(2)
proof (cases rule: after_reroute_Execute)
  case correction
  then show ?thesis using assms(3,4) by simp
next
  case (between i)
  then show ?thesis using assms(3) by simp
next
  case (again corrected)
  let ?B = "board_of w S P"
  have "\<exists>finished. last_finished (record_on ?B (nd_id m)) = Some finished \<and> corrected \<le> finished"
    if "m \<in> set (bo_nodes ?B)" "nd_id m \<noteq> to" "nd_id m \<noteq> nd_id n"
      "depends_on ?B (nd_id m) to" "depends_on ?B (nd_id n) (nd_id m)" for m
  proof -
    have "nd_id m \<in> set (between_nodes ?B to (nd_id n))"
      using that by (simp add: between_nodes_def)
    then have "\<not> stale_since ?B corrected (nd_id m)"
      using no_stale_between [OF board_acyclic [OF assms(1)] again(5)] by blast
    then show ?thesis
      by (cases "nodes_get (rs_nodes S) (nd_id m)")
         (auto simp: stale_since_def record_on_def is_none_or_def not_less split: option.splits)
  qed
  then show ?thesis using again(3,4) by blast
qed

section \<open>The measurement\<close>

text \<open>What worked before is measured before it can change. A run that measures in its own tree
  executes nothing while it owes its lineage's measurement; one that measures aside executes no
  node that waits for it.\<close>

lemma nothing_runs_before_the_measurement:
  assumes "decide matches compiles w S P = Execute batch" "owed_baseline S P \<noteq> None"
  shows "po_measures_aside P
    \<and> (\<forall>(i, k) \<in> set batch. \<forall>n. node_in w i = Some n \<longrightarrow> \<not> waits_for_the_measurement n)"
proof -
  obtain owes where owes: "owed_baseline S P = Some owes" using assms(2) by blast
  have "measure_before w S P (next_step matches compiles (board_of w S P)) = Execute batch"
    using assms(1) by (auto simp: decide_def split: option.splits)
  then have "po_measures_aside P" "\<not> step_reads w P (Execute batch)"
    using owes by (auto simp: measure_before_def split: if_splits)
  then show ?thesis by (auto simp: step_reads_def list_ex_iff is_some_and_iff)
qed

end
