(* ===== verification/Schedule_Samples.thy ===== *)
theory Schedule_Samples
  imports Progress
begin

text \<open>
  The scheduler on concrete runs: each promise of \<open>Progress\<close> applied to a state in which its
  hypotheses hold, the scheduler evaluated on all of them at once, and the run in which a gate is handed to
  execution.
\<close>

definition no_match :: "scope_glob \<Rightarrow> path \<Rightarrow> bool" where
  "no_match g p = False"

definition any_pattern :: "string \<Rightarrow> bool" where
  "any_pattern s = True"

definition no_protection :: protected where
  "no_protection = \<lparr>prot_entries = [], prot_granted = [], prot_every = [], prot_at_loop_close = [],
     prot_lifted = []\<rparr>"

definition base_policy :: policy where
  "base_policy =
     \<lparr>po_max_parallel_nodes = 2, po_on_interrupt = RestartNode, po_on_failure = On_Pause,
      po_mode_nodes = None, po_baseline_suite = None, po_baseline_held = [], po_measures_aside = False,
      po_may_promote = False, po_grants_scope = True, po_protected = no_protection,
      po_follows_builds = False\<rparr>"

definition run_at :: "(node_id \<times> node_record) list \<Rightarrow> run_state" where
  "run_at recs = run_state_default\<lparr>rs_nodes := nodes_new\<lparr>per_node := recs\<rparr>\<rparr>"

definition done_at :: "seq \<Rightarrow> node_record" where
  "done_at at = record_default\<lparr>attempts := 1, state := Some (NS_Finished (Summary ''ok'') 0),
     last_finished := Some at, last_terminal := Some at\<rparr>"

definition line_workflow :: workflow where
  "line_workflow = plain_workflow
     [bash_node ''plan'' [], bash_node ''build'' [''plan''], bash_node ''ship'' [''build'']]"

abbreviation picks :: "workflow \<Rightarrow> run_state \<Rightarrow> policy \<Rightarrow> next_decision" where
  "picks \<equiv> decide no_match any_pattern"

section \<open>The runs\<close>

definition crashed :: run_state where
  "crashed = run_at [(''build'', record_default\<lparr>attempts := 1, state := Some (NS_Running 1)\<rparr>),
     (''plan'', done_at 5)]"

definition wide_workflow :: workflow where
  "wide_workflow = plain_workflow [bash_node ''a'' [], bash_node ''b'' [], bash_node ''c'' []]"

definition failed_at_seq :: "failure \<Rightarrow> seq \<Rightarrow> node_record" where
  "failed_at_seq f at = record_default\<lparr>attempts := 1, state := Some (NS_Failed f 0), failures := [f],
     last_failed := Some at, last_terminal := Some at, last_terminal_at := Some 100\<rparr>"

definition sent_back :: run_state where
  "sent_back = run_at
     [(''build'', done_at 14), (''plan'', done_at 12),
      (''ship'', (failed_at_seq (Message ''rejected'') 10)\<lparr>last_reroute :=
          Some \<lparr>ro_to = ''plan'', ro_cause = Message ''rejected'', ro_attempt = Some 1, ro_max = Some 2,
                ro_origin = OnFailure, ro_at = 100, ro_seq = 11\<rparr>\<rparr>)]"

text \<open>The approval gate of a run could not be published: the forge answered that its rate limit resets
  at 500. The run paused for the reset and a wake after it resumed the run.\<close>

definition approve_gate :: node where
  "approve_gate =
     Node ''approve'' (Gate ''team'' None [] [] []
         (Some \<lparr>eg_kind = Forge_PullRequest, eg_artifacts = [], eg_branch = ''b''\<rparr>)) []
       Unscoped None [] None None None None None None None None None [] [] False False None None"

definition gated_workflow :: workflow where
  "gated_workflow = plain_workflow [approve_gate, bash_node ''ship'' [''approve'']]"

definition gate_event_at :: "seq \<Rightarrow> instant \<Rightarrow> node_id option \<Rightarrow> event_payload \<Rightarrow> stored_event" where
  "gate_event_at k at n p =
     \<lparr>ev_run_id = ''r'', ev_seq = k, ev_timestamp = at, ev_node_id = n, ev_body = Known p\<rparr>"

definition limited_log :: "stored_event list" where
  "limited_log =
     [gate_event_at 1 100 (Some ''approve'') (Node_Payload (Node_Started
        \<lparr>ns_attempt = 1, ns_from_tree = None, ns_found = None, ns_run_scope = None\<rparr>)),
      gate_event_at 2 100 (Some ''approve'') (Node_Payload (Node_Failed
        \<lparr>nd_failure = Limit \<lparr>al_source = Forge, resets_at = Some 500, al_message = ''rate limited''\<rparr>,
         nd_tokens = 0, nd_retryable = None, nd_tree = None, nd_commit = None, nd_refused = []\<rparr>)),
      gate_event_at 3 100 None (Run_Payload (Run_Paused (Pause_AwaitingReset ''approve'' 500))),
      gate_event_at 4 600 None (Run_Payload (Run_Resumed (run_resumed_new [] None)))]"

definition finished_line :: run_state where
  "finished_line = run_at [(''build'', done_at 7), (''plan'', done_at 5), (''ship'', done_at 9)]"

definition red_lint :: run_state where
  "red_lint = run_at [(''lint'', failed_at_seq (Message ''red'') 5)]"

definition plan_done :: run_state where
  "plan_done = run_at [(''plan'', done_at 5)]"

text \<open>What the scheduler answers each of them, evaluated once.\<close>

lemma evaluated:
  "picks line_workflow plan_done base_policy = Execute [(''build'', 1)]
   \<and> picks line_workflow crashed base_policy = Execute [(''build'', 2)]
   \<and> picks wide_workflow (run_at []) base_policy = Execute [(''a'', 1), (''b'', 1)]
   \<and> picks line_workflow finished_line base_policy = Finish
   \<and> picks rerouting_workflow red_lint base_policy = Reroute ''lint'' ''fix'' 1 1 (Message ''red'')
   \<and> after_reroute (board_of line_workflow sent_back base_policy) (bash_node ''ship'' [''build'']) ''plan'' 11
      = Some (Execute [(''ship'', 2)])
   \<and> picks gated_workflow (derive limited_log) base_policy = Execute [(''approve'', 2)]
   \<and> rs_broken (derive limited_log) = None
   \<and> closed_workflow line_workflow
   \<and> ''plan'' \<in> set (deps_of (board_of line_workflow plan_done base_policy) ''build'')
   \<and> node_state_of (rs_nodes plan_done) ''build'' = None
   \<and> node_state_of (rs_nodes finished_line) ''ship'' \<noteq> None
   \<and> is_included (po_mode_nodes base_policy) ''ship''
   \<and> last_finished (record_on (board_of line_workflow sent_back base_policy) ''plan'') = Some 12
   \<and> depends_on (board_of line_workflow sent_back base_policy) ''build'' ''plan''
   \<and> depends_on (board_of line_workflow sent_back base_policy) ''ship'' ''build''
   \<and> is_gate approve_gate \<and> nd_id approve_gate = ''approve'' \<and> distinct (map nd_id (wf_nodes gated_workflow))
   \<and> \<not> is_gate (bash_node ''build'' [''plan''])
   \<and> is_running (node_state_of (rs_nodes crashed) (nd_id (bash_node ''build'' [''plan''])))
   \<and> nd_id (bash_node ''build'' [''plan'']) = ''build'' \<and> po_on_interrupt base_policy = RestartNode
   \<and> list_all (\<lambda>n. \<not> is_failed (node_state_of (rs_nodes crashed) (nd_id n))) (wf_nodes line_workflow)"
  by code_simp

lemma answers:
  "picks line_workflow plan_done base_policy = Execute [(''build'', 1)]"
  "picks line_workflow crashed base_policy = Execute [(''build'', 2)]"
  "picks wide_workflow (run_at []) base_policy = Execute [(''a'', 1), (''b'', 1)]"
  "picks line_workflow finished_line base_policy = Finish"
  "picks rerouting_workflow red_lint base_policy = Reroute ''lint'' ''fix'' 1 1 (Message ''red'')"
  "after_reroute (board_of line_workflow sent_back base_policy) (bash_node ''ship'' [''build'']) ''plan'' 11
      = Some (Execute [(''ship'', 2)])"
  "picks gated_workflow (derive limited_log) base_policy = Execute [(''approve'', 2)]"
  "rs_broken (derive limited_log) = None" "closed_workflow line_workflow"
  using evaluated by blast+

section \<open>What the promises say of them\<close>

theorem no_node_starts_early_witness:
  "corrects (board_of line_workflow plan_done base_policy) ''build''
 \<or> bo_finished (board_of line_workflow plan_done base_policy) ''plan''"
  using no_node_starts_early [OF answers(1)] evaluated by auto

theorem uncertain_orphan_never_restarted_witness:
  "unwrap_or (nd_on_interrupt (bash_node ''build'' [''plan''])) RestartNode \<noteq> FailIfUncertain
 \<and> ''build'' \<in> fst ` set [(''build'', 2 :: u32)]"
proof -
  have "bash_node ''build'' [''plan''] \<in> set (bo_nodes (board_of line_workflow crashed base_policy))"
    by (simp add: board_nodes line_workflow_def plain_workflow_def is_included_def base_policy_def)
  then show ?thesis
    using uncertain_orphan_never_restarted [OF answers(2)] evaluated by metis
qed

theorem batch_within_capacity_witness:
  "distinct (map fst [(''a'', 1 :: u32), (''b'', 1)])
 \<and> (length [(''a'', 1 :: u32), (''b'', 1)] \<le> capacity base_policy
    \<or> is_running (node_state_of (rs_nodes (run_at [])) ''a''))"
  using batch_within_capacity [OF answers(3)] by (auto simp: wide_workflow_def plain_workflow_def bash_node_def)

theorem finish_means_done_witness: "is_finished (node_state_of (rs_nodes finished_line) ''ship'')"
proof -
  have ship: "bash_node ''ship'' [''build''] \<in> set (wf_nodes line_workflow)"
    "nd_id (bash_node ''ship'' [''build'']) = ''ship''"
    by (simp_all add: line_workflow_def plain_workflow_def bash_node_def)
  show ?thesis using finish_means_done [OF answers(4) ship(1)] ship(2) evaluated by auto
qed

theorem reroute_within_cap_witness: "(1 :: u32) \<le> 1 \<and> (0 :: u32) < 1
  \<and> (\<exists>t. node_state_of (rs_nodes red_lint) ''lint'' = Some (NS_Failed (Message ''red'') t))"
  using reroute_within_cap [OF answers(5)] by blast

theorem never_stuck_without_failure_witness:
  "picks line_workflow crashed base_policy \<noteq> Pause (Pause_Blocked ''ship'' [''build''])"
  using never_stuck_without_failure [OF answers(9)] evaluated by blast

theorem corrected_node_runs_last_witness:
  "\<exists>finished. last_finished (record_on (board_of line_workflow sent_back base_policy) ''build'') = Some finished
     \<and> 12 \<le> finished"
proof -
  have ids: "nd_id (bash_node i ds) = i" for i ds by (simp add: bash_node_def)
  have build: "bash_node ''build'' [''plan''] \<in> set (bo_nodes (board_of line_workflow sent_back base_policy))"
    by (simp add: board_nodes line_workflow_def plain_workflow_def is_included_def base_policy_def)
  have "nd_id (bash_node ''ship'' [''build'']) \<in> fst ` set [(''ship'', 2 :: u32)]"
    "nd_id (bash_node ''ship'' [''build'']) \<noteq> ''plan''"
    by (simp_all add: ids)
  from corrected_node_runs_last [OF answers(9,6) this] build
  show ?thesis using evaluated by (auto simp: ids)
qed

section \<open>A gate that failed on a limit is handed to execution\<close>

lemma approve_in_workflow: "approve_gate \<in> set (wf_nodes gated_workflow)"
  by (simp add: gated_workflow_def plain_workflow_def)

theorem gate_runs_as_node_only_witness:
  "corrects (board_of gated_workflow (derive limited_log) base_policy) ''approve''
   \<or> is_failed (node_state_of (rs_nodes (derive limited_log)) ''approve'')
     \<and> (\<exists>reset. reset_waited (derive limited_log) ''approve'' reset)"
  using gate_runs_as_node_only [OF answers(7) _ approve_in_workflow] evaluated by simp

text \<open>Though a gate is only ever published, polled or asked about, one that failed on a limit of the forge
  is answered with an execution once the limit has reset and the run resumed: the resume of a run that
  waited out a forge's rate limit ends as broken. First for any board, then on the log above.\<close>

lemma limited_gate_answer:
  assumes "failure_of B (nd_id n) = Some f" "rerouted_for_this (record_on B (nd_id n)) = None"
    and "remedies f (facts_of matches compiles B n f (unwrap_or (last_terminal_at (record_on B (nd_id n))) 0)) = WaitUntil at"
    and "reset_waited (bo_state B) (nd_id n) at" "po_on_failure (bo_policy B) = On_Pause"
  shows "failed_answer matches compiles B n = Some (Execute [(nd_id n, next_attempt B (nd_id n))])"
  using assms
  by (simp add: failed_answer_def record_on_def unrerouted_def correction_can_change_def paused_failure_def
      filter_opt_def Let_def split: option.split)

lemma limited_gate_is_executed:
  "\<exists>w log P n k. n \<in> set (wf_nodes w) \<and> is_gate n \<and> rs_broken (derive log) = None
     \<and> decide no_match any_pattern w (derive log) P = Execute [(nd_id n, k)]"
  using approve_in_workflow answers(7,8) evaluated by metis

end
