(* ===== verification/Text.thy ===== *)
theory Text
  imports Globs
begin

text \<open>
  The operations of Rust's \<open>str\<close> and \<open>char\<close> that the readers of commands and of plans call, on text in
  ASCII: character classes, trimming, splitting, searching.
\<close>

section \<open>Characters\<close>

definition is_between :: "nat \<Rightarrow> nat \<Rightarrow> char \<Rightarrow> bool" where
  "is_between lo hi c \<longleftrightarrow> lo \<le> (of_char c :: nat) \<and> (of_char c :: nat) \<le> hi"

text \<open>\<open>char::is_whitespace\<close>: tab to carriage return, and the space.\<close>

definition is_whitespace :: "char \<Rightarrow> bool" where
  "is_whitespace c \<longleftrightarrow> is_between 9 13 c \<or> c = CHR '' ''"

definition is_ascii_digit :: "char \<Rightarrow> bool" where
  "is_ascii_digit = is_between 48 57"

definition is_ascii_alphabetic :: "char \<Rightarrow> bool" where
  "is_ascii_alphabetic c \<longleftrightarrow> is_between 65 90 c \<or> is_between 97 122 c"

definition is_ascii_alphanumeric :: "char \<Rightarrow> bool" where
  "is_ascii_alphanumeric c \<longleftrightarrow> is_ascii_alphabetic c \<or> is_ascii_digit c"

text \<open>A character of a word: what \<open>as_a_word\<close> and the names of a change are made of.\<close>

definition is_word_char :: "char \<Rightarrow> bool" where
  "is_word_char c \<longleftrightarrow> is_ascii_alphanumeric c \<or> c = CHR ''_''"

definition to_ascii_lowercase :: "string \<Rightarrow> string" where
  "to_ascii_lowercase =
     map (\<lambda>c. if is_between 65 90 c then char_of (of_char c + 32 :: nat) else c)"

section \<open>Trimming and splitting\<close>

definition trim_start :: "string \<Rightarrow> string" where
  "trim_start = dropWhile is_whitespace"

definition trim_end :: "string \<Rightarrow> string" where
  "trim_end s = rev (dropWhile is_whitespace (rev s))"

definition trim :: "string \<Rightarrow> string" where
  "trim s = trim_end (trim_start s)"

text \<open>\<open>str::split\<close> on a set of characters: the pieces between them, empty ones kept.\<close>

fun split_at :: "(char \<Rightarrow> bool) \<Rightarrow> string \<Rightarrow> string list" where
  "split_at p [] = [[]]"
| "split_at p (c # cs) =
     (if p c then [] # split_at p cs
      else (case split_at p cs of [] \<Rightarrow> [[c]] | w # ws \<Rightarrow> (c # w) # ws))"

definition split_whitespace :: "string \<Rightarrow> string list" where
  "split_whitespace s = filter (\<lambda>w. w \<noteq> []) (split_at is_whitespace s)"

text \<open>\<open>str::lines\<close>: what newlines end, without the empty piece after the last one, and without the
  carriage return a line ends in.\<close>

definition drop_cr :: "string \<Rightarrow> string" where
  "drop_cr l = (if l \<noteq> [] \<and> List.last l = CHR 0x0D then butlast l else l)"

definition lines :: "string \<Rightarrow> string list" where
  "lines s =
     (let pieces = split_at (\<lambda>c. c = CHR 0x0A) s
      in map drop_cr (butlast pieces)
         @ (let rest = List.last pieces in if rest = [] then [] else [rest]))"

fun starts_with :: "string \<Rightarrow> string \<Rightarrow> bool" where
  "starts_with s [] = True"
| "starts_with [] (m # ms) = False"
| "starts_with (c # cs) (m # ms) = (c = m \<and> starts_with cs ms)"

fun contains :: "string \<Rightarrow> string \<Rightarrow> bool" where
  "contains [] m = (m = [])"
| "contains (c # cs) m = (starts_with (c # cs) m \<or> contains cs m)"

text \<open>\<open>str::split_once\<close> and \<open>str::split\<close> on a text: the longest sequence of disjoint occurrences read
  from the left. The pattern is not empty.\<close>

fun split_once :: "string \<Rightarrow> string \<Rightarrow> (string \<times> string) option" where
  "split_once m [] = None"
| "split_once m (c # cs) =
     (if starts_with (c # cs) m then Some ([], drop (length m) (c # cs))
      else map_option (\<lambda>(a, b). (c # a, b)) (split_once m cs))"

lemma split_once_shorter: "split_once m s = Some (a, b) \<Longrightarrow> length b < length s \<or> m = []"
proof (induction s arbitrary: a)
  case (Cons c cs)
  then show ?case
    by (cases m) (force split: if_splits)+
qed simp

function split_on :: "string \<Rightarrow> string \<Rightarrow> string list" where
  "split_on m s =
     (case split_once m s of
        None \<Rightarrow> [s]
      | Some (a, b) \<Rightarrow> if m = [] then [s] else a # split_on m b)"
  by pat_completeness auto
termination
  by (relation "measure (\<lambda>(m, s). length s)") (auto dest: split_once_shorter)

declare split_on.simps [simp del]

lemma starts_with_prefix: "starts_with s m \<longleftrightarrow> prefix m s"
  by (induction s m rule: starts_with.induct) auto

lemma contains_sublist: "contains s m \<longleftrightarrow> sublist m s"
  by (induction s) (auto simp: sublist_Cons_right starts_with_prefix)

section \<open>What trimming leaves\<close>

lemma trim_start_idle: "s = [] \<or> \<not> is_whitespace (hd s) \<Longrightarrow> trim_start s = s"
  by (cases s) (auto simp: trim_start_def)

lemma trim_idle:
  "s = [] \<or> \<not> is_whitespace (hd s) \<and> \<not> is_whitespace (List.last s) \<Longrightarrow> trim s = s"
proof -
  assume s: "s = [] \<or> \<not> is_whitespace (hd s) \<and> \<not> is_whitespace (List.last s)"
  have "trim_start s = s" using s by (intro trim_start_idle) auto
  moreover have "trim_end s = s" using s by (cases s rule: rev_cases) (auto simp: trim_end_def)
  ultimately show ?thesis by (simp add: trim_def)
qed

lemma trim_is_whitespace_iff: "trim s = [] \<longleftrightarrow> list_all is_whitespace s"
  by (auto simp: trim_def trim_start_def trim_end_def list_all_iff dropWhile_eq_Nil_conv dest: set_dropWhileD)
     (metis dropWhile_eq_Nil_conv set_dropWhileD hd_dropWhile list.set_sel(1))

lemma is_ascii_alphanumeric_not_whitespace [simp]:
  "is_ascii_alphanumeric c \<Longrightarrow> \<not> is_whitespace c"
  by (auto simp: is_ascii_alphanumeric_def is_ascii_alphabetic_def is_ascii_digit_def is_between_def
      is_whitespace_def)

end
