(* ===== verification/Shell.thy ===== *)
theory Shell
  imports Text
begin

text \<open>
  A shell script read the way a shell splits it into commands and words (\<open>core/src/shell.rs\<close>), and the
  quoting the adapters write a hook's command with (\<open>adapters/src/session.rs\<close>). The scanner is a state
  and one step per sign it takes, as in the code: \<open>rest\<close> is what is ahead of it. The lemmas show that
  a quoted line reads back as its words, and that it is one command whatever the words hold.
\<close>

abbreviation (input) squote :: char where "squote \<equiv> CHR 0x27"
abbreviation (input) dquote :: char where "dquote \<equiv> CHR 0x22"
abbreviation (input) newline :: char where "newline \<equiv> CHR 0x0A"
abbreviation (input) backquote :: char where "backquote \<equiv> CHR 0x60"

datatype quote_mark = No_Quote | Single | Double

section \<open>Words\<close>

text \<open>The word being read, opened empty when none is.\<close>

abbreviation (input) held :: "string option \<Rightarrow> string" where "held w \<equiv> unwrap_or w []"

definition take_word :: "string list \<Rightarrow> string option \<Rightarrow> string list" where
  "take_word ws w = (case w of None \<Rightarrow> ws | Some x \<Rightarrow> ws @ [x])"

definition escaped_in_double :: "char \<Rightarrow> bool" where
  "escaped_in_double c \<longleftrightarrow> c \<in> {CHR ''$'', backquote, dquote, bslash, newline}"

function words_from :: "string list \<Rightarrow> string option \<Rightarrow> quote_mark \<Rightarrow> string \<Rightarrow> string list" where
  "words_from ws w q [] = take_word ws w"
| "words_from ws w q (c # cs) =
     (if q = No_Quote \<and> c \<in> {CHR '' '', CHR 0x09, newline} then words_from (take_word ws w) None q cs
      else if q = No_Quote \<and> c = squote then words_from ws (Some (held w)) Single cs
      else if q = No_Quote \<and> c = dquote then words_from ws (Some (held w)) Double cs
      else if q = Single \<and> c = squote \<or> q = Double \<and> c = dquote then words_from ws w No_Quote cs
      else if q = No_Quote \<and> c = bslash then
        (case cs of
           [] \<Rightarrow> words_from ws (Some (held w)) q []
         | e # cs' \<Rightarrow> words_from ws (Some (held w @ [e])) q cs')
      else if q = Double \<and> c = bslash then
        (case cs of
           [] \<Rightarrow> words_from ws (Some (held w @ [bslash])) q []
         | e # cs' \<Rightarrow>
             if escaped_in_double e then words_from ws (Some (held w @ [e])) q cs'
             else words_from ws (Some (held w @ [bslash, e])) q cs')
      else words_from ws (Some (held w @ [c])) q cs)"
  by pat_completeness auto
termination by (relation "measure (\<lambda>(ws, w, q, s). length s)") auto

definition words :: "string \<Rightarrow> string list" where
  "words command = words_from [] None No_Quote command"

section \<open>Output files\<close>

text \<open>The stream a redirection names: digits right before it, a word of their own.\<close>

definition stream_before :: "string \<Rightarrow> string option" where
  "stream_before passed =
     (let word = rev (takeWhile (\<lambda>c. \<not> is_whitespace c) (rev passed))
      in if word \<noteq> [] \<and> list_all is_ascii_digit word then Some word else None)"

text \<open>\<open>passed\<close> is what the scan has passed, which the code reads as the slice up to the sign.\<close>

function output_files_from :: "string list \<Rightarrow> string \<Rightarrow> quote_mark \<Rightarrow> string \<Rightarrow> string list" where
  "output_files_from files passed q [] = files"
| "output_files_from files passed q (c # cs) =
     (if q = No_Quote \<and> c = squote then output_files_from files (passed @ [c]) Single cs
      else if q = No_Quote \<and> c = dquote then output_files_from files (passed @ [c]) Double cs
      else if q = Single \<and> c = squote \<or> q = Double \<and> c = dquote then
        output_files_from files (passed @ [c]) No_Quote cs
      else if q \<noteq> Single \<and> c = bslash then
        output_files_from files (passed @ c # take 1 cs) q (drop 1 cs)
      else if q = No_Quote \<and> c = CHR ''>'' then
        (let doubled = (case cs of d # _ \<Rightarrow> d = CHR ''>'' | [] \<Rightarrow> False);
             cs1 = (if doubled then tl cs else cs);
             to_a_stream = (case cs1 of d # _ \<Rightarrow> d = CHR ''&'' | [] \<Rightarrow> False);
             cs2 = (if to_a_stream then tl cs1 else cs1);
             further = passed @ take (length cs + 1 - length cs2) (c # cs);
             stream = stream_before passed
         in if \<not> to_a_stream \<and> (stream = None \<or> stream = Some ''1'')
            then output_files_from (files @ take 1 (words cs2)) further q cs2
            else output_files_from files further q cs2)
      else output_files_from files (passed @ [c]) q cs)"
  by pat_completeness auto
termination by (relation "measure (\<lambda>(files, passed, q, s). length s)") (auto split: list.splits)

definition output_files :: "string \<Rightarrow> string list" where
  "output_files command = output_files_from [] [] No_Quote command"

section \<open>The scanner\<close>

datatype split = Split_Pipelines | Split_Commands

record scanner =
  sc_split :: split
  sc_current :: string
  sc_commands :: "string list"
  sc_quote :: quote_mark
  sc_nested :: nat
  sc_backtick :: bool
  sc_heredocs :: "string list"

definition new_scanner :: "split \<Rightarrow> scanner" where
  "new_scanner how = \<lparr>sc_split = how, sc_current = [], sc_commands = [], sc_quote = No_Quote,
     sc_nested = 0, sc_backtick = False, sc_heredocs = []\<rparr>"

definition push :: "string \<Rightarrow> scanner \<Rightarrow> scanner" where
  "push text S = S\<lparr>sc_current := sc_current S @ text\<rparr>"

text \<open>\<open>chars.peek()\<close> is \<open>c\<close>.\<close>

definition ahead :: "char \<Rightarrow> string \<Rightarrow> bool" where
  "ahead c rest \<longleftrightarrow> (case rest of [] \<Rightarrow> False | d # _ \<Rightarrow> d = c)"

text \<open>Takes \<open>c\<close> inside a quote; \<open>None\<close> when the scanner is in none.\<close>

definition quoted :: "char \<Rightarrow> string \<Rightarrow> scanner \<Rightarrow> (scanner \<times> string) option" where
  "quoted c rest S =
     (case sc_quote S of
        No_Quote \<Rightarrow> None
      | Single \<Rightarrow>
          Some (push [c] (if c = squote then S\<lparr>sc_quote := No_Quote\<rparr> else S), rest)
      | Double \<Rightarrow>
          if c = dquote then Some (push [c] (S\<lparr>sc_quote := No_Quote\<rparr>), rest)
          else if c = bslash then
            (case rest of
               [] \<Rightarrow> Some (push [c] S, [])
             | e # rest' \<Rightarrow> Some (push [c, e] S, rest'))
          else Some (push [c] S, rest))"

text \<open>Ends the command being read.\<close>

definition finish :: "scanner \<Rightarrow> scanner" where
  "finish S =
     (let command = trim (sc_current S)
      in S\<lparr>sc_commands := (if command = [] then sc_commands S else sc_commands S @ [command]),
           sc_current := []\<rparr>)"

text \<open>Reads a \<open><<\<close> the scanner just met, the second sign still ahead.\<close>

definition in_delimiter :: "char \<Rightarrow> bool" where
  "in_delimiter c \<longleftrightarrow> \<not> is_whitespace c \<and> c \<notin> set '';&|<>''"

definition heredoc :: "string \<Rightarrow> scanner \<Rightarrow> scanner \<times> string" where
  "heredoc rest S =
     (let rest1 = tl rest; S1 = push ''<<'' S
      in if ahead (CHR ''<'') rest1 then (push ''<'' S1, tl rest1)
         else
           (let dash = ahead (CHR ''-'') rest1;
                rest2 = (if dash then tl rest1 else rest1);
                S2 = (if dash then push ''-'' S1 else S1);
                blank = (\<lambda>c. c = CHR '' '' \<or> c = CHR 0x09);
                rest3 = dropWhile blank rest2;
                word = takeWhile in_delimiter rest3;
                S3 = push (takeWhile blank rest2 @ word) S2;
                delimiter = filter (\<lambda>c. c \<notin> {squote, dquote, bslash}) word
            in (if delimiter \<noteq> [] then S3\<lparr>sc_heredocs := sc_heredocs S3 @ [delimiter]\<rparr> else S3,
                dropWhile in_delimiter rest3)))"

lemma tl_dropWhile_shorter:
  "dropWhile p s \<noteq> [] \<Longrightarrow> length (dropWhile p s) - Suc 0 < length s"
  using length_dropWhile_le [of p s] by (cases "dropWhile p s") auto

text \<open>Passes over one heredoc's body, to after the line that is its delimiter.\<close>

function skip_body :: "string \<Rightarrow> string \<Rightarrow> string" where
  "skip_body delimiter rest =
     (let line = takeWhile (\<lambda>c. c \<noteq> newline) rest; after = dropWhile (\<lambda>c. c \<noteq> newline) rest
      in if trim line = delimiter \<or> after = [] then tl after else skip_body delimiter (tl after))"
  by pat_completeness auto
termination
  by (relation "measure (\<lambda>(d, s). length s)") (auto simp: Let_def dropWhile_eq_Nil_conv intro!: tl_dropWhile_shorter)

declare skip_body.simps [simp del]

definition skip_heredoc_bodies :: "string \<Rightarrow> scanner \<Rightarrow> scanner \<times> string" where
  "skip_heredoc_bodies rest S =
     (S\<lparr>sc_heredocs := []\<rparr>, foldl (\<lambda>r d. skip_body d r) rest (sc_heredocs S))"

text \<open>Takes \<open>c\<close> where it may separate commands.\<close>

definition operator :: "char \<Rightarrow> string \<Rightarrow> scanner \<Rightarrow> scanner \<times> string" where
  "operator c rest S =
     (if c = newline then skip_heredoc_bodies rest (finish S)
      else if c = CHR '';'' then (finish S, rest)
      else if c = CHR ''&'' \<and> ahead (CHR ''&'') rest then (finish S, tl rest)
      else if c = CHR ''&''
              \<and> (ahead (CHR ''>'') rest
                 \<or> sc_current S \<noteq> [] \<and> List.last (sc_current S) \<in> {CHR ''>'', CHR ''<''})
        then (push [c] S, rest)
      else if c = CHR ''&'' then (finish S, rest)
      else if c = CHR ''|'' \<and> ahead (CHR ''|'') rest then (finish S, tl rest)
      else if c = CHR ''|'' \<and> sc_split S = Split_Commands
        then (finish S, if ahead (CHR ''&'') rest then tl rest else rest)
      else (push [c] S, rest))"

text \<open>Takes \<open>c\<close> outside any quote.\<close>

definition unquoted :: "char \<Rightarrow> string \<Rightarrow> scanner \<Rightarrow> scanner \<times> string" where
  "unquoted c rest S =
     (if c = bslash then
        (case rest of
           [] \<Rightarrow> (push [c] S, [])
         | e # rest' \<Rightarrow> if e = newline then (S, rest') else (push [c, e] S, rest'))
      else if c = squote then (push [c] (S\<lparr>sc_quote := Single\<rparr>), rest)
      else if c = dquote then (push [c] (S\<lparr>sc_quote := Double\<rparr>), rest)
      else if c = backquote then (push [c] (S\<lparr>sc_backtick := \<not> sc_backtick S\<rparr>), rest)
      else if c = CHR ''$'' \<and> ahead (CHR ''('') rest
        then (push ''$('' (S\<lparr>sc_nested := sc_nested S + 1\<rparr>), tl rest)
      else if c = CHR ''('' \<and> sc_nested S > 0 then (push [c] (S\<lparr>sc_nested := sc_nested S + 1\<rparr>), rest)
      else if c = CHR '')'' \<and> sc_nested S > 0 then (push [c] (S\<lparr>sc_nested := sc_nested S - 1\<rparr>), rest)
      else if sc_nested S > 0 \<or> sc_backtick S then (push [c] S, rest)
      else if c = CHR ''#'' \<and> (sc_current S = [] \<or> is_whitespace (List.last (sc_current S)))
        then (S, dropWhile (\<lambda>d. d \<noteq> newline) rest)
      else if c = CHR ''<'' \<and> ahead (CHR ''<'') rest then heredoc rest S
      else operator c rest S)"

definition scan_sign :: "char \<Rightarrow> string \<Rightarrow> scanner \<Rightarrow> scanner \<times> string" where
  "scan_sign c rest S = (case quoted c rest S of Some r \<Rightarrow> r | None \<Rightarrow> unquoted c rest S)"

text \<open>Every sign leaves less ahead.\<close>

lemma skip_body_shorter: "length (skip_body d s) \<le> length s"
proof (induction d s rule: skip_body.induct)
  case (1 d s)
  let ?after = "dropWhile (\<lambda>c. c \<noteq> newline) s"
  have "length (tl ?after) \<le> length s"
    using length_dropWhile_le [of "\<lambda>c. c \<noteq> newline" s] by simp
  with 1 show ?case
    by (subst skip_body.simps) (auto simp: Let_def intro: order_trans)
qed

lemma skip_bodies_shorter: "length (foldl (\<lambda>r d. skip_body d r) rest ds) \<le> length rest"
  by (induction ds arbitrary: rest) (auto intro: order_trans skip_body_shorter)

lemma heredoc_shorter: "length (snd (heredoc rest S)) \<le> length rest"
proof -
  have drop: "length (dropWhile p (dropWhile q r)) \<le> length rest" if "length r \<le> length rest" for p q r
    using that by (meson length_dropWhile_le order_trans)
  show ?thesis
    by (simp add: heredoc_def Let_def drop)
qed

lemma scan_sign_shorter: "length (snd (scan_sign c rest S)) \<le> length rest"
  using heredoc_shorter [of rest S] skip_bodies_shorter [of rest] length_dropWhile_le [of _ rest]
  by (auto simp: scan_sign_def quoted_def unquoted_def operator_def skip_heredoc_bodies_def Let_def
      split: quote_mark.splits list.splits if_splits option.splits)

function run_scanner :: "scanner \<Rightarrow> string \<Rightarrow> string list" where
  "run_scanner S [] = sc_commands (finish S)"
| "run_scanner S (c # rest) =
     (let (S', rest') = scan_sign c rest S in run_scanner S' rest')"
  by pat_completeness auto
termination
proof (relation "measure (\<lambda>(S, s). length s)")
  fix S c rest x S' rest'
  assume "x = scan_sign c rest S" "(S', rest') = x"
  then show "((S', rest'), S, c # rest) \<in> measure (\<lambda>(S, s). length s)"
    using scan_sign_shorter [of c rest S] by (metis case_prod_conv in_measure length_Cons less_Suc_eq_le snd_conv)
qed simp

definition pipelines :: "string \<Rightarrow> string list" where
  "pipelines script = run_scanner (new_scanner Split_Pipelines) script"

definition simple_commands :: "string \<Rightarrow> string list" where
  "simple_commands script = run_scanner (new_scanner Split_Commands) script"

section \<open>Quoting\<close>

definition plain_sign :: "char \<Rightarrow> bool" where
  "plain_sign c \<longleftrightarrow> is_ascii_alphanumeric c \<or> c \<in> set ''_./=:-@%+,''"

definition sh_quoted :: "string \<Rightarrow> string" where
  "sh_quoted part =
     (if part \<noteq> [] \<and> list_all plain_sign part then part
      else [squote] @ concat (map (\<lambda>c. if c = squote then [squote, bslash, squote, squote] else [c]) part)
           @ [squote])"

section \<open>A quoted line is one command and reads back as its words\<close>

abbreviation (input) quoted_signs :: "string \<Rightarrow> string" where
  "quoted_signs part \<equiv>
     concat (map (\<lambda>c. if c = squote then [squote, bslash, squote, squote] else [c]) part)"

lemma plain_sign_calm:
  assumes "plain_sign c"
  shows "\<not> is_whitespace c" "c \<noteq> CHR '' ''" "c \<noteq> CHR 0x09" "c \<noteq> newline" "c \<noteq> squote" "c \<noteq> dquote"
    "c \<noteq> bslash" "c \<noteq> backquote" "c \<noteq> CHR ''$''" "c \<noteq> CHR ''#''" "c \<noteq> CHR ''<''" "c \<noteq> CHR '';''"
    "c \<noteq> CHR ''&''" "c \<noteq> CHR ''|''" "c \<noteq> CHR ''(''" "c \<noteq> CHR '')''"
  using assms
  by (auto simp: plain_sign_def is_ascii_alphanumeric_def is_ascii_alphabetic_def is_ascii_digit_def
      is_between_def is_whitespace_def)

lemma words_plain:
  assumes "list_all plain_sign part"
  shows "words_from ws (Some w) No_Quote (part @ rest) = words_from ws (Some (w @ part)) No_Quote rest"
  using assms
proof (induction part arbitrary: w)
  case (Cons c part)
  then show ?case using plain_sign_calm [of c] by simp
qed simp

lemma words_single:
  "words_from ws (Some w) Single (quoted_signs part @ squote # rest) =
     words_from ws (Some (w @ part)) No_Quote rest"
  by (induction part arbitrary: w) simp_all

lemma words_sh_quoted:
  "words_from ws None No_Quote (sh_quoted part @ rest) = words_from ws (Some part) No_Quote rest"
proof (cases "part \<noteq> [] \<and> list_all plain_sign part")
  case True
  then obtain c cs where part: "part = c # cs" "plain_sign c" "list_all plain_sign cs"
    by (cases part) auto
  with plain_sign_calm [of c] words_plain [of cs ws "[c]" rest] True show ?thesis
    by (simp add: sh_quoted_def)
next
  case False
  have "words_from ws None No_Quote (squote # (quoted_signs part @ squote # rest)) =
      words_from ws (Some part) No_Quote rest"
    using words_single [of ws "[]" part rest] by simp
  then show ?thesis using False by (auto simp: sh_quoted_def)
qed

lemma words_quoted_line:
  "words_from ws None No_Quote (join_with '' '' (map sh_quoted parts)) = ws @ parts"
proof (induction "'' ''" parts arbitrary: ws rule: join_with.induct)
  case 1
  then show ?case by (simp add: take_word_def)
next
  case (2 part)
  then show ?case using words_sh_quoted [of ws part "[]"] by (simp add: take_word_def)
next
  case (3 part p parts)
  have "words_from ws None No_Quote (sh_quoted part @ '' '' @ join_with '' '' (map sh_quoted (p # parts)))
      = words_from (ws @ [part]) None No_Quote (join_with '' '' (map sh_quoted (p # parts)))"
    by (simp add: words_sh_quoted take_word_def)
  with 3 show ?case by simp
qed

text \<open>A scanner in nothing: no quote, no substitution.\<close>

definition calm :: "scanner \<Rightarrow> bool" where
  "calm S \<longleftrightarrow> sc_quote S = No_Quote \<and> sc_nested S = 0 \<and> \<not> sc_backtick S"

lemma push_push [simp]: "push b (push a S) = push (a @ b) S"
  by (simp add: push_def)

lemma push_nothing [simp]: "push [] S = S"
  by (simp add: push_def)

lemma calm_push [simp]: "calm (push text S) = calm S"
  by (simp add: calm_def push_def)

lemma scan_plain_sign:
  assumes "calm S" "plain_sign c"
  shows "scan_sign c rest S = (push [c] S, rest)"
  using plain_sign_calm [OF assms(2)] assms(1)
  by (simp add: scan_sign_def quoted_def unquoted_def operator_def calm_def)

lemma scan_blank:
  "calm S \<Longrightarrow> scan_sign (CHR '' '') rest S = (push '' '' S, rest)"
  by (simp add: scan_sign_def quoted_def unquoted_def operator_def calm_def)

lemma run_plain:
  "calm S \<Longrightarrow> list_all plain_sign part \<Longrightarrow> run_scanner S (part @ rest) = run_scanner (push part S) rest"
proof (induction part arbitrary: S)
  case (Cons c part)
  then show ?case by (simp add: scan_plain_sign)
qed simp

lemma run_open:
  "calm S \<Longrightarrow> run_scanner S (squote # rest) =
     run_scanner (push [squote] (S\<lparr>sc_quote := Single\<rparr>)) rest"
  by (simp add: scan_sign_def quoted_def unquoted_def calm_def)

lemma run_escaped_quote:
  "calm S \<Longrightarrow> run_scanner S (bslash # squote # rest) = run_scanner (push [bslash, squote] S) rest"
  by (simp add: scan_sign_def quoted_def unquoted_def calm_def)

lemma run_close:
  "calm S \<Longrightarrow> run_scanner (push t (S\<lparr>sc_quote := Single\<rparr>)) (squote # rest) =
     run_scanner (push (t @ [squote]) S) rest"
  by (cases S) (simp add: scan_sign_def quoted_def push_def calm_def)

lemma run_single_sign:
  "c \<noteq> squote \<Longrightarrow> run_scanner (push t (S\<lparr>sc_quote := Single\<rparr>)) (c # rest) =
     run_scanner (push (t @ [c]) (S\<lparr>sc_quote := Single\<rparr>)) rest"
  by (simp add: scan_sign_def quoted_def push_def)

declare run_scanner.simps [simp del]

lemma run_single:
  "calm S \<Longrightarrow>
     run_scanner (push t (S\<lparr>sc_quote := Single\<rparr>)) (quoted_signs part @ squote # rest) =
     run_scanner (push (t @ quoted_signs part @ [squote]) S) rest"
proof (induction part arbitrary: t S)
  case Nil
  then show ?case by (simp add: run_close)
next
  case (Cons c part)
  show ?case
  proof (cases "c = squote")
    case True
    have again: "push [squote] ((push u S)\<lparr>sc_quote := Single\<rparr>) = push (u @ [squote]) (S\<lparr>sc_quote := Single\<rparr>)" for u
      by (simp add: push_def)
    from Cons.prems Cons.IH [of S "t @ [squote, bslash, squote, squote]"] True show ?thesis
      by (simp add: run_close run_escaped_quote run_open again)
  next
    case False
    with Cons.prems Cons.IH [of S "t @ [c]"] show ?thesis by (simp add: run_single_sign)
  qed
qed

lemma run_sh_quoted:
  assumes "calm S"
  shows "run_scanner S (sh_quoted part @ rest) = run_scanner (push (sh_quoted part) S) rest"
  using run_plain [OF assms, of part rest] run_single [OF assms, of "[squote]" part rest]
  by (auto simp: sh_quoted_def run_open assms)

lemma run_quoted_line:
  "calm S \<Longrightarrow> run_scanner S (join_with '' '' (map sh_quoted parts)) =
     sc_commands (finish (push (join_with '' '' (map sh_quoted parts)) S))"
proof (induction "'' ''" parts arbitrary: S rule: join_with.induct)
  case 1
  then show ?case by (simp add: run_scanner.simps)
next
  case (2 part)
  then show ?case using run_sh_quoted [of S part "[]"] by (simp add: run_scanner.simps)
next
  case (3 part p parts)
  have "run_scanner S (sh_quoted part @ '' '' @ rest) = run_scanner (push (sh_quoted part @ '' '') S) rest" for rest
    using 3(2) by (simp add: run_sh_quoted) (simp add: run_scanner.simps scan_blank)
  with 3 show ?case by simp
qed

lemma sh_quoted_ends:
  "sh_quoted part \<noteq> []" "\<not> is_whitespace (hd (sh_quoted part))" "\<not> is_whitespace (List.last (sh_quoted part))"
  using plain_sign_calm(1)
  by (auto simp: sh_quoted_def list_all_iff is_whitespace_def is_between_def)

lemma quoted_line_ends:
  "parts \<noteq> [] \<Longrightarrow>
     (let line = join_with '' '' (map sh_quoted parts)
      in line \<noteq> [] \<and> \<not> is_whitespace (hd line) \<and> \<not> is_whitespace (List.last line))"
  by (induction "'' ''" parts rule: join_with.induct) (auto simp: sh_quoted_ends Let_def)

text \<open>C39. A command line written word by word with \<open>sh_quoted\<close> is one command, whatever the words
  hold, and its words read back as written.\<close>

theorem quoted_line_is_one_command:
  "map words (simple_commands (join_with '' '' (map sh_quoted parts))) = (if parts = [] then [] else [parts])"
proof (cases "parts = []")
  case True
  then show ?thesis
    by (simp add: simple_commands_def run_scanner.simps finish_def new_scanner_def trim_def trim_start_def trim_end_def)
next
  case False
  let ?line = "join_with '' '' (map sh_quoted parts)"
  have "calm (new_scanner Split_Commands)" by (simp add: calm_def new_scanner_def)
  moreover have "trim ?line = ?line" "?line \<noteq> []"
    using quoted_line_ends [OF False] by (simp_all add: Let_def trim_idle)
  ultimately have "simple_commands ?line = [?line]"
    by (simp add: simple_commands_def run_quoted_line finish_def push_def new_scanner_def)
  then show ?thesis using False words_quoted_line [of "[]" parts] by (simp add: words_def)
qed

end
