(* ===== verification/Diagnostics.thy ===== *)
theory Diagnostics
  imports Shell
begin

text \<open>
  What is wrong with a document, as data (\<open>core/src/diagnostic\<close>): the entry at fault, the stable code of
  the rule it breaks. Where in the document's text a problem is, and the sentences a reader is shown, are
  left out.
\<close>

section \<open>Rule codes\<close>

datatype (plugins only: code size) rule_code =
      RC_DuplicateId | RC_EmptyTitle | RC_EmptyScope | RC_NoCriteria | RC_AllCriteriaAreGuards
    | RC_UnknownDependency | RC_UnknownKey | RC_UnknownKind | RC_DependencyCycle
    | RC_OverlappingScope | RC_DuplicateShape | RC_DuplicateDecision | RC_UnknownShapeOwner
    | RC_ShapeOutsideOwnerScope | RC_UnknownShape | RC_ShapeUsedBeforeItsOwner
    | RC_ChangeOutsideScope | RC_DuplicateSpec | RC_NoSpecTest | RC_UnexplainedTest
    | RC_TestFileEscapes | RC_DuplicateTestFile | RC_UnknownSpecTask | RC_TestFileExists
    | RC_OtherSpecChanged | RC_DepartedSpecUnchanged | RC_CriterionCannotRun
    | RC_CriterionAlreadyPasses | RC_GuardAlreadyRed | RC_ProposedCriterionAlreadyPasses
    | RC_NoSummary | RC_NoDescription | RC_UnexplainedCriterion | RC_NoOutcome | RC_NoChanges
    | RC_UnexplainedDecision | RC_ChangeWithoutCode | RC_ChangeCodeMissesAName
    | RC_ChangeCodeIsAComment | RC_CriterionChecksPresence | RC_SharedCriterion | RC_OutsideTheSuite
    | RC_UsesItsOwnShape | RC_TaskWritesItsTest | RC_ChangesASpecTest | RC_UnknownAnswer
    | RC_UnrunSpecFile | RC_SpecTestRunsNoSpecFile | RC_EmptyText | RC_EmptyDetail | RC_UnknownId
    | RC_WithdrawnId | RC_EmptyReason | RC_MissingValues | RC_UnstatedAssumption | RC_MissingAnswer
    | RC_MismatchedAnswer | RC_IncoherentMode | RC_InvariantInParallel | RC_IncoherentOptional

primrec rule_code_str :: "rule_code \<Rightarrow> string" where
  "rule_code_str RC_DuplicateId = ''duplicate-id''"
| "rule_code_str RC_EmptyTitle = ''empty-title''"
| "rule_code_str RC_EmptyScope = ''empty-scope''"
| "rule_code_str RC_NoCriteria = ''no-criteria''"
| "rule_code_str RC_AllCriteriaAreGuards = ''all-criteria-are-guards''"
| "rule_code_str RC_UnknownDependency = ''unknown-dependency''"
| "rule_code_str RC_UnknownKey = ''unknown-key''"
| "rule_code_str RC_UnknownKind = ''unknown-kind''"
| "rule_code_str RC_DependencyCycle = ''dependency-cycle''"
| "rule_code_str RC_OverlappingScope = ''overlapping-scope''"
| "rule_code_str RC_DuplicateShape = ''duplicate-shape''"
| "rule_code_str RC_DuplicateDecision = ''duplicate-decision''"
| "rule_code_str RC_UnknownShapeOwner = ''unknown-shape-owner''"
| "rule_code_str RC_ShapeOutsideOwnerScope = ''shape-outside-owner-scope''"
| "rule_code_str RC_UnknownShape = ''unknown-shape''"
| "rule_code_str RC_ShapeUsedBeforeItsOwner = ''shape-used-before-its-owner''"
| "rule_code_str RC_ChangeOutsideScope = ''change-outside-scope''"
| "rule_code_str RC_DuplicateSpec = ''duplicate-spec''"
| "rule_code_str RC_NoSpecTest = ''no-spec-test''"
| "rule_code_str RC_UnexplainedTest = ''unexplained-test''"
| "rule_code_str RC_TestFileEscapes = ''test-file-escapes''"
| "rule_code_str RC_DuplicateTestFile = ''duplicate-test-file''"
| "rule_code_str RC_UnknownSpecTask = ''unknown-spec-task''"
| "rule_code_str RC_TestFileExists = ''test-file-exists''"
| "rule_code_str RC_OtherSpecChanged = ''other-spec-changed''"
| "rule_code_str RC_DepartedSpecUnchanged = ''departed-spec-unchanged''"
| "rule_code_str RC_CriterionCannotRun = ''criterion-cannot-run''"
| "rule_code_str RC_CriterionAlreadyPasses = ''criterion-already-passes''"
| "rule_code_str RC_GuardAlreadyRed = ''guard-already-red''"
| "rule_code_str RC_ProposedCriterionAlreadyPasses = ''proposed-criterion-already-passes''"
| "rule_code_str RC_NoSummary = ''no-summary''"
| "rule_code_str RC_NoDescription = ''no-description''"
| "rule_code_str RC_UnexplainedCriterion = ''unexplained-criterion''"
| "rule_code_str RC_NoOutcome = ''no-outcome''"
| "rule_code_str RC_NoChanges = ''no-changes''"
| "rule_code_str RC_UnexplainedDecision = ''unexplained-decision''"
| "rule_code_str RC_ChangeWithoutCode = ''change-without-code''"
| "rule_code_str RC_ChangeCodeMissesAName = ''change-code-misses-a-name''"
| "rule_code_str RC_ChangeCodeIsAComment = ''change-code-is-a-comment''"
| "rule_code_str RC_CriterionChecksPresence = ''criterion-checks-presence''"
| "rule_code_str RC_SharedCriterion = ''shared-criterion''"
| "rule_code_str RC_OutsideTheSuite = ''outside-the-suite''"
| "rule_code_str RC_UsesItsOwnShape = ''uses-its-own-shape''"
| "rule_code_str RC_TaskWritesItsTest = ''task-writes-its-test''"
| "rule_code_str RC_ChangesASpecTest = ''changes-a-spec-test''"
| "rule_code_str RC_UnknownAnswer = ''unknown-answer''"
| "rule_code_str RC_UnrunSpecFile = ''unrun-spec-file''"
| "rule_code_str RC_SpecTestRunsNoSpecFile = ''spec-test-runs-no-spec-file''"
| "rule_code_str RC_EmptyText = ''empty-text''"
| "rule_code_str RC_EmptyDetail = ''empty-detail''"
| "rule_code_str RC_UnknownId = ''unknown-id''"
| "rule_code_str RC_WithdrawnId = ''withdrawn-id''"
| "rule_code_str RC_EmptyReason = ''empty-reason''"
| "rule_code_str RC_MissingValues = ''missing-values''"
| "rule_code_str RC_UnstatedAssumption = ''unstated-assumption''"
| "rule_code_str RC_MissingAnswer = ''missing-answer''"
| "rule_code_str RC_MismatchedAnswer = ''mismatched-answer''"
| "rule_code_str RC_IncoherentMode = ''incoherent-mode''"
| "rule_code_str RC_InvariantInParallel = ''invariant-in-parallel''"
| "rule_code_str RC_IncoherentOptional = ''incoherent-optional''"

definition rule_codes :: "rule_code list" where
  "rule_codes = [RC_DuplicateId, RC_EmptyTitle, RC_EmptyScope, RC_NoCriteria, RC_AllCriteriaAreGuards, 
     RC_UnknownDependency, RC_UnknownKey, RC_UnknownKind, RC_DependencyCycle, 
     RC_OverlappingScope, RC_DuplicateShape, RC_DuplicateDecision, RC_UnknownShapeOwner, 
     RC_ShapeOutsideOwnerScope, RC_UnknownShape, RC_ShapeUsedBeforeItsOwner, 
     RC_ChangeOutsideScope, RC_DuplicateSpec, RC_NoSpecTest, RC_UnexplainedTest, 
     RC_TestFileEscapes, RC_DuplicateTestFile, RC_UnknownSpecTask, RC_TestFileExists, 
     RC_OtherSpecChanged, RC_DepartedSpecUnchanged, RC_CriterionCannotRun, 
     RC_CriterionAlreadyPasses, RC_GuardAlreadyRed, RC_ProposedCriterionAlreadyPasses, 
     RC_NoSummary, RC_NoDescription, RC_UnexplainedCriterion, RC_NoOutcome, RC_NoChanges, 
     RC_UnexplainedDecision, RC_ChangeWithoutCode, RC_ChangeCodeMissesAName, 
     RC_ChangeCodeIsAComment, RC_CriterionChecksPresence, RC_SharedCriterion, RC_OutsideTheSuite, 
     RC_UsesItsOwnShape, RC_TaskWritesItsTest, RC_ChangesASpecTest, RC_UnknownAnswer, 
     RC_UnrunSpecFile, RC_SpecTestRunsNoSpecFile, RC_EmptyText, RC_EmptyDetail, RC_UnknownId, 
     RC_WithdrawnId, RC_EmptyReason, RC_MissingValues, RC_UnstatedAssumption, RC_MissingAnswer, 
     RC_MismatchedAnswer, RC_IncoherentMode, RC_InvariantInParallel, RC_IncoherentOptional]"

section \<open>Subjects\<close>

record 'a named =
  nm_id :: "'a option"
  nm_index :: nat

definition named_entry :: "'a \<Rightarrow> nat \<Rightarrow> 'a named" where
  "named_entry i index = \<lparr>nm_id = Some i, nm_index = index\<rparr>"

datatype subject =
    Subj_Document
  | Subj_Task "string named"
  | Subj_Criterion "string named" nat
  | Subj_Finding "string named"
  | Subj_Question "string named"
  | Subj_Spec "string named"
  | Subj_Node "string named"

text \<open>A receipt counts a rule by its code's text, so no two codes share one.\<close>

lemma rule_code_listed: "c \<in> set rule_codes"
  by (cases c) (simp_all add: rule_codes_def)

end
