(* ===== verification/Tasks_Document.thy ===== *)
theory Tasks_Document
  imports Diagnostics Task_Ledger Dependency_Graph Scope_Policy
begin

text \<open>
  A tasks document (\<open>core/src/tasks/mod.rs\<close>) and what its rules find wrong with it
  (\<open>tasks/fault.rs\<close>, \<open>tasks/rules.rs\<close>, \<open>tasks/owned.rs\<close>). Text that only a person reads is a string. Whether a
  scope compiles into one set is the parameter \<open>unbuilt\<close>, the report of a set that does not.
\<close>

section \<open>The document\<close>

record plan_decision =
  pd_id :: string
  pd_question :: string
  pd_choice :: string
  pd_alternatives :: "string list"
  pd_why :: "string option"
  pd_answers :: "question_id option"

record shape =
  shp_name :: string
  shp_owner :: task_id
  shp_file :: path
  shp_code :: string

record change =
  ch_at :: string
  ch_what :: string
  ch_code :: "string option"

definition change_file :: "change \<Rightarrow> path" where
  "change_file c = hd (split_on ''::'' (ch_at c))"

definition change_within :: "change \<Rightarrow> string list" where
  "change_within c = drop 1 (split_on ''::'' (ch_at c))"

record plan_criterion =
  pc_cmd :: string
  pc_type :: "criterion_type option"
  pc_proves :: "string option"

definition criterion_is_guard :: "plan_criterion \<Rightarrow> bool" where
  "criterion_is_guard c \<longleftrightarrow> pc_type c = Some Guard"

definition logged_criterion :: "plan_criterion \<Rightarrow> criterion" where
  "logged_criterion c = \<lparr>crit_cmd = pc_cmd c, crit_type = pc_type c\<rparr>"

record task =
  tk_id :: task_id
  tk_title :: string
  tk_scope :: "scope_glob list"
  tk_criteria :: "plan_criterion list"
  tk_depends_on :: "task_id list"
  tk_notes :: "string option"
  tk_description :: "string option"
  tk_changes :: "change list"
  tk_outcome :: "string option"
  tk_uses :: "string list"
  tk_invariants :: "string list"

record tasks_file =
  tf_summary :: "string option"
  tf_description :: "string option"
  tf_design :: "string option"
  tf_decisions :: "plan_decision list"
  tf_shapes :: "shape list"
  tf_risks :: "string list"
  tf_out_of_scope :: "string list"
  tf_tasks :: "task list"

definition tasks_file_of :: "task list \<Rightarrow> tasks_file" where
  "tasks_file_of ts = \<lparr>tf_summary = None, tf_description = None, tf_design = None, tf_decisions = [],
     tf_shapes = [], tf_risks = [], tf_out_of_scope = [], tf_tasks = ts\<rparr>"

section \<open>Faults\<close>

datatype (plugins only: code size) task_fault =
    TF_NoSummary
  | TF_NoPlanDescription
  | TF_UnexplainedDecision string string
  | TF_ChangeWithoutCode string
  | TF_NoTaskDescription
  | TF_NoOutcome
  | TF_NoChanges
  | TF_UnexplainedCriterion string
  | TF_DuplicateTask
  | TF_UnknownDependency task_id
  | TF_EmptyTitle
  | TF_EmptyScope
  | TF_NoCriteria
  | TF_AllCriteriaAreGuards
  | TF_DependencyCycle "task_id list"
  | TF_OverlappingScope scope_glob task_id scope_glob
  | TF_ChangesASpecTest string task_id
  | TF_UnknownAnswer string question_id "question_id list"
  | TF_CriterionChecksPresence string path
  | TF_OutsideTheSuite string string
  | TF_UsesItsOwnShape string
  | TF_TaskWritesItsTest string string
  | TF_SharedCriterion string task_id
  | TF_DuplicateShape string
  | TF_DuplicateDecision string
  | TF_UnknownShapeOwner string task_id
  | TF_ShapeOutsideOwnerScope string path task_id "string option"
  | TF_UnknownShape string
  | TF_ShapeUsedBeforeItsOwner string task_id
  | TF_ChangeOutsideScope path "string option"
  | TF_ChangeCodeMissesAName string "string list"
  | TF_ChangeCodeIsAComment string

fun fault_code :: "task_fault \<Rightarrow> rule_code" where
  "fault_code TF_NoSummary = RC_NoSummary"
| "fault_code TF_NoPlanDescription = RC_NoDescription"
| "fault_code TF_NoTaskDescription = RC_NoDescription"
| "fault_code (TF_UnexplainedDecision _ _) = RC_UnexplainedDecision"
| "fault_code (TF_ChangeWithoutCode _) = RC_ChangeWithoutCode"
| "fault_code TF_NoOutcome = RC_NoOutcome"
| "fault_code TF_NoChanges = RC_NoChanges"
| "fault_code (TF_UnexplainedCriterion _) = RC_UnexplainedCriterion"
| "fault_code TF_DuplicateTask = RC_DuplicateId"
| "fault_code (TF_UnknownDependency _) = RC_UnknownDependency"
| "fault_code TF_EmptyTitle = RC_EmptyTitle"
| "fault_code TF_EmptyScope = RC_EmptyScope"
| "fault_code TF_NoCriteria = RC_NoCriteria"
| "fault_code TF_AllCriteriaAreGuards = RC_AllCriteriaAreGuards"
| "fault_code (TF_DependencyCycle _) = RC_DependencyCycle"
| "fault_code (TF_OverlappingScope _ _ _) = RC_OverlappingScope"
| "fault_code (TF_ChangesASpecTest _ _) = RC_ChangesASpecTest"
| "fault_code (TF_UnknownAnswer _ _ _) = RC_UnknownAnswer"
| "fault_code (TF_CriterionChecksPresence _ _) = RC_CriterionChecksPresence"
| "fault_code (TF_OutsideTheSuite _ _) = RC_OutsideTheSuite"
| "fault_code (TF_UsesItsOwnShape _) = RC_UsesItsOwnShape"
| "fault_code (TF_TaskWritesItsTest _ _) = RC_TaskWritesItsTest"
| "fault_code (TF_SharedCriterion _ _) = RC_SharedCriterion"
| "fault_code (TF_DuplicateShape _) = RC_DuplicateShape"
| "fault_code (TF_DuplicateDecision _) = RC_DuplicateDecision"
| "fault_code (TF_UnknownShapeOwner _ _) = RC_UnknownShapeOwner"
| "fault_code (TF_ShapeOutsideOwnerScope _ _ _ _) = RC_ShapeOutsideOwnerScope"
| "fault_code (TF_UnknownShape _) = RC_UnknownShape"
| "fault_code (TF_ShapeUsedBeforeItsOwner _ _) = RC_ShapeUsedBeforeItsOwner"
| "fault_code (TF_ChangeOutsideScope _ _) = RC_ChangeOutsideScope"
| "fault_code (TF_ChangeCodeMissesAName _ _) = RC_ChangeCodeMissesAName"
| "fault_code (TF_ChangeCodeIsAComment _) = RC_ChangeCodeIsAComment"

text \<open>A diagnostic of a tasks document: its subject, and the rule it broke.\<close>

record diagnostic =
  dg_subject :: subject
  dg_code :: rule_code
  dg_fault :: task_fault

definition broke_rule :: "subject \<Rightarrow> task_fault \<Rightarrow> diagnostic" where
  "broke_rule s f = \<lparr>dg_subject = s, dg_code = fault_code f, dg_fault = f\<rparr>"

definition broke_document :: "task_fault \<Rightarrow> diagnostic" where
  "broke_document f = broke_rule Subj_Document f"

definition broke_task :: "nat \<Rightarrow> task_id \<Rightarrow> task_fault \<Rightarrow> diagnostic" where
  "broke_task index i f = broke_rule (Subj_Task (named_entry i index)) f"

section \<open>The rules of one task\<close>

text \<open>Entries whose key an earlier one carries already: \<open>HashSet::insert\<close> answering \<open>false\<close>.\<close>

fun repeated :: "('a \<Rightarrow> 'k) \<Rightarrow> 'k list \<Rightarrow> 'a list \<Rightarrow> 'a list" where
  "repeated key seen [] = []"
| "repeated key seen (x # xs) =
     (if key x \<in> set seen then x # repeated key seen xs else repeated key (key x # seen) xs)"

definition duplicate_ids :: "task list \<Rightarrow> diagnostic list" where
  "duplicate_ids ts =
     map (\<lambda>(index, t). broke_task index (tk_id t) TF_DuplicateTask)
       (repeated (\<lambda>(_, t). tk_id t) [] (enumerate 0 ts))"

definition criteria_rules :: "nat \<Rightarrow> task \<Rightarrow> diagnostic option" where
  "criteria_rules index t =
     (if tk_criteria t = [] then Some (broke_task index (tk_id t) TF_NoCriteria)
      else if list_all (\<lambda>c. pc_type c = Some Guard) (tk_criteria t)
        then Some (broke_task index (tk_id t) TF_AllCriteriaAreGuards)
      else None)"

definition of_option :: "'a option \<Rightarrow> 'a list" where
  "of_option x = (case x of None \<Rightarrow> [] | Some v \<Rightarrow> [v])"

definition task_rules :: "nat \<Rightarrow> task \<Rightarrow> task_id list \<Rightarrow> diagnostic list" where
  "task_rules index t known_ids =
     map (\<lambda>d. broke_task index (tk_id t) (TF_UnknownDependency d))
       (filter (\<lambda>d. d \<notin> set known_ids) (tk_depends_on t))
     @ (if trim (tk_title t) = [] then [broke_task index (tk_id t) TF_EmptyTitle] else [])
     @ (if tk_scope t = [] then [broke_task index (tk_id t) TF_EmptyScope] else [])
     @ of_option (criteria_rules index t)"

section \<open>The rules of the whole graph\<close>

definition task_adjacency :: "task list \<Rightarrow> task_id adjacency" where
  "task_adjacency ts = foldl (\<lambda>m t. om_put (tk_id t) (tk_depends_on t) m) [] ts"

text \<open>The search returns on every graph (\<open>find_cycle_decides_acyclicity\<close>), so \<open>None\<close> is never the fuel's.\<close>

definition dependency_cycle :: "task list \<Rightarrow> diagnostic option" where
  "dependency_cycle ts =
     (case find_cycle (task_adjacency ts) of
        Some (Some cycle) \<Rightarrow> Some (broke_document (TF_DependencyCycle cycle))
      | _ \<Rightarrow> None)"

text \<open>One search of what a task reaches: \<open>visited\<close> holds the dependencies met, and the head of the
  stack is the one popped next. A map collected from pairs keeps the last of two that share a key.\<close>

definition last_of :: "('k \<times> 'v) list \<Rightarrow> 'k \<Rightarrow> 'v option" where
  "last_of pairs k = map_of (rev pairs) k"

definition deps_listed :: "task list \<Rightarrow> task_id \<Rightarrow> task_id list" where
  "deps_listed ts i = unwrap_or (last_of (map (\<lambda>t. (tk_id t, tk_depends_on t)) ts) i) []"

definition visit_new :: "'a list \<Rightarrow> 'a list \<Rightarrow> 'a list \<Rightarrow> 'a list \<times> 'a list" where
  "visit_new deps visited stack =
     foldl (\<lambda>(v, s) d. if d \<in> set v then (v, s) else (d # v, d # s)) (visited, stack) deps"

definition dep_universe :: "task list \<Rightarrow> task_id set" where
  "dep_universe ts = (\<Union>t \<in> set ts. set (tk_depends_on t))"

lemma deps_listed_universe: "set (deps_listed ts i) \<subseteq> dep_universe ts"
proof (cases "last_of (map (\<lambda>t. (tk_id t, tk_depends_on t)) ts) i")
  case (Some ds)
  then show ?thesis
    by (auto simp: deps_listed_def last_of_def dep_universe_def dest!: map_of_SomeD)
qed (simp add: deps_listed_def)

lemma finite_universe [simp]: "finite (dep_universe ts)"
  by (simp add: dep_universe_def)

lemma visit_new_spec:
  obtains new where "visit_new deps v s = (rev new @ v, rev new @ s)"
    "set new = set deps - set v" "distinct new"
proof -
  have "\<exists>new. visit_new deps v s = (rev new @ v, rev new @ s) \<and> set new = set deps - set v \<and> distinct new"
  proof (induction deps arbitrary: v s)
    case Nil
    then show ?case by (simp add: visit_new_def)
  next
    case (Cons d deps)
    show ?case
    proof (cases "d \<in> set v")
      case True
      with Cons.IH [of v s] show ?thesis by (auto simp: visit_new_def)
    next
      case False
      obtain new where "visit_new deps (d # v) (d # s) = (rev new @ d # v, rev new @ d # s)"
          "set new = set deps - set (d # v)" "distinct new"
        using Cons.IH by blast
      with False show ?thesis
        by (intro exI [of _ "d # new"]) (auto simp: visit_new_def)
    qed
  qed
  then show thesis using that by blast
qed

function related_from :: "task list \<Rightarrow> task_id list \<Rightarrow> task_id list \<Rightarrow> task_id list" where
  "related_from ts visited [] = visited"
| "related_from ts visited (i # stack) =
     (let (v, s) = visit_new (deps_listed ts i) visited stack in related_from ts v s)"
  by pat_completeness auto
termination
proof (relation "measures [\<lambda>(ts, v, s). card (dep_universe ts - set v), \<lambda>(ts, v, s). length s]")
  fix ts visited i stack x v s
  assume x: "x = visit_new (deps_listed ts i) visited stack" "(v, s) = x"
  obtain new where new: "visit_new (deps_listed ts i) visited stack = (rev new @ visited, rev new @ stack)"
      "set new = set (deps_listed ts i) - set visited" "distinct new"
    by (rule visit_new_spec)
  show "((ts, v, s), ts, visited, i # stack) \<in>
      measures [\<lambda>(ts, v, s). card (dep_universe ts - set v), \<lambda>(ts, v, s). length s]"
  proof (cases new)
    case Nil
    with new x show ?thesis by simp
  next
    case (Cons d rest)
    with new have "d \<in> dep_universe ts - set visited" using deps_listed_universe by fastforce
    moreover from this Cons have "dep_universe ts - set (rev new @ visited) \<subseteq> dep_universe ts - set visited - {d}"
      by auto
    ultimately have "card (dep_universe ts - set (rev new @ visited)) < card (dep_universe ts - set visited)"
      by (intro psubset_card_mono) auto
    with new x show ?thesis by simp
  qed
qed simp

text \<open>Every pair of a task and what it reaches, in either direction.\<close>

definition transitively_related :: "task list \<Rightarrow> (task_id \<times> task_id) list" where
  "transitively_related ts =
     concat (map (\<lambda>t. concat (map (\<lambda>d. [(tk_id t, d), (d, tk_id t)]) (related_from ts [] [tk_id t]))) ts)"

definition overlaps_of ::
  "(scope_glob \<Rightarrow> path \<Rightarrow> bool) \<Rightarrow> nat \<Rightarrow> task \<Rightarrow> task \<Rightarrow> diagnostic list" where
  "overlaps_of matches i a b =
     concat (map (\<lambda>ga. map (\<lambda>gb. broke_task i (tk_id a) (TF_OverlappingScope ga (tk_id b) gb))
       (filter (might_overlap matches ga) (tk_scope b))) (tk_scope a))"

definition overlapping_scopes :: "(scope_glob \<Rightarrow> path \<Rightarrow> bool) \<Rightarrow> task list \<Rightarrow> diagnostic list" where
  "overlapping_scopes matches ts =
     (let related = transitively_related ts
      in concat (map (\<lambda>i. concat (map (\<lambda>j.
           if (tk_id (ts ! i), tk_id (ts ! j)) \<in> set related then []
           else overlaps_of matches i (ts ! i) (ts ! j))
         [Suc i..<length ts])) [0..<length ts]))"

section \<open>Shapes, decisions and changes\<close>

text \<open>Whether a task's scope lets it write a file; \<open>Inl\<close> is the report of a scope that does not compile
  into one set.\<close>

definition scope_globset :: "(scope_glob list \<Rightarrow> string option) \<Rightarrow> scope_glob list \<Rightarrow> string + glob_set" where
  "scope_globset unbuilt gs = (case unbuilt gs of Some report \<Rightarrow> Inl report | None \<Rightarrow> Inr gs)"

definition covers ::
  "(scope_glob \<Rightarrow> path \<Rightarrow> bool) \<Rightarrow> (scope_glob list \<Rightarrow> string option) \<Rightarrow> task \<Rightarrow> path \<Rightarrow> string + bool" where
  "covers matches unbuilt t file =
     (case scope_globset unbuilt (tk_scope t) of Inl e \<Rightarrow> Inl e | Inr S \<Rightarrow> Inr (set_is_match matches S file))"

definition repeated_shapes_and_decisions :: "tasks_file \<Rightarrow> diagnostic list" where
  "repeated_shapes_and_decisions f =
     map (\<lambda>s. broke_document (TF_DuplicateShape (shp_name s))) (repeated shp_name [] (tf_shapes f))
     @ map (\<lambda>d. broke_document (TF_DuplicateDecision (pd_id d))) (repeated pd_id [] (tf_decisions f))"

definition owner_fault ::
  "(scope_glob \<Rightarrow> path \<Rightarrow> bool) \<Rightarrow> (scope_glob list \<Rightarrow> string option) \<Rightarrow> tasks_file \<Rightarrow> shape \<Rightarrow>
     diagnostic option" where
  "owner_fault matches unbuilt f s =
     (case List.find (\<lambda>t. tk_id t = shp_owner s) (tf_tasks f) of
        None \<Rightarrow> Some (broke_document (TF_UnknownShapeOwner (shp_name s) (shp_owner s)))
      | Some owner \<Rightarrow>
          (case covers matches unbuilt owner (shp_file s) of
             Inr True \<Rightarrow> None
           | Inr False \<Rightarrow>
               Some (broke_document (TF_ShapeOutsideOwnerScope (shp_name s) (shp_file s) (shp_owner s) None))
           | Inl report \<Rightarrow>
               Some (broke_document
                 (TF_ShapeOutsideOwnerScope (shp_name s) (shp_file s) (shp_owner s) (Some report)))))"

definition shape_owners ::
  "(scope_glob \<Rightarrow> path \<Rightarrow> bool) \<Rightarrow> (scope_glob list \<Rightarrow> string option) \<Rightarrow> tasks_file \<Rightarrow> diagnostic list" where
  "shape_owners matches unbuilt f = List.map_filter (owner_fault matches unbuilt f) (tf_shapes f)"

text \<open>Every pair of a task and one it waits for, directly or through others; the head of the stack is
  the one popped next.\<close>

function waits_from :: "task list \<Rightarrow> task_id \<Rightarrow> (task_id \<times> task_id) list \<Rightarrow> task_id list \<Rightarrow>
     (task_id \<times> task_id) list" where
  "waits_from ts i pairs [] = pairs"
| "waits_from ts i pairs (e # stack) =
     (if (i, e) \<in> set pairs then waits_from ts i pairs stack
      else waits_from ts i ((i, e) # pairs) (rev (deps_listed ts e) @ stack))"
  by pat_completeness auto
termination
proof (relation "measures [\<lambda>(ts, i, pairs, s). card ((set s \<union> dep_universe ts) - {e. (i, e) \<in> set pairs}),
    \<lambda>(ts, i, pairs, s). length s]")
  fix ts i pairs e and stack :: "task_id list"
  let ?rest = "\<lambda>pairs s. (set s \<union> dep_universe ts) - {e. (i, e) \<in> set pairs}"
  show "((ts, i, pairs, stack), ts, i, pairs, e # stack) \<in> measures
      [\<lambda>(ts, i, pairs, s). card ((set s \<union> dep_universe ts) - {e. (i, e) \<in> set pairs}),
       \<lambda>(ts, i, pairs, s). length s]"
    if "(i, e) \<in> set pairs"
  proof -
    have "?rest pairs (e # stack) = ?rest pairs stack" using that by auto
    then show ?thesis by simp
  qed
  show "((ts, i, (i, e) # pairs, rev (deps_listed ts e) @ stack), ts, i, pairs, e # stack) \<in> measures
      [\<lambda>(ts, i, pairs, s). card ((set s \<union> dep_universe ts) - {e. (i, e) \<in> set pairs}),
       \<lambda>(ts, i, pairs, s). length s]"
    if "(i, e) \<notin> set pairs"
  proof -
    have "?rest ((i, e) # pairs) (rev (deps_listed ts e) @ stack) \<subset> ?rest pairs (e # stack)"
      using that deps_listed_universe [of ts e] by auto
    then have "card (?rest ((i, e) # pairs) (rev (deps_listed ts e) @ stack)) < card (?rest pairs (e # stack))"
      by (intro psubset_card_mono) auto
    then show ?thesis by simp
  qed
qed simp

definition waits_for :: "task list \<Rightarrow> (task_id \<times> task_id) list" where
  "waits_for ts = foldl (\<lambda>pairs t. waits_from ts (tk_id t) pairs (rev (tk_depends_on t))) [] ts"

definition use_fault ::
  "(string \<Rightarrow> task_id option) \<Rightarrow> (task_id \<times> task_id) list \<Rightarrow> nat \<Rightarrow> task \<Rightarrow> string \<Rightarrow> diagnostic option" where
  "use_fault owners waits index t name =
     (case owners name of
        None \<Rightarrow> Some (broke_task index (tk_id t) (TF_UnknownShape name))
      | Some owner \<Rightarrow>
          if owner \<noteq> tk_id t \<and> (tk_id t, owner) \<notin> set waits
          then Some (broke_task index (tk_id t) (TF_ShapeUsedBeforeItsOwner name owner)) else None)"

definition shape_uses :: "tasks_file \<Rightarrow> diagnostic list" where
  "shape_uses f =
     (let owners = last_of (map (\<lambda>s. (shp_name s, shp_owner s)) (tf_shapes f)); waits = waits_for (tf_tasks f)
      in concat (map (\<lambda>(index, t). List.map_filter (use_fault owners waits index t) (tk_uses t))
           (enumerate 0 (tf_tasks f))))"

definition change_fault ::
  "(scope_glob \<Rightarrow> path \<Rightarrow> bool) \<Rightarrow> (scope_glob list \<Rightarrow> string option) \<Rightarrow> nat \<Rightarrow> task \<Rightarrow> change \<Rightarrow>
     diagnostic option" where
  "change_fault matches unbuilt index t c =
     (case covers matches unbuilt t (change_file c) of
        Inr True \<Rightarrow> None
      | Inr False \<Rightarrow> Some (broke_task index (tk_id t) (TF_ChangeOutsideScope (change_file c) None))
      | Inl report \<Rightarrow> Some (broke_task index (tk_id t) (TF_ChangeOutsideScope (change_file c) (Some report))))"

definition changes_rules ::
  "(scope_glob \<Rightarrow> path \<Rightarrow> bool) \<Rightarrow> (scope_glob list \<Rightarrow> string option) \<Rightarrow> nat \<Rightarrow> task \<Rightarrow> diagnostic list" where
  "changes_rules matches unbuilt index t = List.map_filter (change_fault matches unbuilt index t) (tk_changes t)"

definition owned_check ::
  "(scope_glob \<Rightarrow> path \<Rightarrow> bool) \<Rightarrow> (scope_glob list \<Rightarrow> string option) \<Rightarrow> tasks_file \<Rightarrow> diagnostic list" where
  "owned_check matches unbuilt f =
     repeated_shapes_and_decisions f @ shape_owners matches unbuilt f @ shape_uses f
     @ concat (map (\<lambda>(index, t). changes_rules matches unbuilt index t) (enumerate 0 (tf_tasks f)))"

section \<open>The whole check\<close>

definition check_tasks ::
  "(scope_glob \<Rightarrow> path \<Rightarrow> bool) \<Rightarrow> (scope_glob list \<Rightarrow> string option) \<Rightarrow> tasks_file \<Rightarrow> diagnostic list" where
  "check_tasks matches unbuilt f =
     (let ts = tf_tasks f; known_ids = map tk_id ts
      in duplicate_ids ts
         @ concat (map (\<lambda>(index, t). task_rules index t known_ids) (enumerate 0 ts))
         @ of_option (dependency_cycle ts)
         @ overlapping_scopes matches ts
         @ owned_check matches unbuilt f)"

end
