(* ===== verification/Plan_Rules.thy ===== *)
theory Plan_Rules
  imports Tasks_Document
begin

text \<open>
  What the rules of a tasks document come to. The lemmas read the two searches of the code as the
  transitive closure of \<open>depends_on\<close>; the properties say which documents no rule refuses, and that two
  tasks of an accepted document that may run at the same time share no file.
\<close>

section \<open>The searches are reachability\<close>

definition task_deps :: "task list \<Rightarrow> (task_id \<times> task_id) set" where
  "task_deps ts = {(i, d). d \<in> set (deps_listed ts i)}"

lemma deps_listed_Nil [simp]: "deps_listed [] i = []"
  by (simp add: deps_listed_def last_of_def)

lemma task_deps_domain: "(i, d) \<in> task_deps ts \<Longrightarrow> i \<in> set (map tk_id ts)"
  by (cases "last_of (map (\<lambda>t. (tk_id t, tk_depends_on t)) ts) i")
    (auto simp: task_deps_def deps_listed_def last_of_def dest!: map_of_SomeD)

declare related_from.simps(2) [simp del]

lemma related_from_step:
  obtains new where "related_from ts v (i # stack) = related_from ts (rev new @ v) (rev new @ stack)"
    "visit_new (deps_listed ts i) v stack = (rev new @ v, rev new @ stack)"
    "set new = set (deps_listed ts i) - set v"
proof -
  obtain new where "visit_new (deps_listed ts i) v stack = (rev new @ v, rev new @ stack)"
      "set new = set (deps_listed ts i) - set v"
    by (rule visit_new_spec)
  then show thesis by (intro that) (simp_all add: related_from.simps)
qed

lemma related_from_sound:
  "set (related_from ts v s) \<subseteq> set v \<union> (task_deps ts)\<^sup>+ `` set s"
proof (induction ts v s rule: related_from.induct)
  case (2 ts v i stack)
  obtain new where run: "related_from ts v (i # stack) = related_from ts (rev new @ v) (rev new @ stack)"
    and new: "visit_new (deps_listed ts i) v stack = (rev new @ v, rev new @ stack)"
      "set new = set (deps_listed ts i) - set v"
    by (rule related_from_step)
  have reach: "(task_deps ts)\<^sup>+ `` set new \<subseteq> (task_deps ts)\<^sup>+ `` {i}"
    using new by (auto simp: task_deps_def intro: trancl_into_trancl2)
  have "set new \<subseteq> (task_deps ts)\<^sup>+ `` {i}"
    using new by (auto simp: task_deps_def)
  moreover have "set (related_from ts v (i # stack)) \<subseteq>
      set (rev new @ v) \<union> (task_deps ts)\<^sup>+ `` set (rev new @ stack)"
    using 2 [OF new(1) [symmetric] refl] run by simp
  moreover have "(task_deps ts)\<^sup>+ `` set (i # stack) = (task_deps ts)\<^sup>+ `` {i} \<union> (task_deps ts)\<^sup>+ `` set stack"
    by auto
  ultimately show ?case using reach by (simp add: Image_Un) blast
qed simp

text \<open>What is visited and not waiting on the stack has its dependencies visited.\<close>

definition searched :: "task list \<Rightarrow> task_id list \<Rightarrow> task_id list \<Rightarrow> bool" where
  "searched ts v s \<longleftrightarrow> (\<forall>x \<in> set v. x \<in> set s \<or> set (deps_listed ts x) \<subseteq> set v)"

lemma related_from_closed:
  "searched ts v s \<Longrightarrow>
     set v \<subseteq> set (related_from ts v s)
   \<and> (\<forall>x \<in> set s \<union> set (related_from ts v s). set (deps_listed ts x) \<subseteq> set (related_from ts v s))"
proof (induction ts v s rule: related_from.induct)
  case (1 ts v)
  then show ?case by (auto simp: searched_def)
next
  case (2 ts v i stack)
  obtain new where run: "related_from ts v (i # stack) = related_from ts (rev new @ v) (rev new @ stack)"
    and new: "visit_new (deps_listed ts i) v stack = (rev new @ v, rev new @ stack)"
      "set new = set (deps_listed ts i) - set v"
    by (rule related_from_step)
  have "searched ts (rev new @ v) (rev new @ stack)"
    using 2(2) new(2) by (fastforce simp: searched_def)
  then have IH: "set (rev new @ v) \<subseteq> set (related_from ts v (i # stack))
      \<and> (\<forall>x \<in> set (rev new @ stack) \<union> set (related_from ts v (i # stack)).
           set (deps_listed ts x) \<subseteq> set (related_from ts v (i # stack)))"
    using 2(1) [OF new(1) [symmetric] refl] run by simp
  moreover have "set (deps_listed ts i) \<subseteq> set (rev new @ v)" using new(2) by auto
  ultimately show ?case by auto
qed

lemma closed_under_reach:
  assumes "(x, y) \<in> (task_deps ts)\<^sup>+" "set (deps_listed ts x) \<subseteq> R"
    and closed: "\<And>z. z \<in> R \<Longrightarrow> set (deps_listed ts z) \<subseteq> R"
  shows "y \<in> R"
  using assms(1,2)
proof (induction rule: trancl_induct)
  case (base y)
  then show ?case by (auto simp: task_deps_def)
next
  case (step y z)
  then show ?case using closed by (auto simp: task_deps_def)
qed

lemma related_from_iff: "d \<in> set (related_from ts [] [i]) \<longleftrightarrow> (i, d) \<in> (task_deps ts)\<^sup>+"
proof
  show "d \<in> set (related_from ts [] [i]) \<Longrightarrow> (i, d) \<in> (task_deps ts)\<^sup>+"
    using related_from_sound [of ts "[]" "[i]"] by auto
  have closed: "\<forall>x \<in> {i} \<union> set (related_from ts [] [i]).
      set (deps_listed ts x) \<subseteq> set (related_from ts [] [i])"
    using related_from_closed [of ts "[]" "[i]"] by (simp add: searched_def)
  show "(i, d) \<in> (task_deps ts)\<^sup>+ \<Longrightarrow> d \<in> set (related_from ts [] [i])"
    by (erule closed_under_reach) (use closed in auto)
qed

lemma transitively_related_iff:
  "(a, b) \<in> set (transitively_related ts) \<longleftrightarrow>
     (a, b) \<in> (task_deps ts)\<^sup>+ \<or> (b, a) \<in> (task_deps ts)\<^sup>+"
proof -
  have "(a, b) \<in> set (transitively_related ts) \<longleftrightarrow>
      (a \<in> set (map tk_id ts) \<and> (a, b) \<in> (task_deps ts)\<^sup>+)
    \<or> (b \<in> set (map tk_id ts) \<and> (b, a) \<in> (task_deps ts)\<^sup>+)"
  proof -
    have pairs: "set (concat (map (\<lambda>d. [(i, d), (d, i)]) ds)) = {(i, d) | d. d \<in> set ds} \<union> {(d, i) | d. d \<in> set ds}"
      for i and ds :: "task_id list" by auto
    show ?thesis
      unfolding transitively_related_def set_concat set_map image_image pairs
      by (auto simp: related_from_iff Bex_def)
  qed
  moreover have "x \<in> set (map tk_id ts)" if "(x, y) \<in> (task_deps ts)\<^sup>+" for x y
    using that by (metis tranclD task_deps_domain)
  ultimately show ?thesis by blast
qed

text \<open>What the waits of one task come to: its pairs, the pairs of no other task.\<close>

definition waited_by :: "task_id \<Rightarrow> (task_id \<times> task_id) list \<Rightarrow> task_id set" where
  "waited_by i pairs = {e. (i, e) \<in> set pairs}"

lemma waits_from_spec:
  assumes "\<And>x. x \<in> waited_by i pairs \<Longrightarrow> set (deps_listed ts x) \<subseteq> waited_by i pairs \<union> set s"
  shows "(let R = waits_from ts i pairs s
          in waited_by i pairs \<union> set s \<subseteq> waited_by i R
           \<and> waited_by i R \<subseteq> waited_by i pairs \<union> (task_deps ts)\<^sup>* `` set s
           \<and> (\<forall>x \<in> waited_by i R. set (deps_listed ts x) \<subseteq> waited_by i R)
           \<and> (\<forall>j. j \<noteq> i \<longrightarrow> waited_by j R = waited_by j pairs))"
  using assms
proof (induction ts i pairs s rule: waits_from.induct)
  case (1 ts i pairs)
  then show ?case by (simp add: Let_def)
next
  case (2 ts i pairs e stack)
  show ?case
  proof (cases "(i, e) \<in> set pairs")
    case True
    then have e: "e \<in> waited_by i pairs" by (simp add: waited_by_def)
    have "set (deps_listed ts x) \<subseteq> waited_by i pairs \<union> set stack" if "x \<in> waited_by i pairs" for x
      using 2(3) [OF that] e by auto
    from 2(1) [OF True this] True e show ?thesis by (auto simp: Let_def)
  next
    case False
    let ?s = "rev (deps_listed ts e) @ stack"
    have w: "waited_by i ((i, e) # pairs) = insert e (waited_by i pairs)"
      "\<And>j. j \<noteq> i \<Longrightarrow> waited_by j ((i, e) # pairs) = waited_by j pairs"
      by (auto simp: waited_by_def)
    have "set (deps_listed ts x) \<subseteq> waited_by i ((i, e) # pairs) \<union> set ?s"
      if "x \<in> waited_by i ((i, e) # pairs)" for x
      using 2(3) [of x] that by (auto simp: w)
    note IH = 2(2) [OF False this]
    have "(task_deps ts)\<^sup>* `` set (deps_listed ts e) \<subseteq> (task_deps ts)\<^sup>* `` {e}"
      by (auto simp: task_deps_def intro: converse_rtrancl_into_rtrancl)
    then have up: "(task_deps ts)\<^sup>* `` set ?s \<subseteq> (task_deps ts)\<^sup>* `` set (e # stack)" by auto
    let ?R = "waits_from ts i ((i, e) # pairs) ?s"
    note IH' = IH [unfolded Let_def w(1)]
    have low: "insert e (waited_by i pairs) \<union> set ?s \<subseteq> waited_by i ?R"
      by (rule IH' [THEN conjunct1])
    have high: "waited_by i ?R \<subseteq> insert e (waited_by i pairs) \<union> (task_deps ts)\<^sup>* `` set ?s"
      by (rule IH' [THEN conjunct2, THEN conjunct1])
    have closed: "\<forall>x \<in> waited_by i ?R. set (deps_listed ts x) \<subseteq> waited_by i ?R"
      by (rule IH' [THEN conjunct2, THEN conjunct2, THEN conjunct1])
    have others: "\<forall>j. j \<noteq> i \<longrightarrow> waited_by j ?R = waited_by j ((i, e) # pairs)"
      by (rule IH' [THEN conjunct2, THEN conjunct2, THEN conjunct2])
    have run: "waits_from ts i pairs (e # stack) = ?R" using False by simp
    have "waited_by i pairs \<union> set (e # stack) \<subseteq> waited_by i ?R" using low by auto
    moreover have "waited_by i ?R \<subseteq> waited_by i pairs \<union> (task_deps ts)\<^sup>* `` set (e # stack)"
      using high up by auto
    moreover have "\<forall>j. j \<noteq> i \<longrightarrow> waited_by j ?R = waited_by j pairs" using others w(2) by simp
    ultimately show ?thesis using closed unfolding Let_def run by (intro conjI)
  qed
qed

lemma last_of_distinct:
  assumes "distinct (map tk_id ts)" "t \<in> set ts"
  shows "deps_listed ts (tk_id t) = tk_depends_on t"
proof -
  have "distinct (map fst (rev (map (\<lambda>t. (tk_id t, tk_depends_on t)) ts)))"
    using assms(1) by (simp add: rev_map [symmetric] comp_def)
  moreover have "(tk_id t, tk_depends_on t) \<in> set (rev (map (\<lambda>t. (tk_id t, tk_depends_on t)) ts))"
    using assms(2) by auto
  ultimately show ?thesis by (simp add: deps_listed_def last_of_def map_of_is_SomeI)
qed

lemma waits_for_prefix:
  assumes "distinct (map tk_id ts)" "set us \<subseteq> set ts" "distinct (map tk_id us)"
  shows "waited_by i (foldl (\<lambda>pairs t. waits_from ts (tk_id t) pairs (rev (tk_depends_on t))) [] us) =
     (if i \<in> set (map tk_id us) then (task_deps ts)\<^sup>+ `` {i} else {})"
  using assms(2,3)
proof (induction us arbitrary: i rule: rev_induct)
  case Nil
  then show ?case by (simp add: waited_by_def)
next
  case (snoc t us)
  let ?old = "foldl (\<lambda>pairs t. waits_from ts (tk_id t) pairs (rev (tk_depends_on t))) [] us"
  let ?new = "waits_from ts (tk_id t) ?old (rev (tk_depends_on t))"
  have t: "t \<in> set ts" and fresh: "tk_id t \<notin> set (map tk_id us)" using snoc.prems by auto
  have IH: "waited_by i ?old = (if i \<in> set (map tk_id us) then (task_deps ts)\<^sup>+ `` {i} else {})" for i
    using snoc by simp
  have deps: "deps_listed ts (tk_id t) = tk_depends_on t" by (rule last_of_distinct [OF assms(1) t])
  have none: "waited_by (tk_id t) ?old = {}" using IH [of "tk_id t"] fresh by (simp only: if_False)
  have spec: "set (tk_depends_on t) \<subseteq> waited_by (tk_id t) ?new"
    "waited_by (tk_id t) ?new \<subseteq> (task_deps ts)\<^sup>* `` set (tk_depends_on t)"
    "\<forall>x \<in> waited_by (tk_id t) ?new. set (deps_listed ts x) \<subseteq> waited_by (tk_id t) ?new"
    "\<forall>j. j \<noteq> tk_id t \<longrightarrow> waited_by j ?new = waited_by j ?old"
    using waits_from_spec [of "tk_id t" ?old ts "rev (tk_depends_on t)"] none by (simp_all add: Let_def)
  have "waited_by (tk_id t) ?new = (task_deps ts)\<^sup>+ `` {tk_id t}"
  proof
    show "waited_by (tk_id t) ?new \<subseteq> (task_deps ts)\<^sup>+ `` {tk_id t}"
      using spec(2) by (force simp: task_deps_def deps intro: rtrancl_into_trancl2)
    show "(task_deps ts)\<^sup>+ `` {tk_id t} \<subseteq> waited_by (tk_id t) ?new"
      using spec(1,3) closed_under_reach [of "tk_id t" _ ts "waited_by (tk_id t) ?new"]
      by (auto simp: deps)
  qed
  with spec(4) IH [of i] show ?case by (cases "i = tk_id t") simp_all
qed

lemma waits_for_iff:
  assumes "distinct (map tk_id ts)"
  shows "(i, e) \<in> set (waits_for ts) \<longleftrightarrow> (i, e) \<in> (task_deps ts)\<^sup>+"
proof -
  have "e \<in> waited_by i (waits_for ts) \<longleftrightarrow> i \<in> set (map tk_id ts) \<and> (i, e) \<in> (task_deps ts)\<^sup>+"
    unfolding waits_for_def using waits_for_prefix [OF assms subset_refl assms, of i] by auto
  moreover have "i \<in> set (map tk_id ts)" if "(i, e) \<in> (task_deps ts)\<^sup>+"
    using that by (metis tranclD task_deps_domain)
  ultimately show ?thesis by (auto simp: waited_by_def)
qed

section \<open>The cycle search on a plan\<close>

lemma om_get_task_adjacency:
  "om_get (task_adjacency ts) i = last_of (map (\<lambda>t. (tk_id t, tk_depends_on t)) ts) i"
  unfolding task_adjacency_def last_of_def by (induction ts rule: rev_induct) auto

lemma dependency_cycle_iff:
  assumes known: "\<And>t d. t \<in> set ts \<Longrightarrow> d \<in> set (tk_depends_on t) \<Longrightarrow> d \<in> set (map tk_id ts)"
  shows "dependency_cycle ts = None \<longleftrightarrow> acyclic (task_deps ts)"
proof -
  have listed: "om_get (task_adjacency ts) i \<noteq> None \<longleftrightarrow> i \<in> set (map tk_id ts)" for i
    by (force simp: om_get_task_adjacency last_of_def map_of_eq_None_iff)
  have edge: "(i, d) \<in> task_deps ts \<longleftrightarrow> (\<exists>ds. om_get (task_adjacency ts) i = Some ds \<and> d \<in> set ds)" for i d
    by (cases "om_get (task_adjacency ts) i")
      (simp_all add: task_deps_def deps_listed_def om_get_task_adjacency [symmetric])
  have "d \<in> set (map tk_id ts)" if "(i, d) \<in> task_deps ts" for i d
    using that deps_listed_universe [of ts i] known by (fastforce simp: task_deps_def dep_universe_def)
  then have "edges (task_adjacency ts) = task_deps ts"
    using listed by (auto simp: edges_def edge)
  then show ?thesis
    by (cases rule: find_cycle_cases [of "task_adjacency ts"])
      (auto simp: dependency_cycle_def dest: real_cycle_not_acyclic)
qed

section \<open>What no rule refuses\<close>

text \<open>What an accepted plan promises the order.\<close>

definition orderly :: "task list \<Rightarrow> bool" where
  "orderly ts \<longleftrightarrow> distinct (map tk_id ts) \<and> acyclic (task_deps ts)
     \<and> (\<forall>t \<in> set ts. set (tk_depends_on t) \<subseteq> set (map tk_id ts))"

definition plan_ok ::
  "(scope_glob \<Rightarrow> path \<Rightarrow> bool) \<Rightarrow> (scope_glob list \<Rightarrow> string option) \<Rightarrow> tasks_file \<Rightarrow> bool" where
  "plan_ok matches unbuilt f \<longleftrightarrow>
     (let ts = tf_tasks f; waits = (task_deps ts)\<^sup>+ in
        orderly ts
      \<and> (\<forall>t \<in> set ts. trim (tk_title t) \<noteq> [] \<and> tk_scope t \<noteq> []
           \<and> (\<exists>c \<in> set (tk_criteria t). pc_type c \<noteq> Some Guard))
      \<and> (\<forall>j < length ts. \<forall>i < j. \<forall>ga \<in> set (tk_scope (ts ! i)). \<forall>gb \<in> set (tk_scope (ts ! j)).
           might_overlap matches ga gb \<longrightarrow>
             (tk_id (ts ! i), tk_id (ts ! j)) \<in> waits \<or> (tk_id (ts ! j), tk_id (ts ! i)) \<in> waits)
      \<and> distinct (map shp_name (tf_shapes f)) \<and> distinct (map pd_id (tf_decisions f))
      \<and> (\<forall>s \<in> set (tf_shapes f).
           \<exists>t \<in> set ts. tk_id t = shp_owner s \<and> covers matches unbuilt t (shp_file s) = Inr True)
      \<and> (\<forall>t \<in> set ts. \<forall>u \<in> set (tk_uses t). \<exists>s \<in> set (tf_shapes f).
           shp_name s = u \<and> (shp_owner s = tk_id t \<or> (tk_id t, shp_owner s) \<in> waits))
      \<and> (\<forall>t \<in> set ts. \<forall>c \<in> set (tk_changes t). covers matches unbuilt t (change_file c) = Inr True))"

lemma repeated_Nil: "repeated key seen xs = [] \<longleftrightarrow> distinct (map key xs) \<and> set (map key xs) \<inter> set seen = {}"
  by (induction key seen xs rule: repeated.induct) auto

lemma duplicate_ids_Nil: "duplicate_ids ts = [] \<longleftrightarrow> distinct (map tk_id ts)"
proof -
  have "map (\<lambda>(_, t). tk_id t) (enumerate 0 ts) = map tk_id ts"
    by (simp add: enumerate_eq_zip case_prod_unfold flip: map_map [of tk_id snd, unfolded comp_def])
  then show ?thesis by (simp add: duplicate_ids_def repeated_Nil)
qed

lemma over_enumerate_Nil:
  "concat (map (\<lambda>(i, x). g i x) (enumerate 0 xs)) = [] \<longleftrightarrow> (\<forall>i < length xs. g i (xs ! i) = [])"
proof -
  have "set (enumerate 0 xs) = {(i, xs ! i) | i. i < length xs}" by (auto simp: in_set_enumerate_eq)
  then show ?thesis by auto
qed

lemma over_enumerate_all:
  assumes "\<And>i x. g i x = [] \<longleftrightarrow> P x"
  shows "concat (map (\<lambda>(i, x). g i x) (enumerate 0 xs)) = [] \<longleftrightarrow> (\<forall>x \<in> set xs. P x)"
  unfolding over_enumerate_Nil assms all_set_conv_all_nth ..

lemma of_option_Nil: "of_option x = [] \<longleftrightarrow> x = None"
  by (simp add: of_option_def split: option.split)

lemma map_filter_Nil: "List.map_filter g xs = [] \<longleftrightarrow> (\<forall>x \<in> set xs. g x = None)"
  by (induction xs) (auto simp: List.map_filter_simps split: option.split)

lemma task_rules_Nil:
  "task_rules i t known = [] \<longleftrightarrow>
     set (tk_depends_on t) \<subseteq> set known \<and> trim (tk_title t) \<noteq> [] \<and> tk_scope t \<noteq> []
   \<and> (\<exists>c \<in> set (tk_criteria t). pc_type c \<noteq> Some Guard)"
  by (auto simp: task_rules_def of_option_Nil criteria_rules_def filter_empty_conv list_all_iff)

lemma overlapping_scopes_Nil:
  "overlapping_scopes matches ts = [] \<longleftrightarrow>
     (\<forall>j < length ts. \<forall>i < j. \<forall>ga \<in> set (tk_scope (ts ! i)). \<forall>gb \<in> set (tk_scope (ts ! j)).
        might_overlap matches ga gb \<longrightarrow>
          (tk_id (ts ! i), tk_id (ts ! j)) \<in> (task_deps ts)\<^sup>+
        \<or> (tk_id (ts ! j), tk_id (ts ! i)) \<in> (task_deps ts)\<^sup>+)"
proof -
  have one: "overlaps_of matches i a b = [] \<longleftrightarrow>
      (\<forall>ga \<in> set (tk_scope a). \<forall>gb \<in> set (tk_scope b). \<not> might_overlap matches ga gb)" for i a b
    by (auto simp: overlaps_of_def filter_empty_conv)
  have swap: "(\<forall>i < n. \<forall>j \<in> {Suc i..<n}. P i j) \<longleftrightarrow> (\<forall>j < n. \<forall>i < j. P i j)" for P and n :: nat
    by (auto simp: Suc_le_eq intro: less_trans)
  have "overlapping_scopes matches ts = [] \<longleftrightarrow>
      (\<forall>i < length ts. \<forall>j \<in> {Suc i..<length ts}.
         (if (tk_id (ts ! i), tk_id (ts ! j)) \<in> set (transitively_related ts) then []
          else overlaps_of matches i (ts ! i) (ts ! j)) = [])"
    unfolding overlapping_scopes_def Let_def concat_eq_Nil_conv set_map ball_simps set_upt
    by (simp add: atLeastLessThan_upt [symmetric] Ball_def)
  also have "\<dots> \<longleftrightarrow> (\<forall>j < length ts. \<forall>i < j.
         (if (tk_id (ts ! i), tk_id (ts ! j)) \<in> set (transitively_related ts) then []
          else overlaps_of matches i (ts ! i) (ts ! j)) = [])"
    by (rule swap)
  finally show ?thesis by (simp add: one transitively_related_iff) meson
qed

lemma shape_owners_Nil:
  assumes "distinct (map tk_id (tf_tasks f))"
  shows "shape_owners matches unbuilt f = [] \<longleftrightarrow>
     (\<forall>s \<in> set (tf_shapes f). \<exists>t \<in> set (tf_tasks f).
        tk_id t = shp_owner s \<and> covers matches unbuilt t (shp_file s) = Inr True)"
proof -
  have "owner_fault matches unbuilt f s = None \<longleftrightarrow>
      (\<exists>t \<in> set (tf_tasks f). tk_id t = shp_owner s \<and> covers matches unbuilt t (shp_file s) = Inr True)" for s
  proof (cases "List.find (\<lambda>t. tk_id t = shp_owner s) (tf_tasks f)")
    case None
    then have "owner_fault matches unbuilt f s \<noteq> None" by (simp add: owner_fault_def)
    with None show ?thesis by (auto simp: find_None_iff)
  next
    case (Some t)
    then have t: "t \<in> set (tf_tasks f)" "tk_id t = shp_owner s" by (auto simp: find_Some_iff)
    then have only: "u = t" if "u \<in> set (tf_tasks f)" "tk_id u = shp_owner s" for u
      using that assms by (auto simp: distinct_map inj_on_def)
    have "owner_fault matches unbuilt f s = None \<longleftrightarrow> covers matches unbuilt t (shp_file s) = Inr True"
      using Some by (auto simp: owner_fault_def split: sum.split bool.split)
    then show ?thesis using t only by blast
  qed
  then show ?thesis by (simp add: shape_owners_def map_filter_Nil)
qed

lemma shape_uses_Nil:
  assumes "distinct (map tk_id (tf_tasks f))" "distinct (map shp_name (tf_shapes f))"
  shows "shape_uses f = [] \<longleftrightarrow>
     (\<forall>t \<in> set (tf_tasks f). \<forall>u \<in> set (tk_uses t). \<exists>s \<in> set (tf_shapes f).
        shp_name s = u \<and> (shp_owner s = tk_id t \<or> (tk_id t, shp_owner s) \<in> (task_deps (tf_tasks f))\<^sup>+))"
proof -
  let ?pairs = "map (\<lambda>s. (shp_name s, shp_owner s)) (tf_shapes f)"
  have "distinct (map fst (rev ?pairs))"
    using assms(2) by (simp add: rev_map [symmetric] comp_def)
  then have owner: "last_of ?pairs u = Some owner \<longleftrightarrow>
      (\<exists>s \<in> set (tf_shapes f). shp_name s = u \<and> shp_owner s = owner)" for u owner
    by (auto simp: last_of_def)
  have fault: "use_fault (last_of ?pairs) (waits_for (tf_tasks f)) i t u = None \<longleftrightarrow>
      (\<exists>s \<in> set (tf_shapes f). shp_name s = u
         \<and> (shp_owner s = tk_id t \<or> (tk_id t, shp_owner s) \<in> (task_deps (tf_tasks f))\<^sup>+))" for i t u
  proof (cases "last_of ?pairs u")
    case None
    then have "\<not> (\<exists>s \<in> set (tf_shapes f). shp_name s = u)" using owner [of u] by auto
    with None show ?thesis by (auto simp: use_fault_def)
  next
    case (Some w)
    with owner [of u] have "\<exists>s \<in> set (tf_shapes f). shp_name s = u \<and> shp_owner s = w"
      by auto
    moreover have "\<forall>s \<in> set (tf_shapes f). shp_name s = u \<longrightarrow> shp_owner s = w"
      using owner [of u] Some by (metis option.inject)
    ultimately show ?thesis using Some by (auto simp: use_fault_def waits_for_iff [OF assms(1)])
  qed
  show ?thesis
    unfolding shape_uses_def Let_def
    by (rule over_enumerate_all) (simp add: map_filter_Nil fault)
qed

lemma changes_rules_Nil:
  "changes_rules matches unbuilt i t = [] \<longleftrightarrow>
     (\<forall>c \<in> set (tk_changes t). covers matches unbuilt t (change_file c) = Inr True)"
proof -
  have "change_fault matches unbuilt i t c = None \<longleftrightarrow> covers matches unbuilt t (change_file c) = Inr True" for c
    by (cases "covers matches unbuilt t (change_file c)") (auto simp: change_fault_def split: bool.split)
  then show ?thesis by (simp add: changes_rules_def map_filter_Nil)
qed

lemmas over_tasks = over_enumerate_all [OF task_rules_Nil] over_enumerate_all [OF changes_rules_Nil]

lemmas check_tasks_Nil = check_tasks_def Let_def append_is_Nil_conv over_tasks of_option_Nil owned_check_def
  repeated_shapes_and_decisions_def map_is_Nil_conv duplicate_ids_Nil repeated_Nil overlapping_scopes_Nil

lemma plan_rules_iff: "check_tasks matches unbuilt f = [] \<longleftrightarrow> plan_ok matches unbuilt f"
proof (cases "distinct (map tk_id (tf_tasks f)) \<and> distinct (map shp_name (tf_shapes f))
    \<and> (\<forall>t \<in> set (tf_tasks f). set (tk_depends_on t) \<subseteq> set (map tk_id (tf_tasks f)))")
  case True
  then have known: "d \<in> set (map tk_id (tf_tasks f))"
    if "t \<in> set (tf_tasks f)" "d \<in> set (tk_depends_on t)" for t d
    using that by blast
  from True have parts: "distinct (map tk_id (tf_tasks f))" "distinct (map shp_name (tf_shapes f))"
    "\<forall>t \<in> set (tf_tasks f). set (tk_depends_on t) \<subseteq> set (map tk_id (tf_tasks f))"
    by blast+
  have cycle: "dependency_cycle (tf_tasks f) = None \<longleftrightarrow> acyclic (task_deps (tf_tasks f))"
    by (rule dependency_cycle_iff) (rule known)
  show ?thesis
    unfolding check_tasks_Nil plan_ok_def orderly_def shape_owners_Nil [OF parts(1)]
      shape_uses_Nil [OF parts(1,2)] cycle ball_conj_distrib
    by (simp only: simp_thms list.set inf_bot_right conj_ac)
next
  case False
  then consider (ids) "distinct (map tk_id (tf_tasks f)) \<longleftrightarrow> False"
    | (shapes) "distinct (map shp_name (tf_shapes f)) \<longleftrightarrow> False"
    | (deps) "(\<forall>t \<in> set (tf_tasks f). set (tk_depends_on t) \<subseteq> set (map tk_id (tf_tasks f))) \<longleftrightarrow> False"
    by blast
  then show ?thesis
  proof cases
    case ids
    show ?thesis
      unfolding check_tasks_Nil plan_ok_def orderly_def by (simp only: ids simp_thms)
  next
    case shapes
    show ?thesis
      unfolding check_tasks_Nil plan_ok_def orderly_def by (simp only: shapes simp_thms)
  next
    case deps
    show ?thesis
      unfolding check_tasks_Nil plan_ok_def orderly_def ball_conj_distrib by (simp only: deps simp_thms)
  qed
qed

text \<open>C28. A tasks document is refused by no rule exactly when its tasks are declared once, wait in no
  cycle and only for tasks it declares, can each be judged, keep apart where they may run at the same
  time, and every shape, use and change lies with the task that may build it.\<close>

theorem no_rule_broken_iff: "check_tasks matches unbuilt f = [] \<longleftrightarrow> plan_ok matches unbuilt f"
  by (rule plan_rules_iff)

end
