(* ===== verification/Plan_Order.thy ===== *)
theory Plan_Order
  imports Plan_Rules "HOL-Library.Multiset"
begin

text \<open>
  The order a plan's tasks run in (\<open>core/src/tasks/order.rs\<close>): the step of each task, computed with a memo
  of the steps known, and a count that stops a cycle. The count left starts at one more than the number
  of tasks. The property says that an accepted plan's steps hold every task once, after all it
  waits on, and no later than that.
\<close>

definition task_of :: "task list \<Rightarrow> task_id \<Rightarrow> task option" where
  "task_of ts i = List.find (\<lambda>t. tk_id t = i) ts"

text \<open>The first argument is how many more calls may nest: \<open>seen > tasks.len()\<close> is none left. The second
  function is the iterator over \<open>depends_on\<close>, whose \<open>max\<close> it answers.\<close>

fun step_of :: "nat \<Rightarrow> task list \<Rightarrow> (task_id, nat) omap \<Rightarrow> task \<Rightarrow> nat \<times> (task_id, nat) omap"
  and step_of_deps :: "nat \<Rightarrow> task list \<Rightarrow> (task_id, nat) omap \<Rightarrow> task_id list \<Rightarrow>
      nat option \<times> (task_id, nat) omap" where
  "step_of left ts depth t =
     (case om_get depth (tk_id t) of
        Some known \<Rightarrow> (known, depth)
      | None \<Rightarrow>
          (case left of
             0 \<Rightarrow> (0, depth)
           | Suc left' \<Rightarrow>
               (let (latest, depth') = step_of_deps left' ts depth (tk_depends_on t);
                    at = unwrap_or latest 0
                in (at, om_put (tk_id t) at depth'))))"
| "step_of_deps left ts depth [] = (None, depth)"
| "step_of_deps left ts depth (d # ds) =
     (case task_of ts d of
        None \<Rightarrow> step_of_deps left ts depth ds
      | Some earlier \<Rightarrow>
          (let (n, depth1) = step_of left ts depth earlier;
               (rest, depth2) = step_of_deps left ts depth1 ds
           in (Some (case rest of None \<Rightarrow> Suc n | Some m \<Rightarrow> max (Suc n) m), depth2)))"

definition add_to_step :: "nat \<Rightarrow> task \<Rightarrow> task list list \<Rightarrow> task list list" where
  "add_to_step at t steps =
     (let grown = (if length steps \<le> at then steps @ replicate (at + 1 - length steps) [] else steps)
      in grown[at := grown ! at @ [t]])"

definition plan_steps :: "tasks_file \<Rightarrow> task list list" where
  "plan_steps f =
     fst (foldl (\<lambda>(steps, depth) t.
            let (at, depth') = step_of (length (tf_tasks f) + 1) (tf_tasks f) depth t
            in (add_to_step at t steps, depth'))
          ([], []) (tf_tasks f))"

definition push_once :: "'a list \<Rightarrow> 'a \<Rightarrow> 'a list" where
  "push_once xs x = (if x \<in> set xs then xs else xs @ [x])"

definition touched :: "tasks_file \<Rightarrow> scope_glob list" where
  "touched f = foldl push_once [] (concat (map tk_scope (tf_tasks f)))"

definition plan_guards :: "tasks_file \<Rightarrow> string list" where
  "plan_guards f =
     foldl push_once [] (map pc_cmd (filter criterion_is_guard (concat (map tk_criteria (tf_tasks f)))))"

section \<open>The memo holds the longest wait\<close>

text \<open>Every step the memo holds is one after the latest step of the tasks waited on, all of them held.\<close>

definition step_after :: "(task_id, nat) omap \<Rightarrow> task_id list \<Rightarrow> nat \<Rightarrow> bool" where
  "step_after depth ds n \<longleftrightarrow>
     (\<forall>d \<in> set ds. \<exists>m. om_get depth d = Some m \<and> m < n)
   \<and> (ds = [] \<longrightarrow> n = 0)
   \<and> (ds \<noteq> [] \<longrightarrow> (\<exists>d \<in> set ds. \<exists>m. om_get depth d = Some m \<and> n = Suc m))"

definition memo_holds :: "task list \<Rightarrow> (task_id, nat) omap \<Rightarrow> bool" where
  "memo_holds ts depth \<longleftrightarrow>
     (\<forall>t \<in> set ts. \<forall>n. om_get depth (tk_id t) = Some n \<longrightarrow> step_after depth (tk_depends_on t) n)"

definition memo_grows :: "(task_id, nat) omap \<Rightarrow> (task_id, nat) omap \<Rightarrow> bool" where
  "memo_grows depth depth' \<longleftrightarrow> (\<forall>i n. om_get depth i = Some n \<longrightarrow> om_get depth' i = Some n)"

lemma memo_grows_refl [simp]: "memo_grows d d"
  by (simp add: memo_grows_def)

lemma memo_grows_trans: "memo_grows a b \<Longrightarrow> memo_grows b c \<Longrightarrow> memo_grows a c"
  by (simp add: memo_grows_def)

lemma step_after_grows: "memo_grows a b \<Longrightarrow> step_after a ds n \<Longrightarrow> step_after b ds n"
  by (fastforce simp: step_after_def memo_grows_def)

lemma task_of_known:
  assumes "distinct (map tk_id ts)" "i \<in> set (map tk_id ts)"
  obtains t where "task_of ts i = Some t" "t \<in> set ts" "tk_id t = i"
proof (cases "task_of ts i")
  case None
  with assms show thesis by (auto simp: task_of_def find_None_iff)
next
  case (Some t)
  then have "t \<in> set ts" "tk_id t = i" by (auto simp: task_of_def find_Some_iff)
  with Some show thesis by (rule that)
qed

text \<open>\<open>trail\<close> names the tasks whose step is being computed: each waits for the next, so none comes back.\<close>

definition on_path :: "task list \<Rightarrow> nat \<Rightarrow> task_id list \<Rightarrow> task_id \<Rightarrow> bool" where
  "on_path ts left trail i \<longleftrightarrow>
     distinct trail \<and> set trail \<subseteq> set (map tk_id ts) \<and> left + length trail = Suc (length ts)
   \<and> (\<forall>p \<in> set trail. (p, i) \<in> (task_deps ts)\<^sup>+)"

lemma on_path_left:
  assumes "on_path ts left trail i" "orderly ts" "i \<in> set (map tk_id ts)"
  shows "left \<noteq> 0"
proof
  assume "left = 0"
  have "i \<notin> set trail" using assms by (auto simp: on_path_def orderly_def acyclic_def)
  then have "card (insert i (set trail)) = Suc (length trail)"
    using assms(1) by (simp add: on_path_def distinct_card)
  moreover have "card (insert i (set trail)) \<le> card (set (map tk_id ts))"
    using assms by (intro card_mono) (auto simp: on_path_def)
  moreover have "card (set (map tk_id ts)) \<le> length ts"
    using card_length [of "map tk_id ts"] by simp
  ultimately show False using assms(1) \<open>left = 0\<close> by (simp add: on_path_def)
qed

lemma on_path_next:
  assumes "on_path ts (Suc left) trail (tk_id t)" "orderly ts" "t \<in> set ts" "d \<in> set (tk_depends_on t)"
  shows "on_path ts left (tk_id t # trail) d"
proof -
  have edge: "(tk_id t, d) \<in> task_deps ts"
    using assms(2-4) last_of_distinct [of ts t] by (simp add: task_deps_def orderly_def)
  moreover have "tk_id t \<notin> set trail" using assms by (auto simp: on_path_def orderly_def acyclic_def)
  ultimately show ?thesis
    using assms(1,3) by (auto simp: on_path_def intro: trancl_into_trancl)
qed

lemma step_after_unique: "step_after D ds n \<Longrightarrow> step_after D ds m \<Longrightarrow> n = m"
proof (rule ccontr)
  assume n: "step_after D ds n" and m: "step_after D ds m" and "n \<noteq> m"
  then have "ds \<noteq> []" by (auto simp: step_after_def)
  with n m obtain d d' k k' where
    "d \<in> set ds" "om_get D d = Some k" "n = Suc k" "d' \<in> set ds" "om_get D d' = Some k'" "m = Suc k'"
    by (auto simp: step_after_def)
  with n m have "k < m" "k' < n" by (auto simp: step_after_def)
  with \<open>n = Suc k\<close> \<open>m = Suc k'\<close> \<open>n \<noteq> m\<close> show False by simp
qed

lemma step_after_Cons:
  assumes "om_get D d = Some n" "step_after D ds (unwrap_or latest 0)" "latest = None \<longleftrightarrow> ds = []"
  shows "step_after D (d # ds) (case latest of None \<Rightarrow> Suc n | Some m \<Rightarrow> max (Suc n) m)"
proof (cases latest)
  case None
  with assms show ?thesis by (simp add: step_after_def)
next
  case (Some m)
  with assms show ?thesis
    by (cases "Suc n \<le> m") (fastforce simp: step_after_def max_def)+
qed

lemma step_of_holds:
  "memo_holds ts depth \<Longrightarrow> orderly ts \<Longrightarrow> t \<in> set ts \<Longrightarrow> on_path ts left trail (tk_id t) \<Longrightarrow>
     (let (n, depth') = step_of left ts depth t
      in memo_holds ts depth' \<and> memo_grows depth depth' \<and> om_get depth' (tk_id t) = Some n)"
  "memo_holds ts depth \<Longrightarrow> orderly ts \<Longrightarrow> set ds \<subseteq> set (map tk_id ts) \<Longrightarrow>
     (\<And>d. d \<in> set ds \<Longrightarrow> on_path ts left trail d) \<Longrightarrow>
     (let (latest, depth') = step_of_deps left ts depth ds
      in memo_holds ts depth' \<and> memo_grows depth depth' \<and> (latest = None \<longleftrightarrow> ds = [])
         \<and> step_after depth' ds (unwrap_or latest 0))"
proof (induction left ts depth t and left ts depth ds arbitrary: trail and trail
    rule: step_of_step_of_deps.induct)
  case (1 left ts depth t)
  show ?case
  proof (cases "om_get depth (tk_id t)")
    case (Some known)
    with 1(2) show ?thesis by simp
  next
    case None
    have "tk_id t \<in> set (map tk_id ts)" using 1(4) by simp
    then obtain left' where left: "left = Suc left'"
      using on_path_left [OF 1(5,3)] by (cases left) auto
    obtain latest depth' where deps: "step_of_deps left' ts depth (tk_depends_on t) = (latest, depth')"
      by fastforce
    have known: "set (tk_depends_on t) \<subseteq> set (map tk_id ts)" using 1(3,4) by (simp add: orderly_def)
    have "on_path ts left' (tk_id t # trail) d" if "d \<in> set (tk_depends_on t)" for d
      using on_path_next [of ts left' trail t d] 1(3-5) that left by simp
    from 1(1) [OF None left 1(2,3) known this] deps
    have IH: "memo_holds ts depth'" "memo_grows depth depth'"
      "step_after depth' (tk_depends_on t) (unwrap_or latest 0)"
      by simp_all
    let ?new = "om_put (tk_id t) (unwrap_or latest 0) depth'"
    have "om_get depth' (tk_id t) = None \<or> om_get depth' (tk_id t) = Some (unwrap_or latest 0)"
      using IH(1,3) 1(4) step_after_unique by (cases "om_get depth' (tk_id t)") (auto simp: memo_holds_def)
    then have grows: "memo_grows depth' ?new" by (auto simp: memo_grows_def)
    have "step_after ?new (tk_depends_on t') n"
      if t': "t' \<in> set ts" "om_get ?new (tk_id t') = Some n" for t' n
    proof (cases "tk_id t' = tk_id t")
      case True
      then have "t' = t" using 1(3,4) t'(1) by (auto simp: orderly_def distinct_map inj_on_def)
      with t' IH(3) step_after_grows [OF grows] show ?thesis by simp
    next
      case False
      with t' IH(1) have "step_after depth' (tk_depends_on t') n" by (simp add: memo_holds_def)
      then show ?thesis by (rule step_after_grows [OF grows])
    qed
    then have "memo_holds ts ?new" by (simp add: memo_holds_def)
    with grows IH(2) None left deps show ?thesis
      by (auto simp: Let_def intro: memo_grows_trans)
  qed
next
  case (2 left ts depth)
  then show ?case by (simp add: step_after_def)
next
  case (3 left ts depth d ds)
  have "d \<in> set (map tk_id ts)" using "3.prems"(3) by simp
  moreover have "distinct (map tk_id ts)" using "3.prems"(2) by (simp add: orderly_def)
  ultimately obtain e where e: "task_of ts d = Some e" "e \<in> set ts" "tk_id e = d"
    using task_of_known by blast
  obtain n depth1 where one: "step_of left ts depth e = (n, depth1)" by fastforce
  obtain latest depth2 where rest: "step_of_deps left ts depth1 ds = (latest, depth2)" by fastforce
  have "on_path ts left trail (tk_id e)" using "3.prems"(4) [of d] e by simp
  from "3.IH"(2) [OF e(1) "3.prems"(1,2) e(2) this] one
  have h1: "memo_holds ts depth1" "memo_grows depth depth1" "om_get depth1 d = Some n"
    using e(3) by simp_all
  have "set ds \<subseteq> set (map tk_id ts)" "\<And>d. d \<in> set ds \<Longrightarrow> on_path ts left trail d"
    using "3.prems"(3,4) by simp_all
  from "3.IH"(3) [OF e(1) refl one [symmetric] h1(1) "3.prems"(2) this] rest
  have h2: "memo_holds ts depth2" "memo_grows depth1 depth2" "latest = None \<longleftrightarrow> ds = []"
    "step_after depth2 ds (unwrap_or latest 0)"
    by simp_all
  have "om_get depth2 d = Some n" using h1(3) h2(2) by (simp add: memo_grows_def)
  from step_after_Cons [OF this h2(4,3)] h1(2) h2(1,2) e(1) one rest show ?case
    by (auto simp: Let_def intro: memo_grows_trans)
qed

declare step_of.simps [simp del]

section \<open>The steps\<close>

lemma add_to_step:
  "length (add_to_step at t steps) = max (length steps) (Suc at)"
  "k < max (length steps) (Suc at) \<Longrightarrow>
     add_to_step at t steps ! k = (if k < length steps then steps ! k else []) @ (if k = at then [t] else [])"
  by (auto simp: add_to_step_def Let_def nth_append nth_list_update)

text \<open>What the loop has placed: each task under the step the memo holds for it, in document order.\<close>

definition placed :: "(task_id, nat) omap \<Rightarrow> task list \<Rightarrow> task list list \<Rightarrow> bool" where
  "placed depth ts steps \<longleftrightarrow>
     (\<forall>t \<in> set ts. \<exists>k < length steps. om_get depth (tk_id t) = Some k)
   \<and> (\<forall>k < length steps. steps ! k = filter (\<lambda>t. om_get depth (tk_id t) = Some k) ts)"

lemma placed_grows:
  assumes "placed depth ts steps" "memo_grows depth depth'"
  shows "placed depth' ts steps"
proof -
  have same: "om_get depth' (tk_id t) = om_get depth (tk_id t)" if "t \<in> set ts" for t
  proof -
    from assms(1) that obtain k where "om_get depth (tk_id t) = Some k" unfolding placed_def by blast
    moreover from this assms(2) have "om_get depth' (tk_id t) = Some k" unfolding memo_grows_def by blast
    ultimately show ?thesis by simp
  qed
  then have "filter (\<lambda>t. om_get depth' (tk_id t) = Some k) ts = filter (\<lambda>t. om_get depth (tk_id t) = Some k) ts" for k
    by (intro filter_cong) simp_all
  with assms(1) same show ?thesis by (auto simp: placed_def)
qed

lemma placed_snoc:
  assumes "placed depth ts steps" "om_get depth (tk_id t) = Some at"
  shows "placed depth (ts @ [t]) (add_to_step at t steps)"
proof -
  have none: "filter (\<lambda>t. om_get depth (tk_id t) = Some k) ts = []" if "\<not> k < length steps" for k
    using assms(1) that by (auto simp: placed_def filter_empty_conv)
  show ?thesis
    using assms none unfolding placed_def add_to_step(1)
    by (auto simp: add_to_step(2) less_max_iff_disj)
qed

lemma plan_steps_placed:
  assumes "orderly ts"
  shows "set us \<subseteq> set ts \<Longrightarrow>
     (let (steps, depth) = foldl (\<lambda>(steps, depth) t.
            let (at, depth') = step_of (length ts + 1) ts depth t
            in (add_to_step at t steps, depth')) ([], []) us
      in memo_holds ts depth \<and> placed depth us steps)"
proof (induction us rule: rev_induct)
  case Nil
  then show ?case by (simp add: memo_holds_def placed_def)
next
  case (snoc t us)
  obtain steps depth where before: "foldl (\<lambda>(steps, depth) t.
      let (at, depth') = step_of (length ts + 1) ts depth t
      in (add_to_step at t steps, depth')) ([], []) us = (steps, depth)"
    by fastforce
  with snoc have holds: "memo_holds ts depth" "placed depth us steps" by auto
  obtain at depth' where step: "step_of (length ts + 1) ts depth t = (at, depth')" by fastforce
  have "on_path ts (length ts + 1) [] (tk_id t)" by (simp add: on_path_def)
  with step_of_holds(1) [OF holds(1) assms, of t "length ts + 1" "[]"] snoc(2) step
  have "memo_holds ts depth'" "memo_grows depth depth'" "om_get depth' (tk_id t) = Some at" by auto
  with placed_snoc [OF placed_grows [OF holds(2)]] before step show ?case by simp
qed

lemma mset_by_step:
  "mset (concat (map (\<lambda>k. filter (\<lambda>x. g x = Some k) xs) [0..<n])) = mset (filter (\<lambda>x. \<exists>k < n. g x = Some k) xs)"
proof (induction n)
  case (Suc n)
  have "mset (filter (\<lambda>x. \<exists>k < n. g x = Some k) xs) + mset (filter (\<lambda>x. g x = Some n) xs)
      = mset (filter (\<lambda>x. \<exists>k < Suc n. g x = Some k) xs)"
    by (induction xs) (auto simp: less_Suc_eq)
  with Suc show ?case by simp
qed simp

text \<open>C29. The steps of an accepted plan hold every task once; a task comes in a later step than every task
  it waits on, and in the step right after one of them, or in the first when it waits on none.\<close>

theorem accepted_plan_runs_in_order:
  assumes "check_tasks matches unbuilt f = []"
  shows "mset (concat (plan_steps f)) = mset (tf_tasks f)
   \<and> (\<forall>k < length (plan_steps f). \<forall>t \<in> set (plan_steps f ! k).
        (\<forall>d \<in> set (tk_depends_on t). \<exists>j < k. d \<in> tk_id ` set (plan_steps f ! j))
      \<and> (0 < k \<longrightarrow> (\<exists>d \<in> set (tk_depends_on t). d \<in> tk_id ` set (plan_steps f ! (k - 1)))))"
proof -
  let ?ts = "tf_tasks f"
  have ok: "orderly ?ts" using assms by (simp add: plan_rules_iff plan_ok_def Let_def)
  obtain depth where holds: "memo_holds ?ts depth" "placed depth ?ts (plan_steps f)"
    using plan_steps_placed [OF ok, of ?ts] by (auto simp: plan_steps_def split: prod.splits)
  let ?level = "\<lambda>t. om_get depth (tk_id t)"
  have steps: "plan_steps f = map (\<lambda>k. filter (\<lambda>t. ?level t = Some k) ?ts) [0..<length (plan_steps f)]"
    using holds(2) by (intro nth_equalityI) (simp_all add: placed_def)
  have all: "\<forall>t \<in> set ?ts. \<exists>k < length (plan_steps f). ?level t = Some k"
    using holds(2) unfolding placed_def by (rule conjunct1)
  have "mset (concat (plan_steps f)) = mset (filter (\<lambda>t. \<exists>k < length (plan_steps f). ?level t = Some k) ?ts)"
    by (subst steps) (rule mset_by_step)
  also have "filter (\<lambda>t. \<exists>k < length (plan_steps f). ?level t = Some k) ?ts = ?ts"
    using all by (simp add: filter_id_conv)
  finally have once: "mset (concat (plan_steps f)) = mset ?ts" .
  have at: "t \<in> set (plan_steps f ! k) \<longleftrightarrow> t \<in> set ?ts \<and> ?level t = Some k" if "k < length (plan_steps f)" for t k
    using holds(2) that by (simp add: placed_def)
  have known: "\<exists>u \<in> set ?ts. tk_id u = d" if "t \<in> set ?ts" "d \<in> set (tk_depends_on t)" for t d
    using ok that by (fastforce simp: orderly_def)
  have "(\<forall>d \<in> set (tk_depends_on t). \<exists>j < k. d \<in> tk_id ` set (plan_steps f ! j))
      \<and> (0 < k \<longrightarrow> (\<exists>d \<in> set (tk_depends_on t). d \<in> tk_id ` set (plan_steps f ! (k - 1))))"
    if k: "k < length (plan_steps f)" and t: "t \<in> set (plan_steps f ! k)" for k t
  proof -
    have t': "t \<in> set ?ts" "step_after depth (tk_depends_on t) k"
      using at [OF k] t holds(1) by (auto simp: memo_holds_def)
    have there: "d \<in> tk_id ` set (plan_steps f ! j)"
      if d: "d \<in> set (tk_depends_on t)" "om_get depth d = Some j" "j < k" for d j
      using known [OF t'(1) d(1)] at [of j] d k by (auto simp: image_iff)
    have "\<exists>j < k. d \<in> tk_id ` set (plan_steps f ! j)" if "d \<in> set (tk_depends_on t)" for d
      using t'(2) that there unfolding step_after_def by blast
    moreover have "\<exists>d \<in> set (tk_depends_on t). d \<in> tk_id ` set (plan_steps f ! (k - 1))" if "0 < k"
    proof -
      have "tk_depends_on t \<noteq> []" using t'(2) that by (auto simp: step_after_def)
      then obtain d m where "d \<in> set (tk_depends_on t)" "om_get depth d = Some m" "k = Suc m"
        using t'(2) unfolding step_after_def by blast
      with there [of d m] show ?thesis by auto
    qed
    ultimately show ?thesis by blast
  qed
  with once show ?thesis by blast
qed

definition sample_task :: "task_id \<Rightarrow> scope_glob \<Rightarrow> task_id list \<Rightarrow> task" where
  "sample_task i g deps = \<lparr>tk_id = i, tk_title = ''work'', tk_scope = [g],
     tk_criteria = [\<lparr>pc_cmd = ''true'', pc_type = None, pc_proves = None\<rparr>], tk_depends_on = deps,
     tk_notes = None, tk_description = None, tk_changes = [], tk_outcome = None, tk_uses = [],
     tk_invariants = []\<rparr>"

definition sample_plan :: tasks_file where
  "sample_plan = tasks_file_of
     [sample_task ''d'' ''d.rs'' [''b'', ''c''], sample_task ''a'' ''a.rs'' [],
      sample_task ''b'' ''b.rs'' [''a''], sample_task ''c'' ''c.rs'' [''a'']]"

theorem accepted_plan_runs_in_order_witness:
  "mset (concat (plan_steps sample_plan)) = mset (tf_tasks sample_plan)
 \<and> map (map tk_id) (plan_steps sample_plan) = [[''a''], [''b'', ''c''], [''d'']]"
proof -
  have "check_tasks globset_matches (\<lambda>_. None) sample_plan = []" by code_simp
  from accepted_plan_runs_in_order [OF this]
  have "mset (concat (plan_steps sample_plan)) = mset (tf_tasks sample_plan)" by (rule conjunct1)
  moreover have "map (map tk_id) (plan_steps sample_plan) = [[''a''], [''b'', ''c''], [''d'']]" by code_simp
  ultimately show ?thesis by blast
qed

text \<open>C30. No file is in the scope of two tasks of an accepted plan unless one waits for the other, so
  the tasks that run at the same time declare disjoint work.\<close>

theorem accepted_tasks_share_no_file:
  assumes "check_tasks matches unbuilt f = []" "reads_globs matches"
    and "a \<in> set (tf_tasks f)" "b \<in> set (tf_tasks f)" "a \<noteq> b"
    and "ga \<in> set (tk_scope a)" "gb \<in> set (tk_scope b)" "matches ga p" "matches gb p"
  shows "(tk_id a, tk_id b) \<in> set (waits_for (tf_tasks f)) \<or> (tk_id b, tk_id a) \<in> set (waits_for (tf_tasks f))"
proof -
  let ?ts = "tf_tasks f"
  have ok: "plan_ok matches unbuilt f" using assms(1) by (simp add: plan_rules_iff)
  then have "distinct (map tk_id ?ts)" by (simp add: plan_ok_def orderly_def Let_def)
  note waits = waits_for_iff [OF this]
  obtain i j where ij: "i < length ?ts" "?ts ! i = a" "j < length ?ts" "?ts ! j = b"
    using assms(3,4) by (auto simp: in_set_conv_nth)
  with assms(5) have "i < j \<or> j < i" by (metis linorder_neqE_nat)
  moreover have "might_overlap matches ga gb" "might_overlap matches gb ga"
    using assms(2,8,9) by (auto intro: might_overlap_complete)
  moreover have "\<forall>j < length ?ts. \<forall>i < j. \<forall>ga \<in> set (tk_scope (?ts ! i)). \<forall>gb \<in> set (tk_scope (?ts ! j)).
      might_overlap matches ga gb \<longrightarrow>
        (tk_id (?ts ! i), tk_id (?ts ! j)) \<in> (task_deps ?ts)\<^sup>+
      \<or> (tk_id (?ts ! j), tk_id (?ts ! i)) \<in> (task_deps ?ts)\<^sup>+"
    using ok unfolding plan_ok_def Let_def by (elim conjE) assumption
  ultimately show ?thesis using ij assms(6,7) unfolding waits by blast
qed

definition shared_plan :: tasks_file where
  "shared_plan = tasks_file_of [sample_task ''a'' ''src/*.rs'' [], sample_task ''b'' ''src/b.rs'' [''a'']]"

theorem accepted_tasks_share_no_file_witness:
  "(''b'', ''a'') \<in> set (waits_for (tf_tasks shared_plan))"
proof -
  have ok: "check_tasks globset_matches (\<lambda>_. None) shared_plan = []" by code_simp
  have "(''a'', ''b'') \<in> set (waits_for (tf_tasks shared_plan)) \<or> (''b'', ''a'') \<in> set (waits_for (tf_tasks shared_plan))"
  proof -
    have "globset_matches ''src/*.rs'' ''src/b.rs''" "globset_matches ''src/b.rs'' ''src/b.rs''" by code_simp+
    then show ?thesis
      using accepted_tasks_share_no_file [OF ok reads_globs_globset,
        of "sample_task ''a'' ''src/*.rs'' []" "sample_task ''b'' ''src/b.rs'' [''a'']" "''src/*.rs''" "''src/b.rs''" "''src/b.rs''"]
      by (simp add: shared_plan_def tasks_file_of_def sample_task_def)
  qed
  moreover have "(''a'', ''b'') \<notin> set (waits_for (tf_tasks shared_plan))" by code_simp
  ultimately show ?thesis by blast
qed

end
