(* ===== verification/Task_Loop.thy ===== *)
theory Task_Loop
  imports Plan_Order Expansion Decisions Modes Failure_Access
begin

text \<open>
  One iteration of a loop node over the run's tasks (\<open>engine/src/run/loop_exec\<close>): the batch it forms
  (\<open>batch.rs\<close>), and what it ends on when it forms none (\<open>iteration.rs\<close>). The sessions a batch runs, their
  integration and the questions put to a person are the environment: they reach this code as events in
  the log. The properties say which batch is formed, that its tasks meet nowhere, and that a loop finds
  nothing to run only when its plan is done or one of its tasks has stopped.
\<close>

section \<open>The batch\<close>

definition scope_in_force :: "task \<Rightarrow> scope_glob list \<Rightarrow> scope_glob list" where
  "scope_in_force t grants = tk_scope t @ grants"

definition task_ready :: "run_state \<Rightarrow> task \<Rightarrow> bool" where
  "task_ready S t =
     (case task_status_of (rs_tasks S) (tk_id t) of
        Some Pending \<Rightarrow> list_all (\<lambda>d. task_status_of (rs_tasks S) d = Some Done) (tk_depends_on t)
      | Some Running \<Rightarrow> True
      | _ \<Rightarrow> False)"

text \<open>Whether two reaches might select the same file.\<close>

definition reaches_meet :: "(scope_glob \<Rightarrow> path \<Rightarrow> bool) \<Rightarrow> scope_glob list \<Rightarrow> scope_glob list \<Rightarrow> bool" where
  "reaches_meet matches a b = list_ex (\<lambda>g. reaches_any matches g b) a"

definition task_reach :: "run_state \<Rightarrow> task \<Rightarrow> scope_glob list" where
  "task_reach S t = scope_in_force t (reach_for (rs_grants S) (tk_id t))"

fun select_from ::
  "(scope_glob \<Rightarrow> path \<Rightarrow> bool) \<Rightarrow> run_state \<Rightarrow> nat \<Rightarrow> (task \<times> scope_glob list) list \<Rightarrow> task list \<Rightarrow>
     (task \<times> scope_glob list) list" where
  "select_from matches S concurrency batch [] = batch"
| "select_from matches S concurrency batch (t # ts) =
     (if length batch \<ge> concurrency then batch
      else
        let reach = task_reach S t
        in if list_ex (\<lambda>(_, chosen). reaches_meet matches chosen reach) batch
           then select_from matches S concurrency batch ts
           else select_from matches S concurrency (batch @ [(t, reach)]) ts)"

definition select_batch :: "(scope_glob \<Rightarrow> path \<Rightarrow> bool) \<Rightarrow> tasks_file \<Rightarrow> run_state \<Rightarrow> u32 \<Rightarrow> task list" where
  "select_batch matches f S concurrency =
     map fst (select_from matches S (unat concurrency) [] (filter (task_ready S) (tf_tasks f)))"

section \<open>An iteration that forms no batch\<close>

record expansion_outcome =
  eo_asked :: "expansion_request option"
  eo_precheck :: "precheck option"
  eo_decision :: decision
  eo_count :: u32

record pending_escalation =
  pe_task :: task_id
  pe_attempt_no :: u32
  pe_outcome :: expansion_outcome
  pe_was_blocked :: bool

definition undecided_paths :: "pending_escalation \<Rightarrow> (scope_glob list \<times> waiting) option" where
  "undecided_paths p =
     (case eo_decision (pe_outcome p) of
        Escalate_Decision paths because \<Rightarrow> Some (paths, because)
      | _ \<Rightarrow> None)"

definition not_done :: "run_state \<Rightarrow> tasks_file \<Rightarrow> task_id list" where
  "not_done S f =
     map tk_id (filter (\<lambda>t. task_status_of (rs_tasks S) (tk_id t) \<noteq> Some Done) (tf_tasks f))"

definition unpassable_stop :: "task_stop \<Rightarrow> unpassable_task option" where
  "unpassable_stop s =
     (case ts_cause s of
        CriterionUnpassable d \<Rightarrow>
          Some \<lparr>ut_task = cu_task d, ut_cmd = cu_criterion d, ut_why = cu_why d\<rparr>
      | _ \<Rightarrow> None)"

definition unpassable_of :: "task_stop list \<Rightarrow> failure option" where
  "unpassable_of stopped =
     (let unpassable = List.map_filter unpassable_stop stopped
      in if unpassable = [] then None else Some (PlanUnpassable unpassable))"

definition declares_again :: "failure \<Rightarrow> failure \<Rightarrow> bool" where
  "declares_again earlier f =
     (case (earlier, f) of
        (PlanUnpassable before_tasks, PlanUnpassable now) \<Rightarrow>
          list_all (\<lambda>t. list_ex (\<lambda>k. ut_task k = ut_task t \<and> ut_cmd k = ut_cmd t) before_tasks) now
      | _ \<Rightarrow> False)"

definition session_limit_of :: "task_stop \<Rightarrow> account_limit option" where
  "session_limit_of s = (case ts_cause s of SessionLimited l \<Rightarrow> Some l | _ \<Rightarrow> None)"

definition stopped_failure :: "task_stop list \<Rightarrow> failure option" where
  "stopped_failure stopped =
     (case find_map session_limit_of stopped of
        Some l \<Rightarrow> Some (Limit l)
      | None \<Rightarrow> if stopped \<noteq> [] then Some (TasksStopped stopped) else None)"

text \<open>The departures owed a person's answer: the stops that are one.\<close>

definition departure_stop :: "task_stop \<Rightarrow> (task_id \<times> deviation_declared nonempty) option" where
  "departure_stop s = (case ts_cause s of DeviationOwed ds \<Rightarrow> Some (ts_task s, ds) | _ \<Rightarrow> None)"

definition owed_by :: "task_stop list \<Rightarrow> (task_id \<times> deviation_declared nonempty) list" where
  "owed_by stopped = List.map_filter departure_stop stopped"

text \<open>The scope requests owed: the failure that names each, or the first one that was decided, which
  breaks the run.\<close>

fun owed_scopes :: "pending_escalation list \<Rightarrow> task_id + owed_scope list" where
  "owed_scopes [] = Inr []"
| "owed_scopes (p # ps) =
     (case undecided_paths p of
        None \<Rightarrow> Inl (pe_task p)
      | Some (paths, _) \<Rightarrow>
          (case owed_scopes ps of
             Inl e \<Rightarrow> Inl e
           | Inr os \<Rightarrow>
               Inr (\<lparr>os_task = pe_task p, os_paths = paths,
                     os_reason = map_option req_reason (eo_asked (pe_outcome p))\<rparr> # os)))"

definition escalate_owed :: "pending_escalation list \<Rightarrow> task_id + failure option" where
  "escalate_owed ps =
     (if ps = [] then Inr None
      else case owed_scopes ps of Inl e \<Rightarrow> Inl e | Inr os \<Rightarrow> Inr (Some (ScopeOwed os)))"

text \<open>What an iteration that forms no batch comes to: departures put to a person, the run broken on a
  request that is not pending, the node failed, or the node closed with the tasks it did.\<close>

datatype idle_end =
    Idle_Departures "(task_id \<times> deviation_declared nonempty) list"
  | Idle_Broken task_id
  | Idle_Failed failure
  | Idle_Closed nat

definition repeated_unpassable :: "run_state \<Rightarrow> node_id \<Rightarrow> failure \<Rightarrow> failure" where
  "repeated_unpassable S n f =
     (case Option.bind (nodes_get (rs_nodes S) n) failed_before of
        Some earlier \<Rightarrow>
          if declares_again (fa_failure earlier) f then failure_unchanged (fa_attempt earlier) (fa_failure earlier) else f
      | None \<Rightarrow> f)"

definition end_idle ::
  "run_state \<Rightarrow> node_id \<Rightarrow> tasks_file \<Rightarrow> pending_escalation list \<Rightarrow> task_stop list \<Rightarrow> idle_end" where
  "end_idle S n f owed stopped =
     (case unpassable_of stopped of
        Some unpassable \<Rightarrow> Idle_Failed (repeated_unpassable S n unpassable)
      | None \<Rightarrow>
          (case escalate_owed owed of
             Inl t \<Rightarrow> Idle_Broken t
           | Inr (Some failure) \<Rightarrow> Idle_Failed failure
           | Inr None \<Rightarrow>
               if not_done S f = [] then Idle_Closed (length (tf_tasks f))
               else (case stopped_failure stopped of
                       Some failure \<Rightarrow> Idle_Failed failure
                     | None \<Rightarrow> Idle_Failed (LoopStalled (not_done S f)))))"

definition idle_round :: "run_state \<Rightarrow> node_id \<Rightarrow> tasks_file \<Rightarrow> pending_escalation list \<Rightarrow> idle_end" where
  "idle_round S n f owed =
     (let stopped = stops (rs_tasks S)
      in if owed_by stopped \<noteq> [] then Idle_Departures (owed_by stopped)
         else end_idle S n f owed stopped)"

text \<open>Whether an iteration is put to a person first: past the cap, and no person lifted it.\<close>

definition past_cap :: "u32 \<Rightarrow> u32 \<Rightarrow> bool \<Rightarrow> bool" where
  "past_cap iteration max_iterations lifted \<longleftrightarrow> \<not> (iteration \<le> max_iterations \<or> lifted)"

datatype iteration_step = Idle idle_end | Over_Cap | Run_Batch "task list"

definition loop_step ::
  "(scope_glob \<Rightarrow> path \<Rightarrow> bool) \<Rightarrow> run_state \<Rightarrow> node_id \<Rightarrow> tasks_file \<Rightarrow> u32 \<Rightarrow>
     pending_escalation list \<Rightarrow> u32 \<Rightarrow> u32 \<Rightarrow> bool \<Rightarrow> iteration_step" where
  "loop_step matches S n f concurrency owed iteration max_iterations lifted =
     (let batch = select_batch matches f S concurrency
      in if batch = [] then Idle (idle_round S n f owed)
         else if past_cap iteration max_iterations lifted then Over_Cap
         else Run_Batch batch)"

definition registered_here :: "run_state \<Rightarrow> tasks_file \<Rightarrow> task_id list" where
  "registered_here S f = filter (\<lambda>t. \<not> task_contains (rs_tasks S) t) (map tk_id (tf_tasks f))"

section \<open>What a batch holds\<close>

lemma select_from_extends:
  "\<exists>picked. select_from matches S c batch ts = batch @ map (\<lambda>t. (t, task_reach S t)) picked
     \<and> subseq picked ts \<and> (length batch \<le> c \<longrightarrow> length batch + length picked \<le> c)"
proof (induction matches S c batch ts rule: select_from.induct)
  case (1 matches S c batch)
  show ?case by (intro exI [of _ "[]"]) simp
next
  case (2 matches S c batch t ts)
  let ?reach = "task_reach S t"
  consider (full) "c \<le> length batch"
    | (meets) "\<not> c \<le> length batch" "list_ex (\<lambda>(_, chosen). reaches_meet matches chosen ?reach) batch"
    | (takes) "\<not> c \<le> length batch" "\<not> list_ex (\<lambda>(_, chosen). reaches_meet matches chosen ?reach) batch"
    by blast
  then show ?case
  proof cases
    case full
    then show ?thesis by (intro exI [of _ "[]"]) simp
  next
    case meets
    from 2(1) [OF meets(1) refl meets(2)] obtain picked where
      "select_from matches S c batch ts = batch @ map (\<lambda>t. (t, task_reach S t)) picked"
      "subseq picked ts" "length batch \<le> c \<longrightarrow> length batch + length picked \<le> c"
      by blast
    with meets show ?thesis by (intro exI [of _ picked]) auto
  next
    case takes
    from 2(2) [OF takes(1) refl takes(2)] obtain picked where
      "select_from matches S c (batch @ [(t, ?reach)]) ts
         = (batch @ [(t, ?reach)]) @ map (\<lambda>t. (t, task_reach S t)) picked"
      "subseq picked ts"
      "length (batch @ [(t, ?reach)]) \<le> c \<longrightarrow> length (batch @ [(t, ?reach)]) + length picked \<le> c"
      by blast
    with takes show ?thesis by (intro exI [of _ "t # picked"]) auto
  qed
qed

lemma select_from_apart:
  "sorted_wrt (\<lambda>(_, a) (_, b). \<not> reaches_meet matches a b) batch \<Longrightarrow>
     sorted_wrt (\<lambda>(_, a) (_, b). \<not> reaches_meet matches a b) (select_from matches S c batch ts)"
proof (induction matches S c batch ts rule: select_from.induct)
  case (2 matches S c batch t ts)
  let ?reach = "task_reach S t"
  have "sorted_wrt (\<lambda>(_, a) (_, b). \<not> reaches_meet matches a b) (batch @ [(t, ?reach)])"
    if "\<not> list_ex (\<lambda>(_, chosen). reaches_meet matches chosen ?reach) batch"
    using 2(3) that by (auto simp: sorted_wrt_append list_ex_iff)
  with 2 show ?case by (simp add: Let_def)
qed simp

lemma select_from_maximal:
  "t \<in> set ts \<Longrightarrow>
     (let R = select_from matches S c batch ts
      in (t, task_reach S t) \<in> set R \<or> c \<le> length R
       \<or> (\<exists>(_, chosen) \<in> set R. reaches_meet matches chosen (task_reach S t)))"
proof (induction matches S c batch ts rule: select_from.induct)
  case (2 matches S c batch u ts)
  have kept: "set b \<subseteq> set (select_from matches S c b ts)" for b
    using select_from_extends [of matches S c b ts] by auto
  show ?case
  proof (cases "t \<in> set ts")
    case True
    with 2 show ?thesis by (auto simp: Let_def)
  next
    case False
    with 2(3) have "t = u" by simp
    with kept [of batch] kept [of "batch @ [(u, task_reach S u)]"] show ?thesis
      by (fastforce simp: Let_def list_ex_iff)
  qed
qed simp

lemma batch_facts:
  "length (select_batch matches f S concurrency) \<le> unat concurrency
   \<and> subseq (select_batch matches f S concurrency) (filter (task_ready S) (tf_tasks f))
   \<and> sorted_wrt (\<lambda>a b. \<not> reaches_meet matches (task_reach S a) (task_reach S b))
        (select_batch matches f S concurrency)
   \<and> (\<forall>t \<in> set (tf_tasks f). task_ready S t \<longrightarrow>
        t \<in> set (select_batch matches f S concurrency)
      \<or> length (select_batch matches f S concurrency) = unat concurrency
      \<or> (\<exists>b \<in> set (select_batch matches f S concurrency).
           reaches_meet matches (task_reach S b) (task_reach S t)))"
proof -
  let ?ready = "filter (task_ready S) (tf_tasks f)"
  obtain picked where R: "select_from matches S (unat concurrency) [] ?ready
      = map (\<lambda>t. (t, task_reach S t)) picked"
    and picked: "subseq picked ?ready" "length picked \<le> unat concurrency"
    using select_from_extends [of matches S "unat concurrency" "[]" ?ready] by auto
  have batch: "select_batch matches f S concurrency = picked"
    by (simp add: select_batch_def R comp_def)
  have "sorted_wrt (\<lambda>a b. \<not> reaches_meet matches (task_reach S a) (task_reach S b)) picked"
    using select_from_apart [of matches "[]" S "unat concurrency" ?ready]
    by (simp add: R sorted_wrt_map)
  moreover have "t \<in> set picked \<or> length picked = unat concurrency
      \<or> (\<exists>b \<in> set picked. reaches_meet matches (task_reach S b) (task_reach S t))"
    if "t \<in> set (tf_tasks f)" "task_ready S t" for t
    using select_from_maximal [of t ?ready matches S "unat concurrency" "[]"] that picked(2)
    by (auto simp: R Let_def)
  ultimately show ?thesis using picked by (simp add: batch)
qed


lemmas batch_apart = batch_facts [THEN conjunct2, THEN conjunct2, THEN conjunct1]
lemmas batch_bounded = batch_facts [THEN conjunct1]
lemmas batch_picks = batch_facts [THEN conjunct2, THEN conjunct1]
lemmas batch_passes_over = batch_facts [THEN conjunct2, THEN conjunct2, THEN conjunct2]

text \<open>The batch of an iteration is the ready tasks taken in the plan's order, within the concurrency,
  passing over a task only when it might meet one already taken or the batch is full.\<close>

lemma batch_is_greedy:
  "(let batch = select_batch matches f S concurrency
    in length batch \<le> unat concurrency
     \<and> subseq batch (filter (task_ready S) (tf_tasks f))
     \<and> sorted_wrt (\<lambda>a b. \<not> reaches_meet matches (task_reach S a) (task_reach S b)) batch
     \<and> (\<forall>t \<in> set (tf_tasks f). task_ready S t \<longrightarrow>
          t \<in> set batch \<or> length batch = unat concurrency
        \<or> (\<exists>b \<in> set batch. reaches_meet matches (task_reach S b) (task_reach S t))))"
  unfolding Let_def by (rule batch_facts)

text \<open>C38. No two tasks of a batch can write one file: no path is in the reach of both, whatever the run
  let each write beyond its scope.\<close>

theorem batch_shares_no_file:
  assumes "reads_globs matches" "a < b" "b < length (select_batch matches f S concurrency)"
    and "ga \<in> set (task_reach S (select_batch matches f S concurrency ! a))" "matches ga p"
    and "gb \<in> set (task_reach S (select_batch matches f S concurrency ! b))"
  shows "\<not> matches gb p"
proof
  assume gb: "matches gb p"
  let ?batch = "select_batch matches f S concurrency"
  have "sorted_wrt (\<lambda>a b. \<not> reaches_meet matches (task_reach S a) (task_reach S b)) ?batch"
    using batch_apart .
  then have "\<not> reaches_meet matches (task_reach S (?batch ! a)) (task_reach S (?batch ! b))"
    using assms(2,3) by (simp add: sorted_wrt_iff_nth_less)
  moreover have "reaches_any matches ga (task_reach S (?batch ! b))"
    using assms(1,5) gb assms(6) by (intro reaches_any_complete)
  ultimately show False using assms(4) by (auto simp: reaches_meet_def list_ex_iff)
qed

section \<open>What a loop that finds nothing to run waits on\<close>

lemma finite_task_deps: "finite (task_deps ts)"
proof (rule finite_subset)
  show "task_deps ts \<subseteq> set (map tk_id ts) \<times> dep_universe ts"
    using task_deps_domain deps_listed_universe by (fastforce simp: task_deps_def)
qed simp

text \<open>Of the tasks that are pending, one waits for none that is.\<close>

lemma first_pending:
  assumes "orderly (tf_tasks f)" "t \<in> set (tf_tasks f)" "P (tk_id t)"
  obtains u where "u \<in> set (tf_tasks f)" "P (tk_id u)" "\<And>d. d \<in> set (tk_depends_on u) \<Longrightarrow> \<not> P d"
proof -
  let ?ts = "tf_tasks f"
  have "wf ((task_deps ?ts)\<inverse>)"
    using assms(1) finite_task_deps by (intro finite_acyclic_wf_converse) (simp_all add: orderly_def)
  moreover have "tk_id t \<in> {i \<in> set (map tk_id ?ts). P i}" using assms(2,3) by simp
  ultimately obtain i where i: "i \<in> {i \<in> set (map tk_id ?ts). P i}"
    "\<And>j. (j, i) \<in> (task_deps ?ts)\<inverse> \<Longrightarrow> j \<notin> {i \<in> set (map tk_id ?ts). P i}"
    by (rule wfE_min) blast
  then obtain u where u: "u \<in> set ?ts" "tk_id u = i" by auto
  have "deps_listed ?ts (tk_id u) = tk_depends_on u"
    using assms(1) u(1) by (intro last_of_distinct) (simp_all add: orderly_def)
  then have "\<not> P d" if "d \<in> set (tk_depends_on u)" for d
    using i(2) [of d] u that assms(1) by (fastforce simp: task_deps_def orderly_def)
  with u i(1) show thesis by (intro that) auto
qed

lemma idle_blames:
  assumes plan: "orderly (tf_tasks f)" and idle: "select_batch matches f S concurrency = []"
    and concurrency: "concurrency \<noteq> 0" and left: "not_done S f \<noteq> []"
  obtains t where "t \<in> set (tf_tasks f)" "task_status_of (rs_tasks S) (tk_id t) \<notin> {Some Done, Some Pending, Some Running}"
proof -
  let ?st = "\<lambda>i. task_status_of (rs_tasks S) i"
  have "unat concurrency \<noteq> 0" using concurrency by (simp add: unat_eq_zero)
  then have none: "\<not> task_ready S t" if "t \<in> set (tf_tasks f)" for t
    using batch_passes_over [of f S matches concurrency] idle that by auto
  have "\<exists>t \<in> set (tf_tasks f). ?st (tk_id t) \<notin> {Some Done, Some Pending, Some Running}"
  proof (rule ccontr)
    assume "\<not> ?thesis"
    then have seen: "?st (tk_id t) \<in> {Some Done, Some Pending, Some Running}" if "t \<in> set (tf_tasks f)" for t
      using that by blast
    have healthy: "?st (tk_id t) = Some Done \<or> ?st (tk_id t) = Some Pending" if t: "t \<in> set (tf_tasks f)" for t
      using seen [OF t] none [OF t] by (auto simp: task_ready_def)
    obtain t where t: "t \<in> set (tf_tasks f)" "?st (tk_id t) \<noteq> Some Done"
      using left by (auto simp: not_done_def filter_empty_conv)
    obtain u where u: "u \<in> set (tf_tasks f)" "?st (tk_id u) \<noteq> Some Done"
      "\<And>d. d \<in> set (tk_depends_on u) \<Longrightarrow> \<not> ?st d \<noteq> Some Done"
      by (rule first_pending [where P = "\<lambda>i. ?st i \<noteq> Some Done", OF plan t]) (rule that; assumption)
    with healthy have "?st (tk_id u) = Some Pending" by blast
    with u(3) have "task_ready S u" by (simp add: task_ready_def list_all_iff)
    with none [OF u(1)] show False by blast
  qed
  then show thesis using that by blast
qed

lemma loop_step_idle:
  "loop_step matches S n f concurrency owed iteration cap lifted = Idle e \<longleftrightarrow>
     select_batch matches f S concurrency = [] \<and> idle_round S n f owed = e"
  by (simp add: loop_step_def Let_def)

lemma stalled_end:
  assumes "idle_round S n f owed = Idle_Failed (LoopStalled ids)"
  shows "ids = not_done S f \<and> not_done S f \<noteq> [] \<and> stops (rs_tasks S) = []"
proof -
  have "repeated_unpassable S n g \<noteq> LoopStalled ids" if "unpassable_of s = Some g" for s g
    using that
    by (auto simp: repeated_unpassable_def unpassable_of_def failure_unchanged_def Let_def
        split: option.splits if_splits failure.splits)
  moreover
  have "escalate_owed owed \<noteq> Inr (Some (LoopStalled ids))"
    by (auto simp: escalate_owed_def split: sum.split)
  moreover have "unpassable_of s \<noteq> Some (LoopStalled ids)" for s
    by (auto simp: unpassable_of_def Let_def)
  moreover have "stopped_failure s \<noteq> Some (LoopStalled ids)" "stopped_failure s = None \<longleftrightarrow> s = []" for s
    by (auto simp: stopped_failure_def session_limit_of_def split: option.splits)
  ultimately show ?thesis
    using assms
    by (auto simp: idle_round_def end_idle_def Let_def split: if_splits option.splits sum.splits)
qed

lemma no_stops_unblocked:
  assumes "stops L = []" "(t, r) \<in> set (per_task L)" "tr_status r = Blocked"
  shows "tr_stop r = None"
  using assms by (cases "tr_stop r") (force simp: stops_def map_filter_def filter_empty_conv)+

lemma closed_end:
  assumes "idle_round S n f owed = Idle_Closed k"
  shows "not_done S f = [] \<and> k = length (tf_tasks f) \<and> owed = [] \<and> owed_by (stops (rs_tasks S)) = []
       \<and> unpassable_of (stops (rs_tasks S)) = None"
  using assms
  by (auto simp: idle_round_def end_idle_def escalate_owed_def Let_def
      split: if_splits option.splits sum.splits)

text \<open>A loop node closes only when every task of its plan is done, it ran no batch, and nothing its
  batches owe a person is left.\<close>

lemma loop_closes_when_all_done:
  assumes "loop_step matches S n f concurrency owed iteration cap lifted = Idle (Idle_Closed k)"
  shows "(\<forall>t \<in> set (tf_tasks f). task_status_of (rs_tasks S) (tk_id t) = Some Done)
       \<and> k = length (tf_tasks f) \<and> owed = [] \<and> owed_by (stops (rs_tasks S)) = []"
  using assms closed_end [of S n f owed k]
  by (auto simp: loop_step_idle not_done_def filter_empty_conv)

lemma stalled_names:
  assumes "loop_step matches S n f concurrency owed iteration cap lifted = Idle (Idle_Failed (LoopStalled ids))"
    and "check_tasks matches unbuilt f = []" "concurrency \<noteq> 0"
  obtains t where "ids = not_done S f" "stops (rs_tasks S) = []" "t \<in> set (tf_tasks f)"
    "task_status_of (rs_tasks S) (tk_id t) \<notin> {Some Done, Some Pending, Some Running}"
proof -
  have idle: "select_batch matches f S concurrency = []" "idle_round S n f owed = Idle_Failed (LoopStalled ids)"
    using assms(1) by (simp_all add: loop_step_idle)
  have "ids = not_done S f \<and> not_done S f \<noteq> [] \<and> stops (rs_tasks S) = []"
    by (rule stalled_end [OF idle(2)])
  moreover have "orderly (tf_tasks f)" using assms(2) by (simp add: plan_rules_iff plan_ok_def Let_def)
  ultimately show thesis using idle_blames [OF _ idle(1) assms(3)] that by blast
qed

text \<open>C37. A loop over an accepted plan, every task of which is registered, stalls only behind a task that
  is in a state no loop takes up and that says nothing of why: ready, failed, or blocked with no cause on
  record, as in a log written before causes were. It never stalls on tasks that wait for one another, nor
  on tasks that reach the same files, and what it reports is every task not done.\<close>

theorem loop_stalls_behind_a_lost_task:
  assumes "loop_step matches S n f concurrency owed iteration cap lifted = Idle (Idle_Failed (LoopStalled ids))"
    and "check_tasks matches unbuilt f = []" "concurrency \<noteq> 0" "registered_here S f = []"
  shows "ids = not_done S f
       \<and> (\<exists>t \<in> set (tf_tasks f). \<exists>r. task_get (rs_tasks S) (tk_id t) = Some r
           \<and> (tr_status r \<in> {Ready, Failed} \<or> tr_status r = Blocked \<and> tr_stop r = None))"
proof -
  obtain t where t: "ids = not_done S f" "stops (rs_tasks S) = []" "t \<in> set (tf_tasks f)"
    "task_status_of (rs_tasks S) (tk_id t) \<notin> {Some Done, Some Pending, Some Running}"
    by (rule stalled_names [OF assms(1-3)])
  from assms(4) t(3) obtain r where r: "task_get (rs_tasks S) (tk_id t) = Some r"
    by (auto simp: registered_here_def task_contains_def task_get_def filter_empty_conv)
  then have "(tk_id t, r) \<in> set (per_task (rs_tasks S))" by (simp add: task_get_def om_get_def map_of_SomeD)
  with t(2) have "tr_stop r = None" if "tr_status r = Blocked" using that no_stops_unblocked by blast
  with t r show ?thesis
    by (cases "tr_status r") (auto simp: task_status_of_def task_get_def intro!: bexI [of _ t])
qed

definition loop_state :: "(task_id \<times> task_status) list \<Rightarrow> run_state" where
  "loop_state sts = run_state_default\<lparr>rs_tasks := tasks_new
     \<lparr>per_task := map (\<lambda>(t, s). (t, task_record_default\<lparr>tr_status := s\<rparr>)) sts\<rparr>\<rparr>"

definition under_way :: run_state where
  "under_way = loop_state [(''a'', Done), (''b'', Pending), (''c'', Running), (''d'', Pending)]"

theorem batch_shares_no_file_witness: "\<not> globset_matches ''c.rs'' ''b.rs''"
proof -
  have "0 < (1 :: nat)" "1 < length (select_batch globset_matches sample_plan under_way 3)"
    "''b.rs'' \<in> set (task_reach under_way (select_batch globset_matches sample_plan under_way 3 ! 0))"
    "globset_matches ''b.rs'' ''b.rs''"
    "''c.rs'' \<in> set (task_reach under_way (select_batch globset_matches sample_plan under_way 3 ! 1))"
    by code_simp+
  from batch_shares_no_file [OF reads_globs_globset this] show ?thesis .
qed

definition all_done :: run_state where
  "all_done = loop_state [(''a'', Done), (''b'', Done), (''c'', Done), (''d'', Done)]"

text \<open>A log written before a blocked task named its stop: its four tasks registered, the first blocked.\<close>

definition loop_logged :: "seq \<Rightarrow> task_event \<Rightarrow> stored_event" where
  "loop_logged k e =
     \<lparr>ev_run_id = ''r'', ev_seq = k, ev_timestamp = 0, ev_node_id = Some ''loop'', ev_body = Known (Tasks_Payload e)\<rparr>"

definition older_log :: "stored_event list" where
  "older_log =
     map (\<lambda>(k, i). loop_logged k (Task_Registered \<lparr>tg_task = i, tg_criteria = [], tg_scope = [], tg_depends_on = []\<rparr>))
       [(1, ''a''), (2, ''b''), (3, ''c''), (4, ''d'')]
     @ [loop_logged 5 (StatusChanged (status_to ''a'' Blocked 1))]"

theorem loop_stalls_behind_a_lost_task_witness:
  "[''d'', ''a'', ''b'', ''c''] = not_done (derive older_log) sample_plan
   \<and> (\<exists>r. task_get (rs_tasks (derive older_log)) ''a'' = Some r \<and> tr_status r = Blocked \<and> tr_stop r = None)"
proof -
  have evaluated: "loop_step globset_matches (derive older_log) ''loop'' sample_plan 2 [] 1 9 False
      = Idle (Idle_Failed (LoopStalled [''d'', ''a'', ''b'', ''c'']))
    \<and> check_tasks globset_matches (\<lambda>_. None) sample_plan = [] \<and> registered_here (derive older_log) sample_plan = []
    \<and> map_option (\<lambda>r. (tr_status r, tr_stop r)) (task_get (rs_tasks (derive older_log)) ''a'') = Some (Blocked, None)"
    by code_simp
  then have "[''d'', ''a'', ''b'', ''c''] = not_done (derive older_log) sample_plan"
    using loop_stalls_behind_a_lost_task [of globset_matches "derive older_log" "''loop''" sample_plan 2 "[]" 1 9 False
        "[''d'', ''a'', ''b'', ''c'']" "\<lambda>_. None"]
    by simp
  with evaluated show ?thesis by auto
qed

end
