(* ===== verification/Identifiers.thy ===== *)
theory Identifiers
  imports Replay Text
begin

text \<open>
  Identifiers and hashes, checked once at the frontier (\<open>core/src/ids.rs\<close>, \<open>core/src/ids/\<close>,
  \<open>core/src/hash.rs\<close>): the rule each kind of identifier follows, the siblings a node fans out into, the
  identifiers made of two path segments, and how a digest is written. The lemmas show that a composed
  identifier reads back as its parts and that a digest is its text. SHA-256 is a parameter: the bytes
  of a digest.
\<close>

section \<open>The rules\<close>

definition is_name :: "string \<Rightarrow> bool" where
  "is_name s =
     (case s of
        [] \<Rightarrow> False
      | c # cs \<Rightarrow>
          is_ascii_alphabetic c
          \<and> list_all (\<lambda>c. is_ascii_alphanumeric c \<or> c = CHR ''_'' \<or> c = CHR ''-'') cs)"

definition is_ascii_uppercase :: "char \<Rightarrow> bool" where
  "is_ascii_uppercase = is_between 65 90"

definition is_shared_dir_var :: "string \<Rightarrow> bool" where
  "is_shared_dir_var s =
     (s \<noteq> ''PATH''
      \<and> (case s of
           [] \<Rightarrow> False
         | c # cs \<Rightarrow>
             (is_ascii_uppercase c \<or> c = CHR ''_'')
             \<and> list_all (\<lambda>c. is_ascii_uppercase c \<or> is_ascii_digit c \<or> c = CHR ''_'') cs))"

definition fan_out_separator :: char where
  "fan_out_separator = CHR ''@''"

definition is_node_id :: "string \<Rightarrow> bool" where
  "is_node_id s =
     (case split_once [fan_out_separator] s of
        Some (base, rname) \<Rightarrow> is_name base \<and> is_name rname
      | None \<Rightarrow> is_name s)"

definition is_ascii_graphic :: "char \<Rightarrow> bool" where
  "is_ascii_graphic = is_between 33 126"

definition is_token :: "string \<Rightarrow> bool" where
  "is_token s \<longleftrightarrow> s \<noteq> [] \<and> list_all is_ascii_graphic s"

definition is_segment :: "string \<Rightarrow> bool" where
  "is_segment s \<longleftrightarrow>
     is_token s \<and> s \<noteq> ''.'' \<and> s \<noteq> ''..''
   \<and> list_all (\<lambda>c. c \<noteq> CHR ''/'' \<and> c \<noteq> CHR 0x5C) s"

definition is_opaque :: "string \<Rightarrow> bool" where
  "is_opaque s \<longleftrightarrow> s \<noteq> [] \<and> list_all (\<lambda>c. \<not> is_between 0 31 c \<and> c \<noteq> CHR 0x7F) s"

section \<open>A node and its siblings\<close>

definition base_str :: "node_id \<Rightarrow> string" where
  "base_str n = (case split_once [fan_out_separator] n of Some (base, _) \<Rightarrow> base | None \<Rightarrow> n)"

definition fan_out :: "node_id \<Rightarrow> string \<Rightarrow> node_id" where
  "fan_out base rname = base_str base @ [fan_out_separator] @ rname"

definition is_fan_out :: "node_id \<Rightarrow> bool" where
  "is_fan_out n \<longleftrightarrow> contains n [fan_out_separator]"

definition node_base :: "node_id \<Rightarrow> node_id" where
  "node_base n = (if is_fan_out n then base_str n else n)"

definition node_runner :: "node_id \<Rightarrow> string option" where
  "node_runner n = map_option snd (split_once [fan_out_separator] n)"

definition handle_chars :: nat where
  "handle_chars = 6"

text \<open>The last characters of an id, or an id no longer than that.\<close>

definition run_handle :: "run_id \<Rightarrow> string" where
  "run_handle i = drop (length i - handle_chars) i"

section \<open>Two path segments\<close>

record pack_ref =
  pr_publisher :: string
  pr_name :: string

definition pack_ref_text :: "pack_ref \<Rightarrow> string" where
  "pack_ref_text r = pr_publisher r @ ''/'' @ pr_name r"

definition pack_ref_of :: "string \<Rightarrow> pack_ref option" where
  "pack_ref_of s =
     (case split_once ''/'' s of
        Some (publisher, name) \<Rightarrow>
          if is_segment publisher \<and> is_segment name
          then Some \<lparr>pr_publisher = publisher, pr_name = name\<rparr>
          else None
      | None \<Rightarrow> None)"

record github_repo =
  gr_owner :: string
  gr_name :: string

definition github_repo_text :: "github_repo \<Rightarrow> string" where
  "github_repo_text r = gr_owner r @ ''/'' @ gr_name r"

definition github_repo_of :: "string \<Rightarrow> github_repo option" where
  "github_repo_of s =
     (case split_once ''/'' s of
        Some (owner, name) \<Rightarrow>
          if \<not> is_segment owner \<or> \<not> is_segment name then None
          else Some \<lparr>gr_owner = owner, gr_name = name\<rparr>
      | None \<Rightarrow> None)"

section \<open>Positions in a log\<close>

text \<open>\<open>Seq::try_from(i64)\<close>: a positive number.\<close>

definition seq_of_i64 :: "int \<Rightarrow> seq option" where
  "seq_of_i64 i = (if 0 < i then Some (nat i) else None)"

section \<open>Hashes\<close>

definition is_lower_hex :: "string \<Rightarrow> bool" where
  "is_lower_hex = list_all (\<lambda>c. is_ascii_digit c \<or> is_between 97 102 c)"

definition is_content_hash :: "string \<Rightarrow> bool" where
  "is_content_hash s \<longleftrightarrow> length s = 64 \<and> is_lower_hex s"

definition is_git_object :: "string \<Rightarrow> bool" where
  "is_git_object s \<longleftrightarrow> 7 \<le> length s \<and> length s \<le> 64 \<and> is_lower_hex s"

type_synonym byte = "8 word"

definition nibble :: "byte \<Rightarrow> char" where
  "nibble n = (if n < 10 then char_of (48 + unat n) else char_of (97 + unat (n - 10)))"

definition lower_hex :: "byte list \<Rightarrow> string" where
  "lower_hex bytes = concat (map (\<lambda>b. [nibble (drop_bit 4 b), nibble (and b 0x0f)]) bytes)"

text \<open>\<open>ContentHash::sha256\<close>, on the bytes of a text.\<close>

definition sha256_hex :: "(string \<Rightarrow> byte list) \<Rightarrow> string \<Rightarrow> content_hash" where
  "sha256_hex sha bytes = lower_hex (sha bytes)"

definition abbreviated_digits :: nat where
  "abbreviated_digits = 12"

definition hash_abbreviated :: "content_hash \<Rightarrow> string" where
  "hash_abbreviated h = ''sha256:'' @ take abbreviated_digits h"

definition hash_qualified :: "content_hash \<Rightarrow> string" where
  "hash_qualified h = ''sha256:'' @ h"

definition commit_abbreviated :: "commit_sha \<Rightarrow> string" where
  "commit_abbreviated c = take (min (length c) abbreviated_digits) c"

section \<open>Reading back what was composed\<close>

lemma split_once_char: "split_once [c] (a @ c # b) = Some (a, b)" if "c \<notin> set a"
  using that by (induction a) auto

lemma split_once_char_None: "split_once [c] a = None \<longleftrightarrow> c \<notin> set a"
  by (induction a) auto

lemma split_once_char_Some:
  "split_once [c] s = Some (a, b) \<longleftrightarrow> s = a @ c # b \<and> c \<notin> set a"
proof
  assume split: "split_once [c] s = Some (a, b)"
  then have "c \<in> set s" using split_once_char_None [of c s] by simp
  then obtain a' b' where parts: "s = a' @ c # b'" "c \<notin> set a'" using split_list_first by metis
  then have "split_once [c] s = Some (a', b')" using split_once_char [of c a' b'] by (simp only: simp_thms)
  with split have "a = a'" "b = b'" by simp_all
  with parts show "s = a @ c # b \<and> c \<notin> set a" by blast
qed (simp add: split_once_char)

lemma name_no_separator: "is_name s \<Longrightarrow> fan_out_separator \<notin> set s"
  by (cases s)
    (auto simp: is_name_def fan_out_separator_def list_all_iff is_ascii_alphabetic_def
      is_ascii_alphanumeric_def is_ascii_digit_def is_between_def)

lemma segment_no_slash: "is_segment s \<Longrightarrow> CHR ''/'' \<notin> set s"
  by (auto simp: is_segment_def list_all_iff)

lemma base_str_name: "is_node_id n \<Longrightarrow> is_name (base_str n)"
  by (auto simp: is_node_id_def base_str_def split: option.splits)

lemma is_fan_out_iff: "is_fan_out n \<longleftrightarrow> fan_out_separator \<in> set n"
  by (induction n) (simp_all add: is_fan_out_def, auto)

lemma fan_out_sibling:
  assumes "is_node_id base" "is_name rname"
  shows "is_node_id (fan_out base rname)" "node_base (fan_out base rname) = node_base base"
    "node_runner (fan_out base rname) = Some rname" "is_fan_out (fan_out base rname)"
proof -
  let ?n = "base_str base @ fan_out_separator # rname"
  have n: "fan_out base rname = ?n" by (simp add: fan_out_def)
  have parts: "split_once [fan_out_separator] ?n = Some (base_str base, rname)"
    by (rule split_once_char [OF name_no_separator [OF base_str_name [OF assms(1)]]])
  show "is_node_id (fan_out base rname)"
    using assms(2) base_str_name [OF assms(1)] by (simp add: is_node_id_def n parts)
  show fan: "is_fan_out (fan_out base rname)" by (simp add: is_fan_out_iff n)
  have "node_base base = base_str base"
    using split_once_char_None [of fan_out_separator base]
    by (auto simp: node_base_def is_fan_out_iff base_str_def)
  then show "node_base (fan_out base rname) = node_base base"
    using fan by (simp add: node_base_def [of "fan_out base rname"])
      (simp only: base_str_def [of ?n] n parts option.case prod.case)
  show "node_runner (fan_out base rname) = Some rname"
    by (simp only: node_runner_def n parts option.map snd_conv)
qed

lemma pack_ref_reads_back: "pack_ref_of s = Some r \<longleftrightarrow>
    s = pack_ref_text r \<and> is_segment (pr_publisher r) \<and> is_segment (pr_name r)"
proof
  assume "pack_ref_of s = Some r"
  then show "s = pack_ref_text r \<and> is_segment (pr_publisher r) \<and> is_segment (pr_name r)"
    by (auto simp: pack_ref_of_def pack_ref_text_def split_once_char_Some
        split: option.splits prod.splits if_splits)
next
  assume r: "s = pack_ref_text r \<and> is_segment (pr_publisher r) \<and> is_segment (pr_name r)"
  then have "split_once ''/'' s = Some (pr_publisher r, pr_name r)"
    by (simp add: pack_ref_text_def split_once_char segment_no_slash)
  with r show "pack_ref_of s = Some r" by (simp add: pack_ref_of_def)
qed

lemma github_repo_reads_back: "github_repo_of s = Some r \<longleftrightarrow>
    s = github_repo_text r \<and> is_segment (gr_owner r) \<and> is_segment (gr_name r)"
proof
  assume "github_repo_of s = Some r"
  then show "s = github_repo_text r \<and> is_segment (gr_owner r) \<and> is_segment (gr_name r)"
    by (auto simp: github_repo_of_def github_repo_text_def split_once_char_Some
        split: option.splits prod.splits if_splits)
next
  assume r: "s = github_repo_text r \<and> is_segment (gr_owner r) \<and> is_segment (gr_name r)"
  then have "split_once ''/'' s = Some (gr_owner r, gr_name r)"
    by (simp add: github_repo_text_def split_once_char segment_no_slash)
  with r show "github_repo_of s = Some r" by (simp add: github_repo_of_def)
qed

section \<open>A digest and its text\<close>

lemma lower_hex_Cons: "lower_hex (b # bs) = nibble (drop_bit 4 b) # nibble (and b 0x0f) # lower_hex bs"
  by (simp add: lower_hex_def)

lemma lower_hex_Nil [simp]: "lower_hex [] = []"
  by (simp add: lower_hex_def)

lemma length_lower_hex [simp]: "length (lower_hex bs) = 2 * length bs"
  by (induction bs) (simp_all add: lower_hex_Cons)

lemma nibble_inj:
  assumes "n < 16" "m < 16" "nibble n = nibble m"
  shows "n = m"
proof -
  have small: "\<exists>k < 16. b = word_of_nat k" if "b < 16" for b :: byte
    using that by (intro exI [of _ "unat b"]) (simp add: word_less_nat_alt)
  obtain j k where jk: "j < 16" "k < 16" "n = word_of_nat j" "m = word_of_nat k"
    using small [OF assms(1)] small [OF assms(2)] by blast
  have "nibble (word_of_nat i) = ''0123456789abcdef'' ! i" if "i < 16" for i :: nat
  proof -
    have "i \<in> set [0..<16]" using that by simp
    moreover have "list_all (\<lambda>i. nibble (word_of_nat i) = ''0123456789abcdef'' ! i) [0..<16]" by code_simp
    ultimately show ?thesis by (simp only: list_all_iff)
  qed
  then have "''0123456789abcdef'' ! j = ''0123456789abcdef'' ! k" using assms(3) jk by simp
  moreover have "distinct ''0123456789abcdef''" by code_simp
  ultimately have "j = k" using jk(1,2) by (simp add: nth_eq_iff_index_eq)
  with jk show ?thesis by simp
qed

lemma halves:
  fixes b c :: byte
  assumes "drop_bit 4 b = drop_bit 4 c" "and b 0x0f = and c 0x0f"
  shows "b = c"
proof -
  have take4: "and x 0x0f = take_bit 4 x" for x :: byte
    by (simp add: take_bit_eq_mask mask_eq_exp_minus_1)
  have "push_bit 4 (drop_bit 4 x) + take_bit 4 x = x" for x :: byte by (rule bits_ident)
  then have "b = push_bit 4 (drop_bit 4 b) + take_bit 4 b" "push_bit 4 (drop_bit 4 c) + take_bit 4 c = c" by simp_all
  moreover have "take_bit 4 b = take_bit 4 c" using assms(2) by (simp only: take4)
  ultimately show ?thesis using assms(1) by metis
qed

lemma half_small: "drop_bit 4 b < (16 :: byte)" "and b 0x0f < (16 :: byte)"
proof -
  have "unat (drop_bit 4 b) = unat b div 16" by (simp add: drop_bit_eq_div unat_div)
  moreover have "unat b < 256" by (rule less_le_trans [OF unsigned_less]) simp
  ultimately show "drop_bit 4 b < 16" by (simp add: word_less_nat_alt)
  have "and b 0x0f \<le> 0x0f" by (simp add: word_and_le1)
  then show "and b 0x0f < 16" by (simp add: word_le_nat_alt word_less_nat_alt)
qed

lemma lower_hex_inj: "lower_hex a = lower_hex b \<Longrightarrow> a = b"
proof (induction a arbitrary: b)
  case Nil
  then show ?case by (cases b) (simp_all add: lower_hex_Cons)
next
  case (Cons x a)
  then obtain y b' where b: "b = y # b'" by (cases b) (simp_all add: lower_hex_Cons)
  with Cons.prems have "drop_bit 4 x = drop_bit 4 y" "and x 0x0f = and y 0x0f" "lower_hex a = lower_hex b'"
    by (auto simp: lower_hex_Cons intro: nibble_inj half_small)
  with Cons.IH b show ?case by (auto intro: halves)
qed

lemma nibble_hex: "n < 16 \<Longrightarrow> is_lower_hex [nibble n]"
  by (simp add: is_lower_hex_def nibble_def is_ascii_digit_def is_between_def word_less_nat_alt of_char_of
      unat_sub word_le_nat_alt take_bit_eq_mod)

lemma lower_hex_is_hex: "is_lower_hex (lower_hex bs)"
proof (induction bs)
  case Nil
  then show ?case by (simp add: is_lower_hex_def)
next
  case (Cons b bs)
  then show ?case
    using nibble_hex [OF half_small(1) [of b]] nibble_hex [OF half_small(2) [of b]]
    by (simp add: lower_hex_Cons is_lower_hex_def)
qed

lemma sha256_hex_is_content_hash: "length (sha s) = 32 \<Longrightarrow> is_content_hash (sha256_hex sha s)"
  by (simp add: is_content_hash_def sha256_hex_def lower_hex_is_hex)

end
