(* ===== verification/Storage_Chain.thy ===== *)
theory Storage_Chain
  imports Identifiers
begin

text \<open>
  The log in SQLite and each run's hash chain over its rows (\<open>storage/src/store.rs\<close>,
  \<open>storage/src/store/chain.rs\<close>). The events table is its rows by run and position, in the order a query
  reads them, and a transaction is one step. SHA-256, the JSON of a payload and the text of a time are
  parameters. The properties show that an append keeps a chain intact and leaves what was stored, that
  the log reads back what was appended, and that two logs whose verified chains end on one head hold
  the same rows, unless SHA-256 gives one digest to two inputs the chains hash.
\<close>

section \<open>The tables\<close>

record stored_row =
  row_seq :: int
  row_ts :: string
  row_node_id :: "string option"
  row_kind :: string
  row_payload_json :: string
  row_schema_version :: u32
  row_event_hash :: "string option"

record log_db =
  db_events :: "(run_id, stored_row list) omap"
  db_heads :: "(run_id, int \<times> string) omap"

definition rows_of :: "log_db \<Rightarrow> run_id \<Rightarrow> stored_row list" where
  "rows_of db run = unwrap_or (om_get (db_events db) run) []"

definition insert_row :: "run_id \<Rightarrow> stored_row \<Rightarrow> log_db \<Rightarrow> log_db" where
  "insert_row run r db = db\<lparr>db_events := om_entry [] run (insort_key row_seq r) (db_events db)\<rparr>"

definition move_head :: "run_id \<Rightarrow> int \<Rightarrow> string \<Rightarrow> log_db \<Rightarrow> log_db" where
  "move_head run s h db = db\<lparr>db_heads := om_put run (s, h) (db_heads db)\<rparr>"

datatype storage_error =
    SE_Append run_id
  | SE_Serialize run_id
  | SE_CorruptPayload run_id seq event_shape_error
  | SE_CorruptJson run_id seq
  | SE_CorruptTimestamp run_id seq
  | SE_CorruptNodeId run_id seq
  | SE_CorruptSeq run_id
  | SE_CorruptRunId
  | SE_GenesisMissing run_id
  | SE_VerifyUnknownRun run_id
  | SE_CorruptGenesis run_id

section \<open>The hash of a row\<close>

definition int_text :: "int \<Rightarrow> string" where
  "int_text i = (if i < 0 then ''-'' @ nat_text (nat (- i)) else nat_text (nat i))"

record chain_hash_fields =
  chf_prev_hash :: string
  chf_run_id :: string
  chf_seq :: int
  chf_ts :: string
  chf_node_id :: "string option"
  chf_kind :: string
  chf_payload_json :: string
  chf_schema_version :: u32

text \<open>A field as it is hashed: its length, a colon, its bytes and a semicolon.\<close>

definition framed :: "string \<Rightarrow> string" where
  "framed field = nat_text (length field) @ '':'' @ field @ '';''"

definition chain_fields :: "chain_hash_fields \<Rightarrow> string list" where
  "chain_fields f =
     [chf_run_id f, int_text (chf_seq f), chf_ts f, unwrap_or (chf_node_id f) '''', chf_kind f,
      chf_payload_json f, nat_text (unat (chf_schema_version f))]"

definition chain_input :: "chain_hash_fields \<Rightarrow> string" where
  "chain_input f = chf_prev_hash f @ concat (map framed (chain_fields f))"

definition chain_hash :: "(string \<Rightarrow> byte list) \<Rightarrow> chain_hash_fields \<Rightarrow> content_hash" where
  "chain_hash sha f = sha256_hex sha (chain_input f)"

definition genesis_hash :: "(string \<Rightarrow> byte list) \<Rightarrow> string \<Rightarrow> content_hash" where
  "genesis_hash sha manifest_hash = sha256_hex sha manifest_hash"

section \<open>Appending\<close>

text \<open>\<open>SELECT COALESCE(MAX(seq), 0) + 1\<close>.\<close>

definition next_seq :: "log_db \<Rightarrow> run_id \<Rightarrow> int" where
  "next_seq db run =
     (case map row_seq (rows_of db run) of [] \<Rightarrow> 0 | s # ss \<Rightarrow> foldl max s ss) + 1"

definition previous_hash ::
  "(string \<Rightarrow> byte list) \<Rightarrow> log_db \<Rightarrow> event_draft \<Rightarrow> int \<Rightarrow> storage_error + string" where
  "previous_hash sha db d s =
     (if s = 1
      then case ed_payload d of
             Run_Payload (Run_Created created) \<Rightarrow> Inr (genesis_hash sha (rc_manifest_hash created))
           | _ \<Rightarrow> Inl (SE_GenesisMissing (ed_run_id d))
      else case List.find (\<lambda>r. row_seq r = s - 1) (rows_of db (ed_run_id d)) of
             None \<Rightarrow> Inl (SE_Append (ed_run_id d))
           | Some r \<Rightarrow> Inr (unwrap_or (row_event_hash r) ''''))"

definition drafted_row ::
  "(string \<Rightarrow> byte list) \<Rightarrow> event_draft \<Rightarrow> string \<Rightarrow> int \<Rightarrow> string \<Rightarrow> string \<Rightarrow> stored_row" where
  "drafted_row sha d prev s ts json =
     \<lparr>row_seq = s, row_ts = ts, row_node_id = ed_node_id d, row_kind = payload_kind (ed_payload d),
      row_payload_json = json, row_schema_version = kind_version,
      row_event_hash = Some (chain_hash sha
        \<lparr>chf_prev_hash = prev, chf_run_id = ed_run_id d, chf_seq = s, chf_ts = ts,
         chf_node_id = ed_node_id d, chf_kind = payload_kind (ed_payload d),
         chf_payload_json = json, chf_schema_version = kind_version\<rparr>)\<rparr>"

text \<open>The transaction of an append, and what it answers: the log unchanged where it is refused.\<close>

definition append_at ::
  "(string \<Rightarrow> byte list) \<Rightarrow> (event_payload \<Rightarrow> string option) \<Rightarrow> (instant \<Rightarrow> string) \<Rightarrow>
     event_draft \<Rightarrow> instant \<Rightarrow> log_db \<Rightarrow> log_db \<times> (storage_error + seq)" where
  "append_at sha json_of rfc3339 d now db =
     (let run = ed_run_id d; s = next_seq db run
      in case json_of (ed_payload d) of
           None \<Rightarrow> (db, Inl (SE_Serialize run))
         | Some json \<Rightarrow>
             (case previous_hash sha db d s of
                Inl e \<Rightarrow> (db, Inl e)
              | Inr prev \<Rightarrow>
                  let r = drafted_row sha d prev s (rfc3339 now) json;
                      db' = move_head run s (unwrap_or (row_event_hash r) '''') (insert_row run r db)
                  in (db', (case seq_of_i64 s of None \<Rightarrow> Inl (SE_CorruptSeq run) | Some q \<Rightarrow> Inr q))))"

section \<open>Reading\<close>

text \<open>\<open>parse_json\<close> reads a JSON text: \<open>None\<close> where it is not one, \<open>Some None\<close> where it is not an object.\<close>

definition event_of_row ::
  "(string \<Rightarrow> json_object option option) \<Rightarrow> (json_object \<Rightarrow> event_payload option) \<Rightarrow> (string \<Rightarrow> instant option) \<Rightarrow>
     run_id \<Rightarrow> stored_row \<Rightarrow> storage_error + stored_event" where
  "event_of_row parse_json read_known parse_ts run r =
     (case seq_of_i64 (row_seq r) of
        None \<Rightarrow> Inl (SE_CorruptSeq run)
      | Some s \<Rightarrow>
          (case parse_json (row_payload_json r) of
             None \<Rightarrow> Inl (SE_CorruptJson run s)
           | Some None \<Rightarrow> Inl (SE_CorruptPayload run s NotAnObject)
           | Some (Some obj) \<Rightarrow>
               (case body_from_object read_known obj (row_schema_version r) of
                  Inl e \<Rightarrow> Inl (SE_CorruptPayload run s e)
                | Inr body \<Rightarrow>
                    (case parse_ts (row_ts r) of
                       None \<Rightarrow> Inl (SE_CorruptTimestamp run s)
                     | Some t \<Rightarrow>
                         if is_none_or (row_node_id r) is_node_id
                         then Inr \<lparr>ev_run_id = run, ev_seq = s, ev_timestamp = t,
                                   ev_node_id = row_node_id r, ev_body = body\<rparr>
                         else Inl (SE_CorruptNodeId run s)))))"

fun events_of_rows ::
  "(stored_row \<Rightarrow> storage_error + stored_event) \<Rightarrow> stored_row list \<Rightarrow> storage_error + stored_event list" where
  "events_of_rows read [] = Inr []"
| "events_of_rows read (r # rs) =
     (case read r of
        Inl e \<Rightarrow> Inl e
      | Inr ev \<Rightarrow> (case events_of_rows read rs of Inl e \<Rightarrow> Inl e | Inr evs \<Rightarrow> Inr (ev # evs)))"

definition events_for_run ::
  "(string \<Rightarrow> json_object option option) \<Rightarrow> (json_object \<Rightarrow> event_payload option) \<Rightarrow> (string \<Rightarrow> instant option) \<Rightarrow>
     log_db \<Rightarrow> run_id \<Rightarrow> storage_error + stored_event list" where
  "events_for_run parse_json read_known parse_ts db run =
     events_of_rows (event_of_row parse_json read_known parse_ts run) (rows_of db run)"

definition purge_run :: "run_id \<Rightarrow> log_db \<Rightarrow> log_db \<times> nat" where
  "purge_run run db =
     (db\<lparr>db_events := om_del run (db_events db), db_heads := om_del run (db_heads db)\<rparr>,
      length (rows_of db run))"

section \<open>Verifying a chain\<close>

datatype chain_verification = Intact nat | Chain_Broken seq string

definition row_fields :: "run_id \<Rightarrow> string \<Rightarrow> stored_row \<Rightarrow> chain_hash_fields" where
  "row_fields run prev r =
     \<lparr>chf_prev_hash = prev, chf_run_id = run, chf_seq = row_seq r, chf_ts = row_ts r,
      chf_node_id = row_node_id r, chf_kind = row_kind r, chf_payload_json = row_payload_json r,
      chf_schema_version = row_schema_version r\<rparr>"

text \<open>\<open>manifest_of\<close> is the \<open>manifest_hash\<close> field of a payload's JSON, when it has one.\<close>

definition genesis_from_first_row ::
  "(string \<Rightarrow> byte list) \<Rightarrow> (string \<Rightarrow> string option) \<Rightarrow> run_id \<Rightarrow> stored_row \<Rightarrow> storage_error + string" where
  "genesis_from_first_row sha manifest_of run r =
     (if row_kind r \<noteq> ''run_created'' then Inl (SE_GenesisMissing run)
      else case manifest_of (row_payload_json r) of
             None \<Rightarrow> Inl (SE_CorruptGenesis run)
           | Some m \<Rightarrow> Inr (genesis_hash sha m))"

fun genesis_error_text :: "storage_error \<Rightarrow> string" where
  "genesis_error_text (SE_GenesisMissing run) =
     ''run '' @ tick run @ '': the first event of a run must be `run_created`; the hash chain's ''
       @ ''genesis is derived from its manifest_hash''"
| "genesis_error_text (SE_CorruptGenesis run) =
     ''run '' @ tick run @ '': its `run_created` has no readable manifest_hash, so there is no ''
       @ ''chain genesis''"
| "genesis_error_text _ = ''''"

definition judge_row ::
  "(string \<Rightarrow> byte list) \<Rightarrow> (string \<Rightarrow> string option) \<Rightarrow> run_id \<Rightarrow> stored_row \<Rightarrow> nat \<Rightarrow> string option \<Rightarrow>
     storage_error + chain_verification option" where
  "judge_row sha manifest_of run r verified prev =
     (let expected = int verified + 1
      in case seq_of_i64 (row_seq r) of
           None \<Rightarrow> Inl (SE_CorruptSeq run)
         | Some s \<Rightarrow>
             if row_seq r \<noteq> expected
             then Inr (Some (Chain_Broken s (''expected seq '' @ int_text expected @ '' but found ''
               @ int_text (row_seq r) @ '': an event was deleted, inserted or reordered'')))
             else case row_event_hash r of
               None \<Rightarrow> Inr (Some (Chain_Broken s ''event has no stored hash (written before the chain existed)''))
             | Some stored \<Rightarrow>
                 (case (case prev of
                          Some p \<Rightarrow> Inr p
                        | None \<Rightarrow> genesis_from_first_row sha manifest_of run r) of
                    Inl e \<Rightarrow> Inr (Some (Chain_Broken s (genesis_error_text e)))
                  | Inr anchor \<Rightarrow>
                      if chain_hash sha (row_fields run anchor r) \<noteq> stored
                      then Inr (Some (Chain_Broken s (''stored hash does not match the recomputed ''
                        @ ''chain: the event or its predecessor's hash was altered'')))
                      else Inr None))"

text \<open>The walk over the rows: the first verdict that is not good, or how many were verified and the hash
  of the last.\<close>

fun walk_rows ::
  "(string \<Rightarrow> byte list) \<Rightarrow> (string \<Rightarrow> string option) \<Rightarrow> run_id \<Rightarrow> stored_row list \<Rightarrow> nat \<Rightarrow> string option \<Rightarrow>
     storage_error + chain_verification + nat \<times> string option" where
  "walk_rows sha manifest_of run [] verified prev = Inr (Inr (verified, prev))"
| "walk_rows sha manifest_of run (r # rs) verified prev =
     (case judge_row sha manifest_of run r verified prev of
        Inl e \<Rightarrow> Inl e
      | Inr (Some verdict) \<Rightarrow> Inr (Inl verdict)
      | Inr None \<Rightarrow> walk_rows sha manifest_of run rs (Suc verified) (row_event_hash r))"

definition judge_head ::
  "run_id \<Rightarrow> (int \<times> string) option \<Rightarrow> nat \<Rightarrow> string option \<Rightarrow> storage_error + chain_verification" where
  "judge_head run head verified last_hash =
     (let final = int verified
      in case seq_of_i64 final of
           None \<Rightarrow> Inl (SE_CorruptSeq run)
         | Some last_seq \<Rightarrow>
             (case head of
                None \<Rightarrow> Inr (Chain_Broken last_seq ''no stored head: written before heads were anchored'')
              | Some (s, h) \<Rightarrow>
                  if s = final \<and> Some h = last_hash then Inr (Intact verified)
                  else if s > final
                  then (case seq_of_i64 s of
                          None \<Rightarrow> Inl (SE_CorruptSeq run)
                        | Some q \<Rightarrow> Inr (Chain_Broken q (''the log ends at seq '' @ int_text final
                            @ '', its stored head is seq '' @ int_text s @ '': the tail was deleted'')))
                  else Inr (Chain_Broken last_seq ''the stored head does not name the last event'')))"

definition verify_chain ::
  "(string \<Rightarrow> byte list) \<Rightarrow> (string \<Rightarrow> string option) \<Rightarrow> log_db \<Rightarrow> run_id \<Rightarrow> storage_error + chain_verification" where
  "verify_chain sha manifest_of db run =
     (case walk_rows sha manifest_of run (rows_of db run) 0 None of
        Inl e \<Rightarrow> Inl e
      | Inr (Inl verdict) \<Rightarrow> Inr verdict
      | Inr (Inr (verified, prev)) \<Rightarrow>
          if verified = 0 then Inl (SE_VerifyUnknownRun run)
          else judge_head run (om_get (db_heads db) run) verified prev)"

section \<open>What an intact chain is\<close>

text \<open>Every row stands at its position, and its hash is over the one before it, or over the genesis.\<close>

fun linked ::
  "(string \<Rightarrow> byte list) \<Rightarrow> run_id \<Rightarrow> string \<Rightarrow> int \<Rightarrow> stored_row list \<Rightarrow> bool" where
  "linked sha run anchor s [] = True"
| "linked sha run anchor s (r # rs) =
     (row_seq r = s \<and> row_event_hash r = Some (chain_hash sha (row_fields run anchor r))
      \<and> linked sha run (chain_hash sha (row_fields run anchor r)) (s + 1) rs)"

lemma judge_row_good:
  "judge_row sha mf run r n (Some p) = Inr None \<longleftrightarrow>
     row_seq r = int n + 1 \<and> row_event_hash r = Some (chain_hash sha (row_fields run p r))"
  by (auto simp: judge_row_def seq_of_i64_def Let_def split: option.splits if_splits)

lemma judge_first_good:
  "judge_row sha mf run r n None = Inr None \<longleftrightarrow>
     (\<exists>g. genesis_from_first_row sha mf run r = Inr g
        \<and> row_seq r = int n + 1 \<and> row_event_hash r = Some (chain_hash sha (row_fields run g r)))"
  by (auto simp: judge_row_def seq_of_i64_def Let_def split: option.splits if_splits sum.splits)

definition last_hash_of :: "string \<Rightarrow> stored_row list \<Rightarrow> string" where
  "last_hash_of anchor rs = (if rs = [] then anchor else unwrap_or (row_event_hash (last rs)) '''')"

lemma walk_linked:
  "walk_rows sha mf run rs n (Some p) = Inr (Inr (m, h)) \<longleftrightarrow>
     linked sha run p (int n + 1) rs \<and> m = n + length rs \<and> h = Some (last_hash_of p rs)"
proof (induction rs arbitrary: n p)
  case Nil
  then show ?case by (auto simp: last_hash_of_def)
next
  case (Cons r rs)
  show ?case
  proof (cases "judge_row sha mf run r n (Some p) = Inr None")
    case True
    then have r: "row_seq r = int n + 1" "row_event_hash r = Some (chain_hash sha (row_fields run p r))"
      by (simp_all add: judge_row_good)
    have "last_hash_of (chain_hash sha (row_fields run p r)) rs = last_hash_of p (r # rs)"
      by (simp add: last_hash_of_def r(2))
    with True Cons.IH [of "Suc n" "chain_hash sha (row_fields run p r)"] r show ?thesis
      by (auto simp: add.commute)
  next
    case False
    then have "\<not> linked sha run p (int n + 1) (r # rs)" by (auto simp: judge_row_good)
    moreover have "walk_rows sha mf run (r # rs) n (Some p) \<noteq> Inr (Inr (m, h))"
      using False by (auto split: sum.splits option.splits)
    ultimately show ?thesis by blast
  qed
qed

definition chained :: "(string \<Rightarrow> byte list) \<Rightarrow> (string \<Rightarrow> string option) \<Rightarrow> run_id \<Rightarrow> stored_row list \<Rightarrow> bool" where
  "chained sha mf run rs \<longleftrightarrow>
     rs \<noteq> [] \<and> (\<exists>g. genesis_from_first_row sha mf run (hd rs) = Inr g \<and> linked sha run g 1 rs)"

lemma walk_chained:
  "walk_rows sha mf run rs 0 None = Inr (Inr (m, h)) \<longleftrightarrow>
     (if rs = [] then m = 0 \<and> h = None
      else chained sha mf run rs \<and> m = length rs \<and> h = Some (last_hash_of '''' rs))"
proof (cases rs)
  case (Cons r rest)
  show ?thesis
  proof (cases "judge_row sha mf run r 0 None = Inr None")
    case True
    then obtain g where g: "genesis_from_first_row sha mf run r = Inr g" "row_seq r = 1"
      "row_event_hash r = Some (chain_hash sha (row_fields run g r))"
      by (auto simp: judge_first_good)
    have "last_hash_of (chain_hash sha (row_fields run g r)) rest = last_hash_of '''' rs"
      by (simp add: last_hash_of_def Cons g(3))
    with True g show ?thesis
      using walk_linked [of sha mf run rest 1 "chain_hash sha (row_fields run g r)" m h]
      by (auto simp: Cons chained_def)
  next
    case False
    then have "\<not> chained sha mf run rs" by (auto simp: Cons chained_def judge_first_good)
    moreover have "walk_rows sha mf run rs 0 None \<noteq> Inr (Inr (m, h))"
      using False by (auto simp: Cons split: sum.splits option.splits)
    ultimately show ?thesis by (simp add: Cons)
  qed
qed auto

lemma judge_head_intact:
  "judge_head run head n (Some h) = Inr (Intact m) \<longleftrightarrow> 0 < n \<and> m = n \<and> head = Some (int n, h)"
  by (auto simp: judge_head_def seq_of_i64_def Let_def split: option.splits prod.splits if_splits)

lemma chained_not_empty: "chained sha mf run rs \<Longrightarrow> rs \<noteq> []"
  by (simp add: chained_def)

lemma verify_chain_walked:
  assumes "chained sha mf run (rows_of db run)"
  shows "verify_chain sha mf db run =
     judge_head run (om_get (db_heads db) run) (length (rows_of db run)) (Some (last_hash_of '''' (rows_of db run)))"
  using walk_chained [of sha mf run "rows_of db run" "length (rows_of db run)"
      "Some (last_hash_of '''' (rows_of db run))"] assms chained_not_empty [OF assms]
  by (simp add: verify_chain_def)

lemma verify_chain_intact:
  "verify_chain sha mf db run = Inr (Intact n) \<longleftrightarrow>
     chained sha mf run (rows_of db run) \<and> n = length (rows_of db run)
     \<and> om_get (db_heads db) run = Some (int n, last_hash_of '''' (rows_of db run))"
proof (cases "chained sha mf run (rows_of db run)")
  case True
  then show ?thesis
    using chained_not_empty [OF True] by (auto simp: verify_chain_walked judge_head_intact)
next
  case False
  have "walk_rows sha mf run (rows_of db run) 0 None \<noteq> Inr (Inr (Suc m, h))" for m h
    using False walk_chained [of sha mf run "rows_of db run" "Suc m" h] by auto
  moreover have "walk_rows sha mf run rs k p \<noteq> Inr (Inl (Intact n))" for rs k p
    by (induction sha mf run rs k p rule: walk_rows.induct)
      (auto simp: judge_row_def Let_def split: option.splits sum.splits if_splits)
  ultimately have "verify_chain sha mf db run \<noteq> Inr (Intact n)"
    by (auto simp: verify_chain_def gr0_conv_Suc dest!: not0_implies_Suc split: sum.splits prod.splits if_splits)
  with False show ?thesis by blast
qed

section \<open>What a hash covers\<close>

lemma nat_text_digits: "c \<in> set (nat_text n) \<Longrightarrow> is_ascii_digit c"
proof (induction n rule: nat_text.induct)
  case (1 n)
  have digit: "is_ascii_digit (char_of (48 + k))" if "k < 10" for k :: nat
    using that by (simp add: is_ascii_digit_def is_between_def of_char_of take_bit_eq_mod)
  from "1.prems" show ?case
    by (subst (asm) nat_text.simps) (auto split: if_splits intro: digit "1.IH")
qed

definition text_nat :: "string \<Rightarrow> nat" where
  "text_nat = foldl (\<lambda>n c. 10 * n + (of_char c - 48)) 0"

lemma text_nat_text: "text_nat (nat_text n) = n"
proof (induction n rule: nat_text.induct)
  case (1 n)
  have "of_char (char_of (48 + k) :: char) - 48 = k" if "k < 10" for k :: nat
    using that by (simp add: of_char_of take_bit_eq_mod)
  with 1 show ?case by (subst nat_text.simps) (auto simp: text_nat_def)
qed

lemma nat_text_inj: "nat_text a = nat_text b \<longleftrightarrow> a = b"
  by (metis text_nat_text)

lemma int_text_inj: "int_text a = int_text b \<longleftrightarrow> a = b"
proof -
  have signed: "nat_text n \<noteq> ''-'' @ nat_text m" for n m
    using nat_text_digits [of "CHR ''-''" n]
    by (force simp: is_ascii_digit_def is_between_def)
  note signed [symmetric]
  with signed show ?thesis by (auto simp: int_text_def nat_text_inj)
qed

lemma framed_inj: "framed a @ x = framed b @ y \<longleftrightarrow> a = b \<and> x = y"
proof
  have colon: "CHR '':'' \<notin> set (nat_text n)" for n
    using nat_text_digits [of "CHR '':''" n] by (auto simp: is_ascii_digit_def is_between_def)
  assume "framed a @ x = framed b @ y"
  then have "nat_text (length a) @ CHR '':'' # (a @ '';'' @ x) = nat_text (length b) @ CHR '':'' # (b @ '';'' @ y)"
    by (simp add: framed_def)
  then have "Some (nat_text (length a), a @ '';'' @ x) = Some (nat_text (length b), b @ '';'' @ y)"
    using split_once_char [OF colon] by metis
  then have "length a = length b" "a @ '';'' @ x = b @ '';'' @ y" by (simp_all add: nat_text_inj)
  then show "a = b \<and> x = y" by simp
qed simp

lemma framed_fields_inj:
  "length as = length bs \<Longrightarrow> concat (map framed as) = concat (map framed bs) \<longleftrightarrow> as = bs"
  by (induction as bs rule: list_induct2) (simp_all add: framed_inj)

text \<open>Two rows a hash does not tell apart: equal, but for a node that is missing and one that is empty.\<close>

definition row_agrees :: "stored_row \<Rightarrow> stored_row \<Rightarrow> bool" where
  "row_agrees r q \<longleftrightarrow>
     r\<lparr>row_node_id := None\<rparr> = q\<lparr>row_node_id := None\<rparr>
   \<and> unwrap_or (row_node_id r) '''' = unwrap_or (row_node_id q) ''''"

lemma chain_input_inj:
  assumes "length p = length q"
  shows "chain_input (row_fields run p r) = chain_input (row_fields run q s) \<longleftrightarrow>
     p = q \<and> row_agrees (r\<lparr>row_event_hash := None\<rparr>) (s\<lparr>row_event_hash := None\<rparr>)"
proof -
  have "chain_input (row_fields run p r) = chain_input (row_fields run q s) \<longleftrightarrow>
      p = q \<and> concat (map framed (chain_fields (row_fields run p r)))
             = concat (map framed (chain_fields (row_fields run q s)))"
    using assms by (simp add: chain_input_def row_fields_def)
  also have "\<dots> \<longleftrightarrow> p = q \<and> chain_fields (row_fields run p r) = chain_fields (row_fields run q s)"
    by (subst framed_fields_inj) (simp_all add: chain_fields_def)
  also have "\<dots> \<longleftrightarrow> p = q \<and> row_agrees (r\<lparr>row_event_hash := None\<rparr>) (s\<lparr>row_event_hash := None\<rparr>)"
    by (cases r; cases s) (auto simp: chain_fields_def row_fields_def row_agrees_def int_text_inj nat_text_inj word_unat_eq_iff)
  finally show ?thesis .
qed

section \<open>Two chains that end on one hash\<close>

text \<open>What a chain hashes, row by row, and two inputs one digest stands for.\<close>

fun hashed_inputs :: "(string \<Rightarrow> byte list) \<Rightarrow> run_id \<Rightarrow> string \<Rightarrow> stored_row list \<Rightarrow> string list" where
  "hashed_inputs sha run anchor [] = []"
| "hashed_inputs sha run anchor (r # rs) =
     chain_input (row_fields run anchor r)
       # hashed_inputs sha run (chain_hash sha (row_fields run anchor r)) rs"

definition collide :: "(string \<Rightarrow> byte list) \<Rightarrow> string list \<Rightarrow> string list \<Rightarrow> bool" where
  "collide sha xs ys = list_ex (\<lambda>x. list_ex (\<lambda>y. x \<noteq> y \<and> sha x = sha y) ys) xs"

lemma length_chain_hash: "(\<And>x. length (sha x) = 32) \<Longrightarrow> length (chain_hash sha f) = 64"
  by (simp add: chain_hash_def sha256_hex_def)

lemma linked_pinned:
  assumes digest: "\<And>x. length (sha x) = 32"
  shows "length rs = length qs \<Longrightarrow> linked sha run a k rs \<Longrightarrow> linked sha run b k qs \<Longrightarrow>
    length a = 64 \<Longrightarrow> length b = 64 \<Longrightarrow> last_hash_of a rs = last_hash_of b qs \<Longrightarrow>
    a = b \<and> list_all2 row_agrees rs qs \<or> collide sha (hashed_inputs sha run a rs) (hashed_inputs sha run b qs)"
proof (induction rs qs arbitrary: a b k rule: list_induct2)
  case Nil
  then show ?case by (simp add: last_hash_of_def)
next
  case (Cons r rs q qs)
  let ?h = "chain_hash sha (row_fields run a r)" and ?g = "chain_hash sha (row_fields run b q)"
  have hashes: "row_event_hash r = Some ?h" "row_event_hash q = Some ?g" using Cons.prems by simp_all
  have "last_hash_of ?h rs = last_hash_of ?g qs"
    using Cons.prems(5) Cons.hyps hashes by (simp add: last_hash_of_def split: if_splits)
  with Cons.IH [of ?h "k + 1" ?g] Cons.prems digest
  consider (tail) "?h = ?g" "list_all2 row_agrees rs qs"
    | (collided) "collide sha (hashed_inputs sha run ?h rs) (hashed_inputs sha run ?g qs)"
    by (auto simp: length_chain_hash)
  then show ?case
  proof cases
    case tail
    then have same: "sha (chain_input (row_fields run a r)) = sha (chain_input (row_fields run b q))"
      by (auto simp: chain_hash_def sha256_hex_def dest: lower_hex_inj)
    show ?thesis
    proof (cases "chain_input (row_fields run a r) = chain_input (row_fields run b q)")
      case True
      with Cons.prems(3,4) have "a = b" "row_agrees (r\<lparr>row_event_hash := None\<rparr>) (q\<lparr>row_event_hash := None\<rparr>)"
        by (simp_all add: chain_input_inj)
      then have "row_agrees r q"
        using hashes tail(1) by (cases r; cases q) (simp add: row_agrees_def)
      with tail(2) \<open>a = b\<close> show ?thesis by simp
    next
      case False
      with same show ?thesis by (auto simp: collide_def)
    qed
  next
    case collided
    then show ?thesis by (auto simp: collide_def list_ex_iff)
  qed
qed

lemma genesis_length: "(\<And>x. length (sha x) = 32) \<Longrightarrow> genesis_from_first_row sha mf run r = Inr g \<Longrightarrow> length g = 64"
  by (auto simp: genesis_from_first_row_def genesis_hash_def sha256_hex_def split: if_splits option.splits)

text \<open>What the verified chain of a run hashes.\<close>

definition chain_inputs ::
  "(string \<Rightarrow> byte list) \<Rightarrow> (string \<Rightarrow> string option) \<Rightarrow> log_db \<Rightarrow> run_id \<Rightarrow> string list" where
  "chain_inputs sha mf db run =
     (case rows_of db run of
        [] \<Rightarrow> []
      | r # rs \<Rightarrow>
          (case genesis_from_first_row sha mf run r of
             Inl _ \<Rightarrow> []
           | Inr g \<Rightarrow> hashed_inputs sha run g (r # rs)))"

lemma head_agrees:
  assumes "\<And>x. length (sha x) = 32"
    and "verify_chain sha manifest_of db run = Inr (Intact n)"
    and "verify_chain sha manifest_of db' run = Inr (Intact n')"
    and "om_get (db_heads db) run = om_get (db_heads db') run"
  shows "list_all2 row_agrees (rows_of db run) (rows_of db' run)
       \<or> collide sha (chain_inputs sha manifest_of db run) (chain_inputs sha manifest_of db' run)"
proof -
  let ?rs = "rows_of db run" and ?qs = "rows_of db' run"
  obtain g h where chains: "?rs \<noteq> []" "?qs \<noteq> []" "linked sha run g 1 ?rs" "linked sha run h 1 ?qs"
    and anchors: "genesis_from_first_row sha manifest_of run (hd ?rs) = Inr g"
      "genesis_from_first_row sha manifest_of run (hd ?qs) = Inr h"
    using assms(2,3) by (auto simp: verify_chain_intact chained_def)
  have "length ?rs = length ?qs" "last_hash_of g ?rs = last_hash_of h ?qs"
    using assms(2-4) chains(1,2) by (auto simp: verify_chain_intact last_hash_of_def)
  from linked_pinned [OF assms(1) this(1) chains(3,4) genesis_length [OF assms(1) anchors(1)]
      genesis_length [OF assms(1) anchors(2)] this(2)]
  have "list_all2 row_agrees ?rs ?qs \<or> collide sha (hashed_inputs sha run g ?rs) (hashed_inputs sha run h ?qs)"
    by blast
  moreover have "chain_inputs sha manifest_of db run = hashed_inputs sha run g ?rs"
    using anchors(1) chains(1) by (auto simp: chain_inputs_def neq_Nil_conv)
  moreover have "chain_inputs sha manifest_of db' run = hashed_inputs sha run h ?qs"
    using anchors(2) chains(2) by (auto simp: chain_inputs_def neq_Nil_conv)
  ultimately show ?thesis by simp
qed

lemma node_id_not_empty: "\<not> is_node_id ''''"
  by (simp add: is_node_id_def is_name_def fan_out_separator_def)

lemma read_row_node:
  "events_of_rows (event_of_row pj rk pt run) rs = Inr evs \<Longrightarrow> r \<in> set rs \<Longrightarrow> row_node_id r \<noteq> Some ''''"
proof (induction rs arbitrary: evs)
  case (Cons q rs)
  then show ?case
    by (auto simp: event_of_row_def node_id_not_empty split: sum.splits option.splits if_splits)
qed simp

lemma agreeing_rows_equal:
  "list_all2 row_agrees rs qs \<Longrightarrow> \<forall>r \<in> set rs \<union> set qs. row_node_id r \<noteq> Some '''' \<Longrightarrow> rs = qs"
proof (induction rs qs rule: list_all2_induct)
  case (Cons r rs q qs)
  have "row_node_id r = row_node_id q"
    using Cons.hyps(1) Cons.prems
    by (cases "row_node_id r"; cases "row_node_id q") (auto simp: row_agrees_def)
  with Cons.hyps(1) have "r = q" by (cases r; cases q) (simp add: row_agrees_def)
  with Cons show ?case by simp
qed simp

text \<open>C5. Two logs of a run that verify intact and end on the same stored head hold the same rows, but for
  a node that is missing in one and empty in the other, and exactly the same rows when both can be read
  back; or SHA-256 gives one digest to two inputs these chains hash.\<close>

theorem head_pins_the_log:
  assumes "\<And>x. length (sha x) = 32"
    and "verify_chain sha manifest_of db run = Inr (Intact n)"
    and "verify_chain sha manifest_of db' run = Inr (Intact n')"
    and "om_get (db_heads db) run = om_get (db_heads db') run"
  shows "list_all2 row_agrees (rows_of db run) (rows_of db' run)
       \<and> (events_for_run parse_json read_known parse_ts db run = Inr evs \<and>
          events_for_run parse_json read_known parse_ts db' run = Inr evs'
            \<longrightarrow> rows_of db run = rows_of db' run)
       \<or> collide sha (chain_inputs sha manifest_of db run) (chain_inputs sha manifest_of db' run)"
  using head_agrees [OF assms] agreeing_rows_equal [of "rows_of db run" "rows_of db' run"]
    read_row_node [of parse_json read_known parse_ts run]
  by (auto simp: events_for_run_def)

section \<open>Appending to a chain\<close>

lemma rows_of_insert:
  "rows_of (insert_row run r db) run' =
     (if run' = run then insort_key row_seq r (rows_of db run) else rows_of db run')"
  by (simp add: rows_of_def insert_row_def om_entry_def om_get_put)

lemma rows_of_move_head [simp]: "rows_of (move_head run s h db) run' = rows_of db run'"
  by (simp add: rows_of_def move_head_def)

lemma heads_of [simp]:
  "om_get (db_heads (move_head run s h db)) run' = (if run' = run then Some (s, h) else om_get (db_heads db) run')"
  "db_heads (insert_row run r db) = db_heads db"
  by (simp_all add: move_head_def insert_row_def om_get_put)

lemma insort_last: "(\<And>y. y \<in> set xs \<Longrightarrow> f y < f x) \<Longrightarrow> insort_key f x xs = xs @ [x]"
proof (induction xs)
  case (Cons a xs)
  then have "\<not> f x \<le> f a" by (simp add: not_le)
  with Cons show ?case by simp
qed simp

lemma linked_positions: "linked sha run a k rs \<Longrightarrow> map row_seq rs = map (\<lambda>i. k + int i) [0..<length rs]"
proof (induction sha run a k rs rule: linked.induct)
  case (2 sha run a k r rs)
  then show ?case by (simp add: upt_conv_Cons map_Suc_upt [symmetric] del: upt_Suc)
qed simp

lemma linked_bound: "linked sha run a k rs \<Longrightarrow> y \<in> set rs \<Longrightarrow> row_seq y < k + int (length rs)"
  by (induction sha run a k rs rule: linked.induct) auto

lemma linked_append:
  "linked sha run a k (rs @ [r]) \<longleftrightarrow> linked sha run a k rs \<and> row_seq r = k + int (length rs)
     \<and> row_event_hash r = Some (chain_hash sha (row_fields run (last_hash_of a rs) r))"
proof (induction sha run a k rs rule: linked.induct)
  case (1 sha run a k)
  then show ?case by (simp add: last_hash_of_def)
next
  case (2 sha run a k q rs)
  then show ?case by (auto simp: last_hash_of_def add.assoc)
qed

lemma foldl_max: "foldl max (a :: int) xs = Max (set (a # xs))"
proof (induction xs arbitrary: a)
  case (Cons x xs)
  then show ?case by (cases xs) (simp_all add: ac_simps)
qed simp

lemma next_after_chained:
  assumes "linked sha run a 1 (rows_of db run)"
  shows "next_seq db run = int (length (rows_of db run)) + 1"
proof (cases "rows_of db run")
  case Nil
  then show ?thesis by (simp add: next_seq_def)
next
  case (Cons r rs)
  have "set (map row_seq (rows_of db run)) = (\<lambda>i. 1 + int i) ` {0..<length (rows_of db run)}"
    using linked_positions [OF assms] by simp
  then have "Max (set (map row_seq (rows_of db run))) = int (length (rows_of db run))"
    by (intro Max_eqI) (auto simp: Cons intro!: image_eqI [of _ _ "length rs"])
  then show ?thesis by (simp add: next_seq_def Cons foldl_max del: Max.insert)
qed

text \<open>A log this binary may append to: no row yet, or an intact chain.\<close>

definition appendable ::
  "(string \<Rightarrow> byte list) \<Rightarrow> (string \<Rightarrow> string option) \<Rightarrow> log_db \<Rightarrow> run_id \<Rightarrow> bool" where
  "appendable sha mf db run \<longleftrightarrow>
     rows_of db run = [] \<or> verify_chain sha mf db run = Inr (Intact (length (rows_of db run)))"

text \<open>The JSON of \<open>run_created\<close> carries the hash of its manifest.\<close>

definition states_its_manifest :: "(event_payload \<Rightarrow> string option) \<Rightarrow> (string \<Rightarrow> string option) \<Rightarrow> bool" where
  "states_its_manifest json_of mf \<longleftrightarrow>
     (\<forall>c j. json_of (Run_Payload (Run_Created c)) = Some j \<longrightarrow> mf j = Some (rc_manifest_hash c))"

definition is_birth :: "event_payload \<Rightarrow> bool" where
  "is_birth p = (case p of Run_Payload (Run_Created _) \<Rightarrow> True | _ \<Rightarrow> False)"

lemma appendable_chained:
  assumes "appendable sha mf db run"
  shows "rows_of db run = [] \<or> chained sha mf run (rows_of db run)"
  using assms by (auto simp: appendable_def verify_chain_intact)

lemma appendable_next:
  "appendable sha mf db run \<Longrightarrow> next_seq db run = int (length (rows_of db run)) + 1"
  using appendable_chained [of sha mf db run] next_after_chained
  by (cases "rows_of db run = []") (simp add: next_seq_def, auto simp: chained_def)

lemma previous_of_chained:
  assumes "chained sha mf run (rows_of db run)" "ed_run_id d = run"
  shows "previous_hash sha db d (int (length (rows_of db run)) + 1) = Inr (last_hash_of '''' (rows_of db run))"
proof -
  let ?rs = "rows_of db run"
  obtain g where linked: "linked sha run g 1 ?rs" and some: "?rs \<noteq> []"
    using assms(1) by (auto simp: chained_def)
  have at: "row_seq (?rs ! i) = 1 + int i" if "i < length ?rs" for i
    using linked_positions [OF linked] that by (metis (no_types, lifting) diff_zero length_map length_upt nth_map nth_upt plus_nat.add_0)
  have "List.find (\<lambda>r. row_seq r = int (length ?rs)) ?rs = Some (last ?rs)"
    unfolding find_Some_iff
    by (intro exI [of _ "length ?rs - 1"]) (use some at in \<open>auto simp: last_conv_nth of_nat_diff Suc_leI\<close>)
  then show ?thesis using some by (simp add: previous_hash_def assms(2) last_hash_of_def)
qed

lemma append_answers:
  assumes "appendable sha mf db (ed_run_id d)"
  shows "snd (append_at sha json_of rfc3339 d now db) =
    (if json_of (ed_payload d) = None then Inl (SE_Serialize (ed_run_id d))
     else if rows_of db (ed_run_id d) = [] \<and> \<not> is_birth (ed_payload d) then Inl (SE_GenesisMissing (ed_run_id d))
     else Inr (Suc (length (rows_of db (ed_run_id d)))))"
proof (cases "rows_of db (ed_run_id d) = []")
  case True
  then show ?thesis
    using appendable_next [OF assms]
    by (auto simp: append_at_def previous_hash_def seq_of_i64_def is_birth_def Let_def
        split: option.splits event_payload.splits run_event.splits)
next
  case False
  with appendable_chained [OF assms] previous_of_chained [of sha mf "ed_run_id d" db d]
  show ?thesis
    using appendable_next [OF assms]
    by (auto simp: append_at_def seq_of_i64_def Let_def nat_add_distrib split: option.splits)
qed

lemma append_effect:
  assumes "appendable sha mf db (ed_run_id d)"
    and "append_at sha json_of rfc3339 d now db = (db', Inr q)"
  obtains json prev where
    "json_of (ed_payload d) = Some json" "previous_hash sha db d (int q) = Inr prev"
    "q = Suc (length (rows_of db (ed_run_id d)))"
    "db' = move_head (ed_run_id d) (int q) (chain_hash sha (row_fields (ed_run_id d) prev
             (drafted_row sha d prev (int q) (rfc3339 now) json)))
             (insert_row (ed_run_id d) (drafted_row sha d prev (int q) (rfc3339 now) json) db)"
proof -
  have q: "next_seq db (ed_run_id d) = int q" "q = Suc (length (rows_of db (ed_run_id d)))"
    using assms(2) appendable_next [OF assms(1)]
    by (auto simp: append_at_def seq_of_i64_def Let_def nat_add_distrib split: option.splits sum.splits)
  with assms(2) show thesis
    by (auto simp: append_at_def Let_def drafted_row_def row_fields_def
        intro: that split: option.splits sum.splits)
qed

lemma append_rows:
  assumes "appendable sha mf db (ed_run_id d)"
  shows "rows_of (insert_row (ed_run_id d) (drafted_row sha d prev (int (Suc (length (rows_of db (ed_run_id d))))) ts json) db) (ed_run_id d)
    = rows_of db (ed_run_id d) @ [drafted_row sha d prev (int (Suc (length (rows_of db (ed_run_id d))))) ts json]"
proof -
  let ?rs = "rows_of db (ed_run_id d)"
  have "row_seq y < int (Suc (length ?rs))" if "y \<in> set ?rs" for y
    using appendable_chained [OF assms] linked_bound [of sha "ed_run_id d" _ 1 ?rs y] that
    by (auto simp: chained_def)
  then show ?thesis by (simp add: rows_of_insert insort_last drafted_row_def)
qed

lemma append_chained:
  assumes "appendable sha mf db (ed_run_id d)" "states_its_manifest json_of mf"
    and "append_at sha json_of rfc3339 d now db = (db', Inr q)"
  shows "verify_chain sha mf db' (ed_run_id d) = Inr (Intact q)"
    and "rows_of db' (ed_run_id d) = rows_of db (ed_run_id d) @ [last (rows_of db' (ed_run_id d))]"
    and "row_node_id (last (rows_of db' (ed_run_id d))) = ed_node_id d"
    and "run' \<noteq> ed_run_id d \<Longrightarrow>
      rows_of db' run' = rows_of db run' \<and> om_get (db_heads db') run' = om_get (db_heads db) run'"
proof -
  let ?run = "ed_run_id d" and ?rs = "rows_of db (ed_run_id d)"
  obtain json prev where taken: "json_of (ed_payload d) = Some json" "previous_hash sha db d (int q) = Inr prev"
    "q = Suc (length ?rs)"
    and db': "db' = move_head ?run (int q) (chain_hash sha (row_fields ?run prev
             (drafted_row sha d prev (int q) (rfc3339 now) json)))
             (insert_row ?run (drafted_row sha d prev (int q) (rfc3339 now) json) db)"
    using append_effect [OF assms(1,3)] .
  let ?r = "drafted_row sha d prev (int q) (rfc3339 now) json"
  have rows: "rows_of db' ?run = ?rs @ [?r]"
    using append_rows [OF assms(1)] taken(3) by (simp add: db')
  have hash: "row_event_hash ?r = Some (chain_hash sha (row_fields ?run prev ?r))" "row_seq ?r = int q"
    by (simp_all add: drafted_row_def row_fields_def)
  have "chained sha mf ?run (?rs @ [?r])"
  proof (cases "?rs = []")
    case True
    then obtain c where "ed_payload d = Run_Payload (Run_Created c)" "prev = genesis_hash sha (rc_manifest_hash c)"
      using taken(2,3) by (auto simp: previous_hash_def split: event_payload.splits run_event.splits)
    then have "genesis_from_first_row sha mf ?run ?r = Inr prev"
      using taken(1) assms(2)
      by (auto simp: genesis_from_first_row_def drafted_row_def payload_kind_def states_its_manifest_def)
    with hash True taken(3) show ?thesis by (simp add: chained_def)
  next
    case False
    then have good: "chained sha mf ?run ?rs" using appendable_chained [OF assms(1)] by blast
    then have "prev = last_hash_of '''' ?rs"
      using previous_of_chained [OF good refl] taken(2,3) by (simp add: add.commute)
    then have "prev = last_hash_of g ?rs" for g using False by (simp add: last_hash_of_def)
    with good hash taken(3) False show ?thesis by (auto simp: chained_def linked_append)
  qed
  then show "verify_chain sha mf db' ?run = Inr (Intact q)"
    using rows taken(3) hash by (simp add: verify_chain_intact last_hash_of_def) (simp add: db')
  show "rows_of db' ?run = ?rs @ [last (rows_of db' ?run)]" by (simp add: rows)
  show "row_node_id (last (rows_of db' ?run)) = ed_node_id d" by (simp add: rows drafted_row_def)
  show "run' \<noteq> ?run \<Longrightarrow> rows_of db' run' = rows_of db run' \<and> om_get (db_heads db') run' = om_get (db_heads db) run'"
    by (simp add: db' rows_of_insert)
qed

text \<open>C6. Appending to an intact log, or giving birth to a run, leaves an intact log one event longer,
  the rows before it and every other run's as they were.\<close>

theorem append_keeps_the_chain:
  assumes "appendable sha manifest_of db (ed_run_id d)" "states_its_manifest json_of manifest_of"
    and "append_at sha json_of rfc3339 d now db = (db', Inr q)"
  shows "verify_chain sha manifest_of db' (ed_run_id d) = Inr (Intact q)
       \<and> q = Suc (length (rows_of db (ed_run_id d)))
       \<and> butlast (rows_of db' (ed_run_id d)) = rows_of db (ed_run_id d)
       \<and> (\<forall>run. run \<noteq> ed_run_id d \<longrightarrow>
            rows_of db' run = rows_of db run \<and> om_get (db_heads db') run = om_get (db_heads db) run)"
proof -
  have "butlast (rows_of db' (ed_run_id d)) = rows_of db (ed_run_id d)"
    by (subst append_chained(2) [OF assms]) simp
  moreover have "q = Suc (length (rows_of db (ed_run_id d)))"
    using append_effect [OF assms(1,3)] by metis
  ultimately show ?thesis using append_chained(1,4) [OF assms] by blast
qed

text \<open>An append to a log that may be appended to is refused only when its payload cannot be written,
  or when the run's first event is not its birth.\<close>

lemma append_refusals:
  assumes "appendable sha manifest_of db (ed_run_id d)"
  shows "snd (append_at sha json_of rfc3339 d now db) =
    (if json_of (ed_payload d) = None then Inl (SE_Serialize (ed_run_id d))
     else if rows_of db (ed_run_id d) = [] \<and> \<not> is_birth (ed_payload d) then Inl (SE_GenesisMissing (ed_run_id d))
     else Inr (Suc (length (rows_of db (ed_run_id d)))))"
  by (rule append_answers [OF assms])

section \<open>A tail that is gone\<close>

definition cut_tail :: "run_id \<Rightarrow> nat \<Rightarrow> log_db \<Rightarrow> log_db" where
  "cut_tail run k db = db\<lparr>db_events := om_put run (take k (rows_of db run)) (db_events db)\<rparr>"

lemma linked_take: "linked sha run a k rs \<Longrightarrow> linked sha run a k (take n rs)"
  by (induction sha run a k rs arbitrary: n rule: linked.induct) (auto simp: take_Cons split: nat.split)

text \<open>C8. A log whose last events were deleted is broken at the position of its stored head, whatever the
  hashes.\<close>

theorem deleted_tail_is_named:
  assumes "verify_chain sha manifest_of db run = Inr (Intact n)" "0 < k" "k < n"
  shows "verify_chain sha manifest_of (cut_tail run k db) run =
    Inr (Chain_Broken n (''the log ends at seq '' @ int_text (int k) @ '', its stored head is seq ''
      @ int_text (int n) @ '': the tail was deleted''))"
proof -
  let ?rs = "rows_of db run"
  have intact: "chained sha manifest_of run ?rs" "n = length ?rs"
    "om_get (db_heads db) run = Some (int n, last_hash_of '''' ?rs)"
    using assms(1) by (simp_all add: verify_chain_intact)
  have cut: "rows_of (cut_tail run k db) run = take k ?rs" "db_heads (cut_tail run k db) = db_heads db"
    by (simp_all add: rows_of_def cut_tail_def om_get_put)
  have "hd (take k ?rs) = hd ?rs" using assms(2) by (simp add: hd_take)
  then have "chained sha manifest_of run (take k ?rs)"
    using intact(1) assms(2) linked_take by (fastforce simp: chained_def)
  then show ?thesis
    using verify_chain_walked [of sha manifest_of run "cut_tail run k db"] cut intact(2,3) assms(2,3) chained_not_empty [OF intact(1)]
    by (simp add: judge_head_def seq_of_i64_def Let_def)
qed

section \<open>Reading back\<close>

text \<open>What is written reads back: the JSON of a payload names its kind, and a time its instant.\<close>

definition writes_read_back ::
  "(event_payload \<Rightarrow> string option) \<Rightarrow> (string \<Rightarrow> json_object option option) \<Rightarrow>
     (json_object \<Rightarrow> event_payload option) \<Rightarrow> (instant \<Rightarrow> string) \<Rightarrow> (string \<Rightarrow> instant option) \<Rightarrow> bool" where
  "writes_read_back json_of parse_json read_known rfc3339 parse_ts \<longleftrightarrow>
     (\<forall>p j. json_of p = Some j \<longrightarrow>
        (\<exists>obj. parse_json j = Some (Some obj) \<and> om_get obj ''kind'' = Some (J_String (payload_kind p))
             \<and> read_known obj = Some p))
   \<and> (\<forall>t. parse_ts (rfc3339 t) = Some t)"

lemma events_of_rows_append:
  "events_of_rows read (rs @ [r]) =
     (case events_of_rows read rs of
        Inl e \<Rightarrow> Inl e
      | Inr evs \<Rightarrow> (case read r of Inl e \<Rightarrow> Inl e | Inr ev \<Rightarrow> Inr (evs @ [ev])))"
  by (induction rs) (auto split: sum.splits)

lemma append_read_back:
  assumes "appendable sha manifest_of db (ed_run_id d)"
    and "writes_read_back json_of parse_json read_known rfc3339 parse_ts"
    and "is_none_or (ed_node_id d) is_node_id"
    and "append_at sha json_of rfc3339 d now db = (db', Inr q)"
    and "events_for_run parse_json read_known parse_ts db (ed_run_id d) = Inr evs"
  shows "events_for_run parse_json read_known parse_ts db' (ed_run_id d) =
    Inr (evs @ [\<lparr>ev_run_id = ed_run_id d, ev_seq = q, ev_timestamp = now, ev_node_id = ed_node_id d,
                 ev_body = Known (ed_payload d)\<rparr>])"
proof -
  let ?run = "ed_run_id d"
  obtain json prev where taken: "json_of (ed_payload d) = Some json"
    "q = Suc (length (rows_of db ?run))"
    and db': "db' = move_head ?run (int q) (chain_hash sha (row_fields ?run prev
             (drafted_row sha d prev (int q) (rfc3339 now) json)))
             (insert_row ?run (drafted_row sha d prev (int q) (rfc3339 now) json) db)"
    using append_effect [OF assms(1,4)] by metis
  let ?r = "drafted_row sha d prev (int q) (rfc3339 now) json"
  have rows: "rows_of db' ?run = rows_of db ?run @ [?r]"
    using append_rows [OF assms(1)] taken(2) by (simp add: db')
  obtain obj where obj: "parse_json json = Some (Some obj)"
    "om_get obj ''kind'' = Some (J_String (payload_kind (ed_payload d)))" "read_known obj = Some (ed_payload d)"
    using assms(2) taken(1) unfolding writes_read_back_def by metis
  have fields: "row_payload_json ?r = json" "row_schema_version ?r = kind_version"
    "row_ts ?r = rfc3339 now" "row_node_id ?r = ed_node_id d" "seq_of_i64 (row_seq ?r) = Some q"
    using taken(2) by (simp_all add: drafted_row_def seq_of_i64_def)
  have body: "body_from_object read_known obj kind_version = Inr (Known (ed_payload d))"
    using obj payload_kind_known [of "ed_payload d"] by (simp add: body_from_object_def)
  have "parse_ts (rfc3339 now) = Some now" using assms(2) by (simp add: writes_read_back_def)
  then have "event_of_row parse_json read_known parse_ts ?run ?r =
      Inr \<lparr>ev_run_id = ?run, ev_seq = q, ev_timestamp = now, ev_node_id = ed_node_id d,
           ev_body = Known (ed_payload d)\<rparr>"
    unfolding event_of_row_def fields using assms(3) obj(1) body by simp
  then show ?thesis
    using assms(5) by (simp add: events_for_run_def rows events_of_rows_append)
qed

text \<open>C7. What was appended reads back: the events read before, in their order, then the event as it was
  drafted, at the position the append answered.\<close>

theorem appended_reads_back:
  assumes "appendable sha manifest_of db (ed_run_id d)"
    and "writes_read_back json_of parse_json read_known rfc3339 parse_ts"
    and "is_none_or (ed_node_id d) is_node_id"
    and "append_at sha json_of rfc3339 d now db = (db', Inr q)"
    and "events_for_run parse_json read_known parse_ts db (ed_run_id d) = Inr evs"
  shows "events_for_run parse_json read_known parse_ts db' (ed_run_id d) =
    Inr (evs @ [\<lparr>ev_run_id = ed_run_id d, ev_seq = q, ev_timestamp = now, ev_node_id = ed_node_id d,
                 ev_body = Known (ed_payload d)\<rparr>])"
  using assms by (rule append_read_back)

section \<open>What no hash tells apart\<close>

lemma chain_hash_blank:
  "row_node_id r = None \<Longrightarrow>
     chain_hash sha (row_fields run a (r\<lparr>row_node_id := Some ''''\<rparr>)) = chain_hash sha (row_fields run a r)"
  by (simp add: chain_hash_def chain_input_def chain_fields_def row_fields_def)

lemma linked_blank:
  "row_node_id r = None \<Longrightarrow>
     linked sha run a k (pre @ r\<lparr>row_node_id := Some ''''\<rparr> # post) = linked sha run a k (pre @ r # post)"
  by (induction pre arbitrary: a k) (simp_all add: chain_hash_blank)

lemma blank_node_undetected:
  assumes "verify_chain sha mf db run = Inr (Intact n)"
    and rows: "rows_of db run = pre @ r # post" "row_node_id r = None"
  shows "verify_chain sha mf
    (db\<lparr>db_events := om_put run (pre @ r\<lparr>row_node_id := Some ''''\<rparr> # post) (db_events db)\<rparr>) run = Inr (Intact n)"
    (is "verify_chain sha mf ?db run = _")
proof -
  have rows': "rows_of ?db run = pre @ r\<lparr>row_node_id := Some ''''\<rparr> # post"
    by (simp add: rows_of_def om_get_put)
  have "genesis_from_first_row sha mf run (hd (rows_of ?db run)) = genesis_from_first_row sha mf run (hd (rows_of db run))"
    using rows rows' by (cases pre) (simp_all add: genesis_from_first_row_def)
  moreover have "last_hash_of '''' (rows_of ?db run) = last_hash_of '''' (rows_of db run)"
    using rows rows' by (simp add: last_hash_of_def)
  ultimately show ?thesis
    using assms rows' by (simp add: verify_chain_intact chained_def linked_blank)
qed

section \<open>Samples\<close>

text \<open>A stand-in for SHA-256, a log of one birth and one activation, and what each is written as.\<close>

definition toy_digest :: "string \<Rightarrow> byte list" where
  "toy_digest x = map of_char (take 32 (rev x @ replicate 32 CHR ''0''))"

definition sample_birth :: run_created where
  "sample_birth = \<lparr>rc_manifest_hash = ''m'', rc_checkout = None, rc_inputs = [], rc_mode = ''default'',
     rc_promoted_from = None, rc_yunta_schema = None, rc_base_branch = ''main'', rc_base_commit = ''c0ffee0'',
     rc_environment = None, rc_left_out = [], rc_opens_on_base = False\<rparr>"

definition birth_draft :: event_draft where
  "birth_draft = \<lparr>ed_run_id = ''r'', ed_node_id = None, ed_payload = Run_Payload (Run_Created sample_birth)\<rparr>"

definition move_draft :: event_draft where
  "move_draft = \<lparr>ed_run_id = ''r'', ed_node_id = None, ed_payload = Run_Payload (Run_Moved ''there'')\<rparr>"

definition sample_json :: "event_payload \<Rightarrow> string option" where
  "sample_json p =
     (case p of
        Run_Payload (Run_Created c) \<Rightarrow> if c = sample_birth then Some ''birth'' else None
      | Run_Payload (Run_Moved to) \<Rightarrow> if to = ''there'' then Some ''move'' else None
      | _ \<Rightarrow> None)"

definition sample_manifest :: "string \<Rightarrow> string option" where
  "sample_manifest j = (if j = ''birth'' then Some ''m'' else None)"

definition sample_parse :: "string \<Rightarrow> json_object option option" where
  "sample_parse j =
     (if j = ''birth'' then Some (Some [(''kind'', J_String ''run_created'')])
      else if j = ''move'' then Some (Some [(''kind'', J_String ''run_moved'')]) else None)"

definition sample_known :: "json_object \<Rightarrow> event_payload option" where
  "sample_known obj =
     (if om_get obj ''kind'' = Some (J_String ''run_created'') then Some (Run_Payload (Run_Created sample_birth))
      else if om_get obj ''kind'' = Some (J_String ''run_moved'') then Some (Run_Payload (Run_Moved ''there''))
      else None)"

definition empty_db :: log_db where
  "empty_db = \<lparr>db_events = [], db_heads = []\<rparr>"

definition born_log :: log_db where
  "born_log = fst (append_at toy_digest sample_json int_text birth_draft 0 empty_db)"

definition stored_log :: log_db where
  "stored_log = fst (append_at toy_digest sample_json int_text move_draft 1 born_log)"

lemma toy_digest_length: "length (toy_digest x) = 32"
  by (simp add: toy_digest_def)

lemma sample_states_manifest: "states_its_manifest sample_json sample_manifest"
  by (simp add: states_its_manifest_def sample_json_def sample_manifest_def sample_birth_def)

lemma sample_writes_known: "sample_json p = Some j \<Longrightarrow>
    \<exists>obj. sample_parse j = Some (Some obj) \<and> om_get obj ''kind'' = Some (J_String (payload_kind p))
      \<and> sample_known obj = Some p"
  by (auto simp: sample_json_def sample_parse_def sample_known_def payload_kind_def om_get_def
      split: event_payload.splits run_event.splits if_splits)

definition int_of_text :: "string \<Rightarrow> int option" where
  "int_of_text s =
     (if starts_with s ''-'' then Some (- int (text_nat (tl s))) else Some (int (text_nat s)))"

lemma int_of_text_int: "int_of_text (int_text i) = Some i"
proof (cases "i < 0")
  case False
  have "\<not> starts_with (nat_text (nat i)) ''-''"
    using nat_text_digits [of "CHR ''-''" "nat i"]
    by (cases "nat_text (nat i)") (auto simp: is_ascii_digit_def is_between_def)
  then show ?thesis using False by (simp add: int_of_text_def int_text_def text_nat_text)
qed (simp add: int_of_text_def int_text_def text_nat_text)

lemma sample_writes: "writes_read_back sample_json sample_parse sample_known int_text int_of_text"
  using sample_writes_known by (simp add: writes_read_back_def int_of_text_int)

lemma empty_appendable: "appendable toy_digest sample_manifest empty_db ''r''"
  by (simp add: appendable_def rows_of_def empty_db_def)

lemma born: "append_at toy_digest sample_json int_text birth_draft 0 empty_db = (born_log, Inr 1)"
  using append_answers [of toy_digest sample_manifest empty_db birth_draft sample_json int_text 0] empty_appendable
  by (simp add: prod_eq_iff born_log_def birth_draft_def sample_json_def is_birth_def rows_of_def empty_db_def)

lemma born_rows: "length (rows_of born_log ''r'') = 1"
  using arg_cong [where f = length, OF append_chained(2) [OF _ sample_states_manifest born]] empty_appendable
  by (simp add: birth_draft_def rows_of_def empty_db_def)

lemma born_appendable: "appendable toy_digest sample_manifest born_log ''r''"
  using append_chained(1) [OF _ sample_states_manifest born] empty_appendable born_rows
  by (simp add: appendable_def birth_draft_def)

lemma stored: "append_at toy_digest sample_json int_text move_draft 1 born_log = (stored_log, Inr 2)"
  using append_answers [of toy_digest sample_manifest born_log move_draft sample_json int_text 1] born_appendable
    born_rows
  by (auto simp: prod_eq_iff stored_log_def move_draft_def sample_json_def is_birth_def)

lemma stored_intact: "verify_chain toy_digest sample_manifest stored_log ''r'' = Inr (Intact 2)"
  using append_chained(1) [OF _ sample_states_manifest stored] born_appendable
  by (simp add: move_draft_def)

theorem append_keeps_the_chain_witness:
  "verify_chain toy_digest sample_manifest stored_log ''r'' = Inr (Intact 2)
   \<and> butlast (rows_of stored_log ''r'') = rows_of born_log ''r''"
  using append_keeps_the_chain [OF _ sample_states_manifest stored] born_appendable
  by (simp add: move_draft_def)

theorem deleted_tail_is_named_witness:
  "verify_chain toy_digest sample_manifest (cut_tail ''r'' 1 stored_log) ''r'' = Inr (Chain_Broken 2
     (''the log ends at seq '' @ int_text 1 @ '', its stored head is seq '' @ int_text 2
      @ '': the tail was deleted''))"
  using deleted_tail_is_named [OF stored_intact, of 1] by simp

definition blanked_log :: log_db where
  "blanked_log = stored_log\<lparr>db_events := om_put ''r''
     ((hd (rows_of stored_log ''r''))\<lparr>row_node_id := Some ''''\<rparr> # tl (rows_of stored_log ''r'')) (db_events stored_log)\<rparr>"

lemma born_row: "row_node_id (hd (rows_of born_log ''r'')) = None"
proof -
  have "hd (rows_of born_log ''r'') = last (rows_of born_log ''r'')"
    using born_rows by (cases "rows_of born_log ''r''") auto
  then show ?thesis
    using append_chained(3) [OF _ sample_states_manifest born] empty_appendable by (simp add: birth_draft_def)
qed

lemma blanked_intact: "verify_chain toy_digest sample_manifest blanked_log ''r'' = Inr (Intact 2)"
proof -
  have rows: "rows_of stored_log ''r'' = rows_of born_log ''r'' @ [last (rows_of stored_log ''r'')]"
    using append_chained(2) [OF _ sample_states_manifest stored] born_appendable by (simp add: move_draft_def)
  have "rows_of born_log ''r'' \<noteq> []" using born_rows by auto
  with rows have some: "rows_of stored_log ''r'' \<noteq> []"
    and first: "hd (rows_of stored_log ''r'') = hd (rows_of born_log ''r'')"
    by (metis append_is_Nil_conv, metis hd_append2)
  have split: "rows_of stored_log ''r'' = [] @ hd (rows_of stored_log ''r'') # tl (rows_of stored_log ''r'')"
    using some by simp
  have "row_node_id (hd (rows_of stored_log ''r'')) = None" using first born_row by simp
  from blank_node_undetected [OF stored_intact split this] show ?thesis by (simp add: blanked_log_def)
qed

definition beside_log :: log_db where
  "beside_log = born_log\<lparr>db_events := om_put ''s'' [] (db_events born_log)\<rparr>"

lemma born_read:
  "events_for_run sample_parse sample_known int_of_text born_log ''r'' =
     Inr [\<lparr>ev_run_id = ''r'', ev_seq = 1, ev_timestamp = 0, ev_node_id = None,
          ev_body = Known (Run_Payload (Run_Created sample_birth))\<rparr>]"
proof -
  have "events_for_run sample_parse sample_known int_of_text empty_db ''r'' = Inr []"
    by (simp add: events_for_run_def rows_of_def empty_db_def)
  then show ?thesis
    using append_read_back [OF _ sample_writes _ born, of sample_manifest "[]"] empty_appendable
    by (simp add: birth_draft_def)
qed

lemma born_intact: "verify_chain toy_digest sample_manifest born_log ''r'' = Inr (Intact 1)"
  using append_chained(1) [OF _ sample_states_manifest born] empty_appendable by (simp add: birth_draft_def)

theorem head_pins_the_log_witness:
  "(list_all2 row_agrees (rows_of stored_log ''r'') (rows_of blanked_log ''r'')
    \<or> collide toy_digest (chain_inputs toy_digest sample_manifest stored_log ''r'')
       (chain_inputs toy_digest sample_manifest blanked_log ''r'')) \<and>
   (rows_of born_log ''r'' = rows_of beside_log ''r''
    \<or> collide toy_digest (chain_inputs toy_digest sample_manifest born_log ''r'')
       (chain_inputs toy_digest sample_manifest beside_log ''r''))"
proof -
  have rows: "rows_of beside_log ''r'' = rows_of born_log ''r''" by (simp add: beside_log_def rows_of_def om_get_put)
  have heads: "db_heads beside_log = db_heads born_log" by (simp add: beside_log_def)
  have beside: "verify_chain toy_digest sample_manifest beside_log ''r'' = Inr (Intact 1)"
    using born_intact unfolding verify_chain_def rows heads .
  have read: "events_for_run sample_parse sample_known int_of_text beside_log ''r'' =
      events_for_run sample_parse sample_known int_of_text born_log ''r''"
    by (simp add: events_for_run_def rows)
  show ?thesis
    using head_pins_the_log [OF toy_digest_length stored_intact blanked_intact]
      head_pins_the_log [OF toy_digest_length born_intact beside, of sample_parse sample_known int_of_text]
      born_read read heads
    by (auto simp: blanked_log_def)
qed

theorem appended_reads_back_witness:
  "events_for_run sample_parse sample_known int_of_text born_log ''r'' =
     Inr [\<lparr>ev_run_id = ''r'', ev_seq = 1, ev_timestamp = 0, ev_node_id = None,
          ev_body = Known (Run_Payload (Run_Created sample_birth))\<rparr>]"
proof -
  have "events_for_run sample_parse sample_known int_of_text empty_db ''r'' = Inr []"
    by (simp add: events_for_run_def rows_of_def empty_db_def)
  then show ?thesis
    using appended_reads_back [OF _ sample_writes _ born, of sample_manifest "[]"] empty_appendable
    by (simp add: birth_draft_def)
qed

end
