(* ===== verification/Locations.thy ===== *)
theory Locations
  imports Storage_Chain
begin

text \<open>
  Where a finding is (\<open>core/src/findings/location.rs\<close>): a path inside one of the run's two roots, and the
  lines it names. The property says which locations are written as a text that reads as the same location:
  those that were read, and not every one the engine composes.
\<close>

datatype location_root = Root_Work | Root_Run

definition root_prefix :: "location_root \<Rightarrow> string" where
  "root_prefix r = (case r of Root_Work \<Rightarrow> '''' | Root_Run \<Rightarrow> ''run:'')"

definition all_roots :: "location_root list" where
  "all_roots = [Root_Work, Root_Run]"

record line_range =
  lr_start :: u32
  lr_end :: "u32 option"

record location =
  loc_root :: location_root
  loc_path :: path
  loc_range :: "line_range option"

datatype invalid_location =
    Location_Empty
  | Location_Escapes path
  | Location_NotARange string
  | Location_Backwards u32 u32

text \<open>\<open>str::parse\<close> for \<open>u32\<close>: digits, after at most one plus, that fit.\<close>

definition u32_of_text :: "string \<Rightarrow> u32 option" where
  "u32_of_text s =
     (let ds = (if starts_with s ''+'' then tl s else s)
      in if ds \<noteq> [] \<and> list_all is_ascii_digit ds \<and> int (text_nat ds) < 2 ^ 32
         then Some (word_of_int (int (text_nat ds))) else None)"

definition line_range_of :: "string \<Rightarrow> invalid_location + line_range" where
  "line_range_of s =
     (let (start, end) =
        (case split_once ''-'' s of Some (a, b) \<Rightarrow> (a, Some b) | None \<Rightarrow> (s, None))
      in case u32_of_text start of
           None \<Rightarrow> Inl (Location_NotARange s)
         | Some from_line \<Rightarrow>
             (case end of
                None \<Rightarrow> Inr \<lparr>lr_start = from_line, lr_end = None\<rparr>
              | Some e \<Rightarrow>
                  (case u32_of_text e of
                     None \<Rightarrow> Inl (Location_NotARange s)
                   | Some to_line \<Rightarrow>
                       if to_line < from_line then Inl (Location_Backwards from_line to_line)
                       else Inr \<lparr>lr_start = from_line, lr_end = Some to_line\<rparr>)))"

definition relative_path_of :: "string \<Rightarrow> invalid_location + path" where
  "relative_path_of s =
     (if trim s = [] then Inl Location_Empty
      else if starts_with s ''/'' \<or> List.member (path_components s) ''..'' then Inl (Location_Escapes s)
      else Inr s)"

text \<open>\<open>RelativePath::of\<close>: the names among the parts, and the root itself when there is none.\<close>

definition is_normal :: "string \<Rightarrow> bool" where
  "is_normal component \<longleftrightarrow> component \<notin> {''/'', ''.'', ''..''}"

definition relative_path_join :: "string list \<Rightarrow> path" where
  "relative_path_join parts =
     (let names = concat (map (\<lambda>part. filter is_normal (path_components part)) parts)
      in if names = [] then ''.'' else join_slash names)"

fun root_among :: "location_root list \<Rightarrow> string \<Rightarrow> location_root \<times> string" where
  "root_among [] s = (Root_Work, s)"
| "root_among (root # roots) s =
     (if root_prefix root \<noteq> [] \<and> starts_with s (root_prefix root)
      then (root, drop (length (root_prefix root)) s) else root_among roots s)"

definition root_of :: "string \<Rightarrow> location_root \<times> string" where
  "root_of s = root_among all_roots s"

text \<open>\<open>str::rsplit_once\<close> on one character.\<close>

definition rsplit_once :: "char \<Rightarrow> string \<Rightarrow> (string \<times> string) option" where
  "rsplit_once c s = map_option (\<lambda>(a, b). (rev b, rev a)) (split_once [c] (rev s))"

definition location_of :: "string \<Rightarrow> invalid_location + location" where
  "location_of s =
     (let (root, t) = root_of s;
          split =
            (case rsplit_once CHR '':'' t of
               Some (p, rest) \<Rightarrow>
                 if rest \<noteq> [] \<and> is_ascii_digit (hd rest)
                 then (case line_range_of rest of Inl e \<Rightarrow> Inl e | Inr r \<Rightarrow> Inr (p, Some r))
                 else Inr (t, None)
             | None \<Rightarrow> Inr (t, None))
      in case split of
           Inl e \<Rightarrow> Inl e
         | Inr (p, lines_named) \<Rightarrow>
             (case relative_path_of p of
                Inl e \<Rightarrow> Inl e
              | Inr q \<Rightarrow> Inr \<lparr>loc_root = root, loc_path = q, loc_range = lines_named\<rparr>))"

definition line_range_text :: "line_range \<Rightarrow> string" where
  "line_range_text r =
     (case lr_end r of
        Some e \<Rightarrow> nat_text (unat (lr_start r)) @ ''-'' @ nat_text (unat e)
      | None \<Rightarrow> nat_text (unat (lr_start r)))"

definition location_text :: "location \<Rightarrow> string" where
  "location_text l =
     root_prefix (loc_root l) @ loc_path l
     @ (case loc_range l of Some r \<Rightarrow> '':'' @ line_range_text r | None \<Rightarrow> [])"

section \<open>What is written reads back\<close>

lemma u32_of_nat_text: "u32_of_text (nat_text (unat (w :: u32))) = Some w"
proof -
  have "\<not> starts_with (nat_text n) ''+''" for n
    using nat_text_digits [of "CHR ''+''" n]
    by (cases "nat_text n") (auto simp: is_ascii_digit_def is_between_def)
  moreover have "nat_text n \<noteq> []" for n by (subst nat_text.simps) simp
  moreover have "unat w < 2 ^ 32" "uint w < 2 ^ 32" by (rule less_le_trans [OF unsigned_less], simp)+
  ultimately show ?thesis
    by (simp add: u32_of_text_def text_nat_text list_all_iff nat_text_digits)
qed

lemma not_in_digits: "\<not> is_ascii_digit c \<Longrightarrow> c \<notin> set (nat_text n)"
  using nat_text_digits by blast

lemma no_digit [simp]: "\<not> is_ascii_digit CHR ''-''" "\<not> is_ascii_digit CHR '':''"
  by (simp_all add: is_ascii_digit_def is_between_def)

lemma line_range_reads_back:
  assumes "line_range_of s = Inr r"
  shows "line_range_of (line_range_text r) = Inr r"
proof (cases "lr_end r")
  case None
  have "split_once ''-'' (nat_text n) = None" for n by (simp add: split_once_char_None not_in_digits)
  with None show ?thesis by (cases r) (simp add: line_range_text_def line_range_of_def u32_of_nat_text)
next
  case (Some e)
  with assms have "\<not> e < lr_start r"
    by (auto simp: line_range_of_def Let_def split: option.splits prod.splits if_splits)
  moreover have "split_once ''-'' (nat_text n @ ''-'' @ nat_text m) = Some (nat_text n, nat_text m)" for n m
    using split_once_char [of "CHR ''-''" "nat_text n" "nat_text m"] by (simp add: not_in_digits)
  ultimately show ?thesis
    using Some by (cases r) (simp add: line_range_text_def line_range_of_def u32_of_nat_text)
qed

lemma range_text_ends:
  "line_range_text r \<noteq> [] \<and> is_ascii_digit (hd (line_range_text r)) \<and> CHR '':'' \<notin> set (line_range_text r)"
proof -
  have "nat_text n \<noteq> []" for n by (subst nat_text.simps) simp
  then have "is_ascii_digit (hd (nat_text n))" for n using nat_text_digits [OF hd_in_set] by blast
  with \<open>\<And>n. nat_text n \<noteq> []\<close> show ?thesis
    by (auto simp: line_range_text_def not_in_digits split: option.split)
qed

lemma rsplit_at: "c \<notin> set b \<Longrightarrow> rsplit_once c (a @ c # b) = Some (a, b)"
  using split_once_char [of c "rev b" "rev a"] by (simp add: rsplit_once_def)

lemma rsplit_Some: "rsplit_once c s = Some (a, b) \<Longrightarrow> s = a @ c # b"
  by (auto simp: rsplit_once_def split_once_char_Some) (metis rev_append rev.simps(2) append_assoc append_Cons append_Nil rev_swap)

lemma root_of_eq:
  "root_of s = (if starts_with s ''run:'' then (Root_Run, drop (length ''run:'') s) else (Root_Work, s))"
  by (simp add: root_of_def all_roots_def root_prefix_def)

lemma starts_run_colon:
  "starts_with (p @ CHR '':'' # x) ''run:'' \<longleftrightarrow> starts_with (p @ CHR '':'' # y) ''run:''"
proof -
  consider "p = []" | a where "p = [a]" | a b where "p = [a, b]" | a b c q where "p = a # b # c # q"
    by (metis neq_Nil_conv)
  then show ?thesis by cases (simp_all, case_tac q, simp_all)
qed

lemma relative_path_same: "relative_path_of p = Inr q \<Longrightarrow> q = p"
  by (simp add: relative_path_of_def split: if_splits)

lemma location_parts:
  assumes "location_of s = Inr l" "root_of s = (root, t)"
  shows "loc_root l = root" "relative_path_of (loc_path l) = Inr (loc_path l)"
    "case loc_range l of
       None \<Rightarrow> loc_path l = t
     | Some r \<Rightarrow> \<exists>rest. rsplit_once CHR '':'' t = Some (loc_path l, rest) \<and> line_range_of rest = Inr r"
proof -
  define split where "split =
    (case rsplit_once CHR '':'' t of
       Some (p, rest) \<Rightarrow>
         if rest \<noteq> [] \<and> is_ascii_digit (hd rest)
         then (case line_range_of rest of Inl e \<Rightarrow> Inl e | Inr r \<Rightarrow> Inr (p, Some r))
         else Inr (t, None)
     | None \<Rightarrow> Inr (t, None))"
  from assms obtain p r where p: "split = Inr (p, r)" "relative_path_of p = Inr p"
    and l: "l = \<lparr>loc_root = root, loc_path = p, loc_range = r\<rparr>"
    by (cases split) (auto simp: location_of_def split_def [symmetric] Let_def dest: relative_path_same
        split: prod.splits sum.splits)
  from l p(2) show "loc_root l = root" "relative_path_of (loc_path l) = Inr (loc_path l)" by simp_all
  show "case loc_range l of
       None \<Rightarrow> loc_path l = t
     | Some r \<Rightarrow> \<exists>rest. rsplit_once CHR '':'' t = Some (loc_path l, rest) \<and> line_range_of rest = Inr r"
    using p(1) by (auto simp: l split_def split: option.splits prod.splits if_splits sum.splits)
qed

lemma read_reads_back:
  assumes "location_of s = Inr l"
  shows "location_of (location_text l) = Inr l"
proof -
  obtain root t where root: "root_of s = (root, t)" by (cases "root_of s")
  then have s: "s = root_prefix root @ t" "root = Root_Work \<Longrightarrow> \<not> starts_with s ''run:''"
    by (auto simp: root_of_eq root_prefix_def starts_with_prefix prefix_def split: if_splits)
  note parts = location_parts [OF assms root]
  show ?thesis
  proof (cases "loc_range l")
    case (Some r)
    then obtain rest where t: "rsplit_once CHR '':'' t = Some (loc_path l, rest)" "line_range_of rest = Inr r"
      using parts(3) by auto
    have written: "location_text l = root_prefix root @ loc_path l @ CHR '':'' # line_range_text r"
      by (simp add: location_text_def parts(1) Some)
    have "root_of (location_text l) = (root, loc_path l @ CHR '':'' # line_range_text r)"
      using s rsplit_Some [OF t(1)] starts_run_colon [of "loc_path l" rest "line_range_text r"]
      by (cases root) (simp_all add: root_of_eq written root_prefix_def)
    then show ?thesis
      using range_text_ends [of r] line_range_reads_back [OF t(2)] parts(1,2) Some
      by (cases l) (simp add: location_of_def rsplit_at)
  next
    case None
    then have "loc_path l = t" using parts(3) by simp
    then have "location_text l = root_prefix root @ t"
      by (simp add: location_text_def None parts(1))
    then have eq: "location_text l = s" by (rule trans) (rule s(1) [symmetric])
    show ?thesis unfolding eq by (rule assms)
  qed
qed

text \<open>What a location must be for its text to mean it: a path that is one, lines in order, no text that a
  reader takes for the other root's prefix, and, when it names no lines, no end that a reader takes for
  lines.\<close>

definition in_order :: "line_range \<Rightarrow> bool" where
  "in_order r \<longleftrightarrow> is_none_or (lr_end r) (\<lambda>e. lr_start r \<le> e)"

definition ends_in_lines :: "string \<Rightarrow> bool" where
  "ends_in_lines t \<longleftrightarrow>
     is_some_and (rsplit_once CHR '':'' t) (\<lambda>(_, rest). rest \<noteq> [] \<and> is_ascii_digit (hd rest))"

definition lines_text :: "location \<Rightarrow> string" where
  "lines_text l = (case loc_range l of Some r \<Rightarrow> '':'' @ line_range_text r | None \<Rightarrow> [])"

definition readable :: "location \<Rightarrow> bool" where
  "readable l \<longleftrightarrow>
     relative_path_of (loc_path l) = Inr (loc_path l)
   \<and> \<not> (loc_root l = Root_Work \<and> starts_with (loc_path l @ lines_text l) ''run:'')
   \<and> (case loc_range l of Some r \<Rightarrow> in_order r | None \<Rightarrow> \<not> ends_in_lines (loc_path l))"

lemma range_reads_iff: "line_range_of (line_range_text r) = Inr r \<longleftrightarrow> in_order r"
proof (cases "lr_end r")
  case None
  have "split_once ''-'' (nat_text n) = None" for n by (simp add: split_once_char_None not_in_digits)
  with None show ?thesis
    by (cases r) (simp add: line_range_text_def line_range_of_def u32_of_nat_text in_order_def)
next
  case (Some e)
  have "split_once ''-'' (nat_text n @ ''-'' @ nat_text m) = Some (nat_text n, nat_text m)" for n m
    using split_once_char [of "CHR ''-''" "nat_text n" "nat_text m"] by (simp add: not_in_digits)
  with Some show ?thesis
    by (cases r) (auto simp: line_range_text_def line_range_of_def u32_of_nat_text in_order_def)
qed

lemma text_reads_iff: "location_of (location_text l) = Inr l \<longleftrightarrow> readable l"
proof -
  let ?t = "loc_path l @ lines_text l"
  have written: "location_text l = root_prefix (loc_root l) @ ?t" by (simp add: location_text_def lines_text_def)
  show ?thesis
  proof (cases "loc_root l = Root_Work \<and> starts_with ?t ''run:''")
    case True
    then have "root_of (location_text l) = (Root_Run, drop (length ''run:'') ?t)"
      unfolding written by (simp add: root_of_eq root_prefix_def)
    then have "location_of (location_text l) \<noteq> Inr l"
      using location_parts(1) [of "location_text l" l Root_Run] True by force
    with True show ?thesis by (simp add: readable_def)
  next
    case False
    then have root: "root_of (location_text l) = (loc_root l, ?t)"
      unfolding written by (cases "loc_root l") (simp_all add: root_of_eq root_prefix_def)
    show ?thesis
    proof (cases "loc_range l")
      case (Some r)
      then have t: "?t = loc_path l @ CHR '':'' # line_range_text r" by (simp add: lines_text_def)
      have "location_of (location_text l) = Inr l \<longleftrightarrow>
          line_range_of (line_range_text r) = Inr r \<and> relative_path_of (loc_path l) = Inr (loc_path l)"
        unfolding location_of_def root Let_def prod.case t
        using range_text_ends [of r] Some
        by (cases l) (auto simp: rsplit_at dest: relative_path_same split: sum.splits)
      then show ?thesis using False by (auto simp: readable_def Some range_reads_iff)
    next
      case None
      then have t: "?t = loc_path l" by (simp add: lines_text_def)
      have "location_of (location_text l) = Inr l \<longleftrightarrow>
          \<not> ends_in_lines (loc_path l) \<and> relative_path_of (loc_path l) = Inr (loc_path l)"
        unfolding location_of_def root Let_def prod.case t
        using None
        by (cases l) (auto simp: ends_in_lines_def dest: relative_path_same split: option.splits sum.splits prod.splits)
      then show ?thesis using False None by (auto simp: readable_def)
    qed
  qed
qed

text \<open>C36. A location's text reads as that location exactly when its path is one, its lines are in order,
  and nothing in the text is taken for a root or for lines the location does not name; and every location
  that was itself read is such a one, whatever the spelling of its lines.\<close>

theorem location_reads_back:
  "(location_of (location_text l) = Inr l \<longleftrightarrow> readable l) \<and> (location_of s = Inr l \<longrightarrow> readable l)"
  using text_reads_iff [of l] read_reads_back [of s l] by blast

theorem location_reads_back_witness:
  "location_of (location_text \<lparr>loc_root = Root_Run, loc_path = ''a:b'', loc_range = Some \<lparr>lr_start = 7, lr_end = None\<rparr>\<rparr>)
     = Inr \<lparr>loc_root = Root_Run, loc_path = ''a:b'', loc_range = Some \<lparr>lr_start = 7, lr_end = None\<rparr>\<rparr>
   \<and> location_of (location_text \<lparr>loc_root = Root_Work, loc_path = ''a:1'', loc_range = None\<rparr>)
     \<noteq> Inr \<lparr>loc_root = Root_Work, loc_path = ''a:1'', loc_range = None\<rparr>
   \<and> location_of (location_text \<lparr>loc_root = Root_Work, loc_path = ''run'', loc_range = Some \<lparr>lr_start = 7, lr_end = None\<rparr>\<rparr>)
     \<noteq> Inr \<lparr>loc_root = Root_Work, loc_path = ''run'', loc_range = Some \<lparr>lr_start = 7, lr_end = None\<rparr>\<rparr>"
proof -
  have "location_of ''run:a:b:007'' = Inr \<lparr>loc_root = Root_Run, loc_path = ''a:b'', loc_range = Some \<lparr>lr_start = 7, lr_end = None\<rparr>\<rparr>"
    by code_simp
  moreover have "\<not> readable \<lparr>loc_root = Root_Work, loc_path = ''a:1'', loc_range = None\<rparr>"
    "\<not> readable \<lparr>loc_root = Root_Work, loc_path = ''run'', loc_range = Some \<lparr>lr_start = 7, lr_end = None\<rparr>\<rparr>"
    by code_simp+
  ultimately show ?thesis
    by (intro conjI) (use location_reads_back in blast)+
qed

text \<open>A path whose name ends in a colon, a digit and more is refused, though no lines are named.\<close>

lemma digit_after_colon_refused: "location_of ''notes:2nd.md'' = Inl (Location_NotARange ''2nd.md'')"
  by code_simp

end
