(* ===== verification/Plan_Proofs.thy ===== *)
theory Plan_Proofs
  imports Plan_Rules Shell Locations
begin

text \<open>
  What a command of a plan proves about the files it names (\<open>core/src/tasks/proof.rs\<close>), whether it runs
  the project's tests the way the run's suite does (\<open>tasks/suite.rs\<close>), and what a change's code has to
  show (\<open>tasks/code.rs\<close>). Patterns of a search are not empty.
\<close>

section \<open>Names in a command\<close>

fun trim_dot_slash :: "string \<Rightarrow> string" where
  "trim_dot_slash (a # b # cs) = (if a = CHR ''.'' \<and> b = CHR ''/'' then trim_dot_slash cs else a # b # cs)"
| "trim_dot_slash s = s"

text \<open>\<open>str::rsplit\<close> on one character or one text: the piece after its last occurrence.\<close>

definition last_piece :: "char \<Rightarrow> string \<Rightarrow> string" where
  "last_piece c s = List.last (split_at (\<lambda>d. d = c) s)"

definition after_last :: "string \<Rightarrow> string \<Rightarrow> string" where
  "after_last m s = (case split_once (rev m) (rev s) of None \<Rightarrow> s | Some (a, _) \<Rightarrow> rev a)"

text \<open>Whether a text appears with no word character on either side, among its occurrences read from the
  left that overlap none before.\<close>

function as_a_word_from :: "char option \<Rightarrow> string \<Rightarrow> string \<Rightarrow> bool" where
  "as_a_word_from prev s said =
     (case s of
        [] \<Rightarrow> False
      | c # cs \<Rightarrow>
          if said \<noteq> [] \<and> starts_with s said
          then (let rest = drop (length said) s
                in (\<not> is_some_and prev is_word_char
                     \<and> (case rest of [] \<Rightarrow> True | a # _ \<Rightarrow> \<not> is_word_char a))
                   \<or> as_a_word_from (Some (List.last said)) rest said)
          else as_a_word_from (Some c) cs said)"
  by pat_completeness auto
termination
  by (relation "measure (\<lambda>(_, s, _). length s)") auto

declare as_a_word_from.simps [simp del]

definition as_a_word :: "string \<Rightarrow> string \<Rightarrow> bool" where
  "as_a_word s said = as_a_word_from None s said"

fun pairs :: "'a list \<Rightarrow> ('a \<times> 'a) list" where
  "pairs (a # b # xs) = (a, b) # pairs (b # xs)"
| "pairs _ = []"

definition names_file :: "string \<Rightarrow> path \<Rightarrow> bool" where
  "names_file cmd p =
     (let p = trim_dot_slash p;
          name = last_piece CHR ''/'' p;
          stem = hd (split_at (\<lambda>c. c = CHR ''.'') name);
          named = list_ex (as_a_word cmd) (filter (\<lambda>said. said \<noteq> []) [p, name])
      in named \<or> list_ex (\<lambda>pair. pair = (''--test'', stem)) (pairs (split_whitespace cmd)))"

definition in_repo :: "path \<Rightarrow> path" where
  "in_repo p = join_slash (filter is_normal (path_components p))"

definition documentation :: "path \<Rightarrow> bool" where
  "documentation p =
     (case rsplit_once CHR ''.'' p of
        Some (_, extension) \<Rightarrow>
          to_ascii_lowercase extension \<in> {''md'', ''markdown'', ''txt'', ''rst'', ''adoc''}
      | None \<Rightarrow> False)"

definition trim_quotes :: "string \<Rightarrow> string" where
  "trim_quotes s =
     (let q = (\<lambda>c. c = squote \<or> c = dquote) in rev (dropWhile q (rev (dropWhile q s))))"

definition finds_a_comment :: "string list \<Rightarrow> bool" where
  "finds_a_comment ws =
     (case List.find (\<lambda>w. \<not> starts_with w ''-'') (map trim_quotes (drop 1 ws)) of
        Some pattern \<Rightarrow> list_ex (starts_with pattern) [''//'', ''#'', ''/*'', ''--'', ''<!--'']
      | None \<Rightarrow> False)"

text \<open>Whether the segment, the later ones after it, only looks for a name in \<open>file\<close>.\<close>

definition only_presence :: "string \<Rightarrow> string list \<Rightarrow> path \<Rightarrow> bool" where
  "only_presence segment later file =
     (let ws = split_whitespace segment
      in case ws of
           [] \<Rightarrow> False
         | program # _ \<Rightarrow>
             if program \<in> {''grep'', ''egrep'', ''fgrep'', ''rg''}
             then length (simple_commands segment) = 1 \<and> \<not> finds_a_comment ws
             else if program \<in> {''test'', ''[''}
             then list_ex (\<lambda>w. w \<in> {''-f'', ''-e'', ''-s''}) ws
                  \<and> \<not> list_ex (\<lambda>s. contains s file) later
             else False)"

fun presence_of :: "path list \<Rightarrow> string \<Rightarrow> string list \<Rightarrow> (string \<times> path) list" where
  "presence_of changed cmd [] = []"
| "presence_of changed cmd (segment # later) =
     (case List.find (\<lambda>file. list_ex (\<lambda>w. in_repo w = file) (split_whitespace segment)) changed of
        None \<Rightarrow> []
      | Some file \<Rightarrow> if only_presence segment later file then [(cmd, file)] else [])
     @ presence_of changed cmd later"

definition passes_by_a_name :: "task \<Rightarrow> (string \<times> path) list" where
  "passes_by_a_name t =
     (let changed = filter (\<lambda>file. \<not> documentation file) (map (\<lambda>c. in_repo (change_file c)) (tk_changes t))
      in concat (map (\<lambda>c. presence_of changed (pc_cmd c) (pipelines (pc_cmd c)))
           (filter (\<lambda>c. \<not> criterion_is_guard c) (tk_criteria t))))"

section \<open>The suite\<close>

record suite =
  su_command :: "string list"
  su_runner :: nat

definition assigns :: "string \<Rightarrow> bool" where
  "assigns w =
     (case split_once ''='' w of
        Some (name, _) \<Rightarrow>
          (case name of [] \<Rightarrow> False | c # _ \<Rightarrow> is_ascii_alphabetic c \<or> c = CHR ''_'')
          \<and> list_all is_word_char name
      | None \<Rightarrow> False)"

definition command_words :: "string \<Rightarrow> string list" where
  "command_words command = dropWhile assigns (split_whitespace command)"

definition suite_of :: "string \<Rightarrow> suite option" where
  "suite_of cmd =
     (case simple_commands cmd of
        [] \<Rightarrow> None
      | first # _ \<Rightarrow>
          let command = command_words first;
              runner_words = takeWhile (\<lambda>w. \<not> starts_with w ''-'') command
          in if runner_words = [] then None
             else Some \<lparr>su_command = command, su_runner = length runner_words\<rparr>)"

definition begins :: "string list \<Rightarrow> string list \<Rightarrow> bool" where
  "begins ws start \<longleftrightarrow> length start \<le> length ws \<and> list_all2 (=) start (take (length start) ws)"

definition suite_outside :: "suite \<Rightarrow> string \<Rightarrow> string list" where
  "suite_outside S cmd =
     filter
       (\<lambda>segment. let ws = command_words segment
                 in begins ws (take (su_runner S) (su_command S)) \<and> \<not> begins ws (su_command S))
       (pipelines cmd)"

definition suite_command :: "suite \<Rightarrow> string" where
  "suite_command S = join_with '' '' (su_command S)"

section \<open>What a change's code shows\<close>

definition says_code :: "change \<Rightarrow> string option" where
  "says_code c = filter_opt (\<lambda>code. trim code \<noteq> []) (ch_code c)"

text \<open>The symbols a change names after its file.\<close>

definition change_names :: "change \<Rightarrow> string list" where
  "change_names c =
     (case split_once ''::'' (ch_at c) of
        None \<Rightarrow> []
      | Some (_, item) \<Rightarrow>
          filter (\<lambda>name. name \<noteq> [] \<and> list_all is_word_char name)
            (map trim (split_at (\<lambda>c. c = CHR ''/'' \<or> c = CHR '','') (after_last ''::'' item))))"

definition missing_names :: "change \<Rightarrow> string \<Rightarrow> string list \<Rightarrow> string list option" where
  "missing_names c code shaped =
     (let missing = filter (\<lambda>name. \<not> as_a_word code name \<and> \<not> list_ex (\<lambda>shape. as_a_word shape name) shaped)
        (change_names c)
      in if missing \<noteq> [] then Some missing else None)"

definition comment_line :: "string \<Rightarrow> bool" where
  "comment_line line \<longleftrightarrow>
     list_ex (starts_with line) [''//'', ''/*'', ''*'', ''<!--'', ''--'']
       \<and> \<not> list_ex (starts_with line) [''///'', ''//!'', ''/**'', ''/*!'']
   \<or> starts_with line ''#'' \<and> \<not> starts_with line ''#['' \<and> \<not> starts_with line ''#!''"

definition only_comments :: "string \<Rightarrow> bool" where
  "only_comments code =
     (let ls = filter (\<lambda>line. line \<noteq> []) (map trim (lines code)) in ls \<noteq> [] \<and> list_all comment_line ls)"

text \<open>The shapes a task declares in the file of a change.\<close>

definition shaped_there :: "task \<Rightarrow> change \<Rightarrow> shape list \<Rightarrow> shape list" where
  "shaped_there t c shapes = filter (\<lambda>s. shp_owner s = tk_id t \<and> shp_file s = change_file c) shapes"

definition unshown_change :: "nat \<Rightarrow> task \<Rightarrow> shape list \<Rightarrow> change \<Rightarrow> diagnostic list" where
  "unshown_change index t shapes c =
     (case says_code c of
        None \<Rightarrow> []
      | Some code \<Rightarrow>
          (case missing_names c code (map shp_code (shaped_there t c shapes)) of
             None \<Rightarrow> []
           | Some names \<Rightarrow> [broke_task index (tk_id t) (TF_ChangeCodeMissesAName (ch_at c) names)])
          @ (if \<not> documentation (change_file c) \<and> only_comments code
             then [broke_task index (tk_id t) (TF_ChangeCodeIsAComment (ch_at c))] else []))"

definition unshown :: "nat \<Rightarrow> task \<Rightarrow> shape list \<Rightarrow> diagnostic list" where
  "unshown index t shapes = concat (map (unshown_change index t shapes) (tk_changes t))"

section \<open>What the readings decide\<close>

lemma begins_prefix: "begins ws start \<longleftrightarrow> prefix start ws"
  by (auto simp: begins_def list_all2_eq [symmetric] prefix_def)
     (metis append_take_drop_id)

lemma as_a_word_from_match:
  "said \<noteq> [] \<Longrightarrow> as_a_word_from prev (said @ rest) said \<longleftrightarrow>
     \<not> is_some_and prev is_word_char \<and> (case rest of [] \<Rightarrow> True | a # _ \<Rightarrow> \<not> is_word_char a)
   \<or> as_a_word_from (Some (List.last said)) rest said"
  by (cases said; subst as_a_word_from.simps) (simp_all add: starts_with_prefix Let_def)

lemma as_a_word_from_skip:
  "\<not> starts_with (c # cs) said \<Longrightarrow> as_a_word_from prev (c # cs) said = as_a_word_from (Some c) cs said"
  by (subst as_a_word_from.simps) simp

lemma as_a_word_from_sound:
  assumes "said \<noteq> []"
  shows "as_a_word_from prev s said \<Longrightarrow> \<exists>a b. s = a @ said @ b
     \<and> (case b of [] \<Rightarrow> True | c # _ \<Rightarrow> \<not> is_word_char c)
     \<and> (if a = [] then \<not> is_some_and prev is_word_char else \<not> is_word_char (List.last a))"
proof (induction "length s" arbitrary: prev s rule: less_induct)
  case less
  show ?case
  proof (cases "starts_with s said")
    case True
    then obtain rest where rest: "s = said @ rest" by (auto simp: starts_with_prefix prefix_def)
    with less.prems assms consider
      (here) "\<not> is_some_and prev is_word_char" "case rest of [] \<Rightarrow> True | a # _ \<Rightarrow> \<not> is_word_char a"
      | (later) "as_a_word_from (Some (List.last said)) rest said"
      using as_a_word_from_match [of said prev rest] by blast
    then show ?thesis
    proof cases
      case here
      then show ?thesis using rest by (intro exI [of _ "[]"] exI [of _ rest]) simp
    next
      case later
      have "length rest < length s" using rest assms by simp
      from less.hyps [OF this later] obtain a b where
        ab: "rest = a @ said @ b" "case b of [] \<Rightarrow> True | c # _ \<Rightarrow> \<not> is_word_char c"
        "if a = [] then \<not> is_some_and (Some (List.last said)) is_word_char else \<not> is_word_char (List.last a)"
        by blast
      show ?thesis
        by (intro exI [of _ "said @ a"] exI [of _ b]) (use ab rest assms in \<open>auto split: if_splits\<close>)
    qed
  next
    case False
    then obtain c cs where s: "s = c # cs" using less.prems by (cases s) (simp_all add: as_a_word_from.simps)
    with False less.prems have "as_a_word_from (Some c) cs said" by (simp add: as_a_word_from_skip)
    from less.hyps [OF _ this] s obtain a b where
      ab: "cs = a @ said @ b" "case b of [] \<Rightarrow> True | c # _ \<Rightarrow> \<not> is_word_char c"
      "if a = [] then \<not> is_some_and (Some c) is_word_char else \<not> is_word_char (List.last a)"
      by auto
    show ?thesis
      by (intro exI [of _ "c # a"] exI [of _ b]) (use ab s in \<open>auto split: if_splits\<close>)
  qed
qed

lemma as_a_word_sound:
  assumes "as_a_word s said" "said \<noteq> []"
  shows "\<exists>a b. s = a @ said @ b \<and> (a = [] \<or> \<not> is_word_char (List.last a))
     \<and> (b = [] \<or> \<not> is_word_char (hd b))"
  using as_a_word_from_sound [OF assms(2), of None s] assms(1)
  by (fastforce simp: as_a_word_def split: list.splits if_splits)

end
