(* ===== verification/Spec_Document.thy ===== *)
theory Spec_Document
  imports Plan_Proofs
begin

text \<open>
  The document of a plan's tests (\<open>core/src/spec/\<close>): what each task is held to, and the rules the
  document satisfies on its own and once it is handed over. The lemmas say when no rule is broken.
\<close>

section \<open>The document\<close>

record test_file =
  tfl_path :: path
  tfl_content :: string

record spec_test =
  stt_cmd :: string
  stt_proves :: string

record spec =
  spc_task :: task_id
  spc_files :: "test_file list"
  spc_tests :: "spec_test list"

record spec_file =
  sf_specs :: "spec list"

definition spec_of :: "spec_file \<Rightarrow> task_id \<Rightarrow> spec option" where
  "spec_of f t = List.find (\<lambda>s. spc_task s = t) (sf_specs f)"

definition file_in_repo :: "test_file \<Rightarrow> path" where
  "file_in_repo f = in_repo (tfl_path f)"

definition unrun_files :: "spec \<Rightarrow> test_file list" where
  "unrun_files s =
     filter (\<lambda>f. \<not> list_ex (\<lambda>t. names_file (stt_cmd t) (file_in_repo f)) (spc_tests s)) (spc_files s)"

definition hollow_tests :: "spec \<Rightarrow> spec_test list" where
  "hollow_tests s =
     filter (\<lambda>t. spc_files s \<noteq> []
               \<and> \<not> list_ex (\<lambda>f. names_file (stt_cmd t) (file_in_repo f)) (spc_files s)) (spc_tests s)"

definition spec_criteria :: "spec \<Rightarrow> plan_criterion list" where
  "spec_criteria s =
     map (\<lambda>t. \<lparr>pc_cmd = stt_cmd t, pc_type = None, pc_proves = Some (stt_proves t)\<rparr>) (spc_tests s)"

section \<open>Its rules\<close>

datatype spec_fault =
    SF_DuplicateSpec
  | SF_NoSpecTest
  | SF_UnexplainedTest string
  | SF_TestFileEscapes path
  | SF_DuplicateTestFile path
  | SF_UnrunSpecFile path
  | SF_SpecTestRunsNoSpecFile string
  | SF_OutsideTheSuite string string

fun spec_fault_code :: "spec_fault \<Rightarrow> rule_code" where
  "spec_fault_code SF_DuplicateSpec = RC_DuplicateSpec"
| "spec_fault_code SF_NoSpecTest = RC_NoSpecTest"
| "spec_fault_code (SF_UnexplainedTest _) = RC_UnexplainedTest"
| "spec_fault_code (SF_TestFileEscapes _) = RC_TestFileEscapes"
| "spec_fault_code (SF_DuplicateTestFile _) = RC_DuplicateTestFile"
| "spec_fault_code (SF_UnrunSpecFile _) = RC_UnrunSpecFile"
| "spec_fault_code (SF_SpecTestRunsNoSpecFile _) = RC_SpecTestRunsNoSpecFile"
| "spec_fault_code (SF_OutsideTheSuite _ _) = RC_OutsideTheSuite"

record spec_diagnostic =
  sd_subject :: subject
  sd_code :: rule_code
  sd_fault :: spec_fault

definition broke_spec :: "nat \<Rightarrow> task_id \<Rightarrow> spec_fault \<Rightarrow> spec_diagnostic" where
  "broke_spec index i f =
     \<lparr>sd_subject = Subj_Spec (named_entry i index), sd_code = spec_fault_code f, sd_fault = f\<rparr>"

text \<open>\<open>is_register\<close>: a path into the repository's own \<open>.git\<close>.\<close>

definition is_register :: "path \<Rightarrow> bool" where
  "is_register p =
     (case List.find (\<lambda>c. c \<noteq> ''.'') (path_components p) of Some c \<Rightarrow> c = ''.git'' | None \<Rightarrow> False)"

definition inside_repo :: "path \<Rightarrow> bool" where
  "inside_repo p \<longleftrightarrow>
     \<not> isl (relative_path_of p)
   \<and> (case filter (\<lambda>c. c \<noteq> ''.'') (path_components p) of c # _ \<Rightarrow> is_normal c | [] \<Rightarrow> False)
   \<and> \<not> is_register p"

text \<open>What a spec's files break, given the files named before, and those named after it.\<close>

fun files_faults :: "test_file list \<Rightarrow> path list \<Rightarrow> spec_fault list \<times> path list" where
  "files_faults [] seen = ([], seen)"
| "files_faults (f # fs) seen =
     (let (rest, after) = files_faults fs (file_in_repo f # seen)
      in ((if inside_repo (tfl_path f) then [] else [SF_TestFileEscapes (tfl_path f)])
            @ (if file_in_repo f \<in> set seen then [SF_DuplicateTestFile (tfl_path f)] else [])
            @ rest, after))"

definition unexplained_tests :: "spec \<Rightarrow> spec_fault list" where
  "unexplained_tests s = map (\<lambda>t. SF_UnexplainedTest (stt_cmd t)) (filter (\<lambda>t. trim (stt_proves t) = []) (spc_tests s))"

fun check_specs :: "nat \<Rightarrow> spec list \<Rightarrow> task_id list \<Rightarrow> path list \<Rightarrow> spec_diagnostic list" where
  "check_specs index [] tasks paths = []"
| "check_specs index (s # ss) tasks paths =
     (let (faults, paths') = files_faults (spc_files s) paths;
          problems =
            (if spc_task s \<in> set tasks then [SF_DuplicateSpec] else [])
            @ (if spc_tests s = [] then [SF_NoSpecTest] else [])
            @ unexplained_tests s
            @ faults
      in map (broke_spec index (spc_task s)) problems
         @ check_specs (Suc index) ss (spc_task s # tasks) paths')"

definition check_spec :: "spec_file \<Rightarrow> spec_diagnostic list" where
  "check_spec f = check_specs 0 (sf_specs f) [] []"

section \<open>Its rules when it is handed over\<close>

definition spec_unspecifiable :: "spec_file \<Rightarrow> suite option \<Rightarrow> spec_diagnostic list" where
  "spec_unspecifiable f S =
     concat (map
       (\<lambda>(index, s).
          (case S of
             None \<Rightarrow> []
           | Some suite \<Rightarrow>
               map (\<lambda>command. broke_spec index (spc_task s) (SF_OutsideTheSuite command (suite_command suite)))
                 (concat (map (\<lambda>t. suite_outside suite (stt_cmd t)) (spc_tests s))))
          @ map (\<lambda>f. broke_spec index (spc_task s) (SF_UnrunSpecFile (tfl_path f))) (unrun_files s)
          @ map (\<lambda>t. broke_spec index (spc_task s) (SF_SpecTestRunsNoSpecFile (stt_cmd t))) (hollow_tests s))
       (enumerate 0 (sf_specs f)))"

section \<open>When no rule is broken\<close>

definition spec_ok :: "spec_file \<Rightarrow> bool" where
  "spec_ok f \<longleftrightarrow>
     distinct (map spc_task (sf_specs f))
   \<and> distinct (map file_in_repo (concat (map spc_files (sf_specs f))))
   \<and> (\<forall>s \<in> set (sf_specs f).
        spc_tests s \<noteq> [] \<and> (\<forall>t \<in> set (spc_tests s). trim (stt_proves t) \<noteq> [])
      \<and> (\<forall>file \<in> set (spc_files s). inside_repo (tfl_path file)))"

lemma files_faults_seen: "set (snd (files_faults fs seen)) = set seen \<union> file_in_repo ` set fs"
  by (induction fs seen rule: files_faults.induct) (auto simp: Let_def split: prod.split)

lemma files_faults_Nil:
  "fst (files_faults fs seen) = [] \<longleftrightarrow>
     distinct (map file_in_repo fs) \<and> file_in_repo ` set fs \<inter> set seen = {}
   \<and> (\<forall>f \<in> set fs. inside_repo (tfl_path f))"
  by (induction fs seen rule: files_faults.induct) (auto simp: Let_def split: prod.split)

lemma unexplained_Nil: "unexplained_tests s = [] \<longleftrightarrow> (\<forall>t \<in> set (spc_tests s). trim (stt_proves t) \<noteq> [])"
  by (simp add: unexplained_tests_def filter_empty_conv)

text \<open>How the conditions of a document split between its first spec and the rest.\<close>

lemma spec_conditions:
  assumes "L \<longleftrightarrow> b \<and> t \<and> p \<and> f \<and> c" "f \<longleftrightarrow> d1 \<and> fp \<and> ins"
    and "c \<longleftrightarrow> ds \<and> tt \<and> d2 \<and> (gp \<and> fg) \<and> os" "DT \<and> TT \<longleftrightarrow> b \<and> ds \<and> tt"
    and "DF \<longleftrightarrow> d1 \<and> d2 \<and> fg" "AP \<longleftrightarrow> fp \<and> gp" "OK \<longleftrightarrow> (t \<and> p \<and> ins) \<and> os"
  shows "L \<longleftrightarrow> DT \<and> TT \<and> DF \<and> AP \<and> OK"
  using assms by blast

lemma check_specs_Nil:
  "check_specs i ss tasks paths = [] \<longleftrightarrow>
     distinct (map spc_task ss) \<and> spc_task ` set ss \<inter> set tasks = {}
   \<and> distinct (map file_in_repo (concat (map spc_files ss)))
   \<and> file_in_repo ` set (concat (map spc_files ss)) \<inter> set paths = {}
   \<and> (\<forall>s \<in> set ss. spc_tests s \<noteq> [] \<and> (\<forall>t \<in> set (spc_tests s). trim (stt_proves t) \<noteq> [])
        \<and> (\<forall>file \<in> set (spc_files s). inside_repo (tfl_path file)))"
proof (induction i ss tasks paths rule: check_specs.induct)
  case (2 i s ss tasks paths)
  obtain faults paths' where ff: "files_faults (spc_files s) paths = (faults, paths')" by force
  have paths': "set paths' = set paths \<union> file_in_repo ` set (spc_files s)"
    using files_faults_seen [of "spc_files s" paths] by (simp add: ff)
  have faults: "faults = [] \<longleftrightarrow> distinct (map file_in_repo (spc_files s))
      \<and> file_in_repo ` set (spc_files s) \<inter> set paths = {} \<and> (\<forall>f \<in> set (spc_files s). inside_repo (tfl_path f))"
    using files_faults_Nil [of "spc_files s" paths] by (simp add: ff)
  have step: "check_specs i (s # ss) tasks paths = [] \<longleftrightarrow>
      spc_task s \<notin> set tasks \<and> spc_tests s \<noteq> [] \<and> (\<forall>t \<in> set (spc_tests s). trim (stt_proves t) \<noteq> [])
    \<and> faults = [] \<and> check_specs (Suc i) ss (spc_task s # tasks) paths' = []"
    by (simp add: ff Let_def unexplained_Nil)
  let ?F = "file_in_repo ` set (spc_files s)" and ?G = "file_in_repo ` set (concat (map spc_files ss))"
  let ?ok = "\<lambda>s. spc_tests s \<noteq> [] \<and> (\<forall>t \<in> set (spc_tests s). trim (stt_proves t) \<noteq> [])
      \<and> (\<forall>file \<in> set (spc_files s). inside_repo (tfl_path file))"
  have tasks: "distinct (map spc_task (s # ss)) \<and> spc_task ` set (s # ss) \<inter> set tasks = {} \<longleftrightarrow>
      spc_task s \<notin> set tasks \<and> distinct (map spc_task ss)
    \<and> spc_task ` set ss \<inter> set (spc_task s # tasks) = {}"
    by auto
  have files: "distinct (map file_in_repo (concat (map spc_files (s # ss)))) \<longleftrightarrow>
      distinct (map file_in_repo (spc_files s)) \<and> distinct (map file_in_repo (concat (map spc_files ss))) \<and> ?F \<inter> ?G = {}"
    by (simp add: distinct_append del: set_concat)
  have apart: "file_in_repo ` set (concat (map spc_files (s # ss))) \<inter> set paths = {} \<longleftrightarrow>
      ?F \<inter> set paths = {} \<and> ?G \<inter> set paths = {}"
    by (simp add: image_Un Int_Un_distrib2 del: set_concat)
  have reached: "?G \<inter> (set paths \<union> ?F) = {} \<longleftrightarrow> ?G \<inter> set paths = {} \<and> ?F \<inter> ?G = {}" by blast
  have oks: "(\<forall>q \<in> set (s # ss). ?ok q) \<longleftrightarrow> ?ok s \<and> (\<forall>q \<in> set ss. ?ok q)" by simp
  note IH = "2.IH" [OF ff [symmetric] refl refl, unfolded paths' reached]
  show ?case
    by (rule spec_conditions [OF step faults IH tasks files apart oks])
qed simp

text \<open>A spec document breaks no rule exactly when each task has one spec, each spec a test that says
  what it proves, and each file is named once, inside the repository and outside its \<open>.git\<close>.\<close>

lemma check_spec_iff: "check_spec f = [] \<longleftrightarrow> spec_ok f"
  by (simp add: check_spec_def check_specs_Nil spec_ok_def conj_ac)

end
