(* ===== verification/Judged.thy ===== *)
theory Judged
  imports Spec_Document Run_Ledger
begin

text \<open>
  The criteria a task is judged by (\<open>engine/src/tasks/judged.rs\<close>): the ones its document declares, the
  commands the run's lineage measured green, the tests the run's spec gives it, less the ones of its plan
  a person accepted departing from. The properties say which commands those are, and that no accepted
  departure lifts a measured command or a test of the spec.
\<close>

section \<open>What holds a task\<close>

definition held_proves :: string where
  "held_proves = ''what passed before this run changed anything still passes after this task's change''"

definition runs :: "string \<Rightarrow> plan_criterion \<Rightarrow> bool" where
  "runs cmd c \<longleftrightarrow> trim (pc_cmd c) = cmd"

fun hold_to :: "string list \<Rightarrow> plan_criterion list \<Rightarrow> plan_criterion list" where
  "hold_to [] criteria = criteria"
| "hold_to (command # green) criteria =
     (if list_ex (runs (trim command)) criteria then hold_to green criteria
      else hold_to green
        (criteria @ [\<lparr>pc_cmd = trim command, pc_type = Some Guard, pc_proves = Some held_proves\<rparr>]))"

definition judged_task :: "task \<Rightarrow> string list \<Rightarrow> task" where
  "judged_task t green = t\<lparr>tk_criteria := hold_to green (tk_criteria t)\<rparr>"

fun add_tests :: "plan_criterion list \<Rightarrow> plan_criterion list \<Rightarrow> plan_criterion list" where
  "add_tests [] criteria = criteria"
| "add_tests (test # tests) criteria =
     add_tests tests (if list_ex (runs (trim (pc_cmd test))) criteria then criteria else criteria @ [test])"

definition specified :: "task \<Rightarrow> spec_file option \<Rightarrow> task" where
  "specified t spec =
     (case Option.bind spec (\<lambda>f. spec_of f (tk_id t)) of
        None \<Rightarrow> t
      | Some s \<Rightarrow> t\<lparr>tk_criteria := add_tests (spec_criteria s) (tk_criteria t)\<rparr>)"

datatype held_by = Held_Plan | Held_Spec | Held_Baseline

text \<open>What the lineage measured: the held commands in the order of their names, then the suite.\<close>

definition measured :: "run_ledger \<Rightarrow> (string \<times> bool) list" where
  "measured L =
     map (\<lambda>h. (trim (bh_command h), held_passed h)) (om_values (rl_held L))
     @ (case rl_baseline L of None \<Rightarrow> [] | Some s \<Rightarrow> [(trim (bc_command s), baseline_passed s)])"

definition held_of_run :: "run_ledger \<Rightarrow> string list" where
  "held_of_run L = map fst (filter snd (measured L))"

definition what_holds :: "task_id \<Rightarrow> string \<Rightarrow> string list \<Rightarrow> spec_file option \<Rightarrow> held_by" where
  "what_holds t cmd green spec =
     (let cmd = trim cmd
      in if list_ex (\<lambda>command. trim command = cmd) green then Held_Baseline
         else if is_some_and (Option.bind spec (\<lambda>f. spec_of f t))
                   (\<lambda>s. list_ex (\<lambda>test. trim (stt_cmd test) = cmd) (spc_tests s))
         then Held_Spec else Held_Plan)"

definition departed_commands :: "task_id \<Rightarrow> accepted_departure list \<Rightarrow> string list \<Rightarrow> spec_file option \<Rightarrow> string list" where
  "departed_commands t accepted green spec =
     filter (\<lambda>cmd. what_holds t cmd green spec = Held_Plan)
       (List.map_filter
         (\<lambda>a. case dd_from (ad_declared a) of Criterion_Dep cmd \<Rightarrow> Some (trim cmd) | _ \<Rightarrow> None) accepted)"

definition waived :: "task \<Rightarrow> accepted_departure list \<Rightarrow> string list \<Rightarrow> spec_file option \<Rightarrow> task" where
  "waived t accepted green spec =
     (let departed = departed_commands (tk_id t) accepted green spec
      in t\<lparr>tk_criteria := filter (\<lambda>c. \<not> List.member departed (trim (pc_cmd c))) (tk_criteria t)\<rparr>)"

definition accepted_of :: "task_ledger \<Rightarrow> task_id \<Rightarrow> accepted_departure list" where
  "accepted_of L t = (case task_get L t of None \<Rightarrow> [] | Some r \<Rightarrow> tr_departures_accepted r)"

definition judged_plan :: "tasks_file \<Rightarrow> string list \<Rightarrow> spec_file option \<Rightarrow> task_ledger \<Rightarrow> tasks_file" where
  "judged_plan plan green spec L =
     plan\<lparr>tf_tasks := map
       (\<lambda>t. waived (specified (judged_task t green) spec) (accepted_of L (tk_id t)) green spec) (tf_tasks plan)\<rparr>"

section \<open>The commands of a judged task\<close>

definition commands_of :: "plan_criterion list \<Rightarrow> string list" where
  "commands_of cs = map (\<lambda>c. trim (pc_cmd c)) cs"

definition tests_for :: "spec_file option \<Rightarrow> task_id \<Rightarrow> string list" where
  "tests_for spec t =
     (case Option.bind spec (\<lambda>f. spec_of f t) of None \<Rightarrow> [] | Some s \<Rightarrow> map (\<lambda>x. trim (stt_cmd x)) (spc_tests s))"

lemma list_ex_runs: "list_ex (runs cmd) cs \<longleftrightarrow> cmd \<in> set (commands_of cs)"
  by (auto simp: list_ex_iff runs_def commands_of_def)

lemma trim_start_trim_start: "trim_start (trim_start s) = trim_start s"
  by (simp add: trim_start_def dropWhile_idem)

lemma trim_trim [simp]: "trim (trim s) = trim s"
proof -
  have last: "trim_end w = [] \<or> \<not> is_whitespace (List.last (trim_end w))" for w
    using hd_dropWhile [of is_whitespace "rev w"] by (auto simp: trim_end_def last_rev)
  have first: "\<not> is_whitespace (hd (trim_end w))" if "\<not> is_whitespace (hd w)" "trim_end w \<noteq> []" for w
  proof -
    have "w = trim_end w @ rev (takeWhile is_whitespace (rev w))"
      by (simp add: trim_end_def rev_append [symmetric])
    with that show ?thesis by (metis hd_append2)
  qed
  have "trim_start s = [] \<or> \<not> is_whitespace (hd (trim_start s))"
    using hd_dropWhile [of is_whitespace s] by (auto simp: trim_start_def)
  then have "trim s = [] \<or> \<not> is_whitespace (hd (trim s)) \<and> \<not> is_whitespace (List.last (trim s))"
    using last [of "trim_start s"] first [of "trim_start s"] by (auto simp: trim_def) (simp add: trim_end_def)
  then show ?thesis by (rule trim_idle)
qed

lemma commands_hold_to: "set (commands_of (hold_to green cs)) = set (commands_of cs) \<union> trim ` set green"
  by (induction green cs rule: hold_to.induct) (auto simp: list_ex_runs commands_of_def)

lemma commands_add_tests: "set (commands_of (add_tests ts cs)) = set (commands_of cs) \<union> set (commands_of ts)"
  by (induction ts cs rule: add_tests.induct) (auto simp: list_ex_runs commands_of_def)

lemma commands_spec_criteria: "commands_of (spec_criteria s) = map (\<lambda>x. trim (stt_cmd x)) (spc_tests s)"
  by (simp add: commands_of_def spec_criteria_def)

lemma commands_specified:
  "set (commands_of (tk_criteria (specified t spec))) = set (commands_of (tk_criteria t)) \<union> set (tests_for spec (tk_id t))"
  by (simp add: specified_def tests_for_def commands_add_tests commands_spec_criteria split: option.split)

lemma commands_waived:
  "set (commands_of (tk_criteria (waived t accepted green spec))) =
     set (commands_of (tk_criteria t)) - set (departed_commands (tk_id t) accepted green spec)"
  by (auto simp: waived_def commands_of_def Let_def)

lemma list_ex_image: "list_ex (\<lambda>x. f x = c) xs \<longleftrightarrow> c \<in> f ` set xs"
  by (induction xs) auto

lemma what_holds_Plan:
  "what_holds t cmd green spec = Held_Plan \<longleftrightarrow> trim cmd \<notin> trim ` set green \<and> trim cmd \<notin> set (tests_for spec t)"
  by (cases "Option.bind spec (\<lambda>f. spec_of f t)") (simp_all add: what_holds_def tests_for_def Let_def list_ex_image)

text \<open>The commands a person accepted departing from.\<close>

definition waivers :: "accepted_departure list \<Rightarrow> string set" where
  "waivers accepted = {trim cmd | a cmd. a \<in> set accepted \<and> dd_from (ad_declared a) = Criterion_Dep cmd}"

lemma departed_commands_eq:
  "set (departed_commands t accepted green spec) =
     waivers accepted - trim ` set green - set (tests_for spec t)"
  by (auto simp: departed_commands_def what_holds_Plan waivers_def map_filter_def
      split: departs_from.splits option.splits) (force split: departs_from.splits)+

lemma judged_ids: "tk_id (judged_task t green) = tk_id t" "tk_id (specified t spec) = tk_id t"
  by (simp_all add: judged_task_def specified_def split: option.split)

lemma judged_commands:
  "map (\<lambda>t. set (commands_of (tk_criteria t))) (tf_tasks (judged_plan plan green spec L)) =
   map (\<lambda>t. (set (commands_of (tk_criteria t)) - waivers (accepted_of L (tk_id t)))
            \<union> trim ` set green \<union> set (tests_for spec (tk_id t))) (tf_tasks plan)"
proof -
  have "set (commands_of (tk_criteria (waived (specified (judged_task t green) spec) accepted green spec))) =
      (set (commands_of (tk_criteria t)) - waivers accepted) \<union> trim ` set green \<union> set (tests_for spec (tk_id t))"
    for t accepted
    unfolding commands_waived commands_specified departed_commands_eq judged_ids
    by (auto simp: judged_task_def commands_hold_to)
  then show ?thesis by (simp add: judged_plan_def comp_def)
qed

text \<open>C33. A task is judged by exactly its own commands, the ones measured green and the tests of its spec,
  less what only its plan holds it to and a person accepted departing from.\<close>

theorem judged_by_exactly:
  "map (\<lambda>t. set (commands_of (tk_criteria t))) (tf_tasks (judged_plan plan green spec L)) =
   map (\<lambda>t. (set (commands_of (tk_criteria t)) - waivers (accepted_of L (tk_id t)))
            \<union> trim ` set green \<union> set (tests_for spec (tk_id t))) (tf_tasks plan)"
  by (rule judged_commands)

section \<open>Guards\<close>

lemma hold_to_extends: "\<exists>added. hold_to green cs = cs @ added
    \<and> list_all criterion_is_guard added"
proof (induction green cs rule: hold_to.induct)
  case (2 command green criteria)
  show ?case
  proof (cases "list_ex (runs (trim command)) criteria")
    case True
    then show ?thesis using "2.IH"(1) by simp
  next
    case False
    let ?guard = "\<lparr>pc_cmd = trim command, pc_type = Some Guard, pc_proves = Some held_proves\<rparr>"
    from False "2.IH"(2) obtain added where
      "hold_to green (criteria @ [?guard]) = (criteria @ [?guard]) @ added" "list_all criterion_is_guard added"
      by blast
    with False show ?thesis
      by (intro exI [of _ "?guard # added"]) (simp add: criterion_is_guard_def [abs_def])
  qed
qed simp

lemma add_tests_extends: "\<exists>added. add_tests ts cs = cs @ added \<and> set added \<subseteq> set ts"
proof (induction ts cs rule: add_tests.induct)
  case (2 test ts cs)
  then show ?case by (cases "list_ex (runs (trim (pc_cmd test))) cs") force+
qed simp

end
