(* ===== verification/Registration.thy ===== *)
theory Registration
  imports Tasks_Document Replay
begin

text \<open>
  What a tasks document entails in the run that takes it (\<open>engine/src/tasks/mod.rs\<close>), what another run
  leaves standing about its tasks and what of that the receiving tree has (\<open>tasks/crossing.rs\<close>), and the
  tests owed again (\<open>tasks/respecified.rs\<close>). Git is a parameter: the head of a tree, whether the repository
  has a commit, and whether one commit is an ancestor of another. The properties say what a ledger holds
  of every task once a document is registered, and, of a document another run hands over, which of its
  tasks cross done, read off that run's log.
\<close>

section \<open>Registering a document\<close>

record task_identity =
  ti_criteria :: "criterion list"
  ti_scope :: "scope_glob list"

definition identity_of :: "task \<Rightarrow> task_identity" where
  "identity_of t = \<lparr>ti_criteria = map logged_criterion (tk_criteria t), ti_scope = tk_scope t\<rparr>"

definition registered_in :: "stored_event \<Rightarrow> (task_id \<times> task_identity) option" where
  "registered_in e =
     (case payload_of e of
        Some (Tasks_Payload (Task_Registered p)) \<Rightarrow>
          Some (tg_task p, \<lparr>ti_criteria = tg_criteria p, ti_scope = tg_scope p\<rparr>)
      | _ \<Rightarrow> None)"

definition prior_registrations :: "stored_event list \<Rightarrow> (task_id, task_identity) omap" where
  "prior_registrations es = foldl (\<lambda>m (t, i). om_put t i m) [] (List.map_filter registered_in es)"

datatype follow = Follow_Reset | Follow_Done commit_sha

definition stays_done :: "task \<Rightarrow> (task_id, task_identity) omap \<Rightarrow> task_ledger \<Rightarrow> bool" where
  "stays_done t prior L \<longleftrightarrow>
     task_status_of L (tk_id t) = Some Done \<and> is_none_or (om_get prior (tk_id t)) (\<lambda>i. i = identity_of t)"

definition follow_of ::
  "(task_id, task_identity) omap \<Rightarrow> task_ledger \<Rightarrow> (task_id, commit_sha) omap \<Rightarrow> task \<Rightarrow> follow option" where
  "follow_of prior L carried t =
     (let recut = is_some_and (om_get prior (tk_id t)) (\<lambda>i. i \<noteq> identity_of t)
      in if recut then Some Follow_Reset
         else map_option Follow_Done
           (filter_opt (\<lambda>_. task_status_of L (tk_id t) \<noteq> Some Done) (om_get carried (tk_id t))))"

definition plan_registration ::
  "tasks_file \<Rightarrow> (task_id, task_identity) omap \<Rightarrow> task_ledger \<Rightarrow> (task_id, commit_sha) omap \<Rightarrow>
     (task \<times> follow option) list" where
  "plan_registration f prior L carried = map (\<lambda>t. (t, follow_of prior L carried t)) (tf_tasks f)"

definition registration_of :: "task \<Rightarrow> task_registered" where
  "registration_of t =
     \<lparr>tg_task = tk_id t, tg_criteria = map logged_criterion (tk_criteria t), tg_scope = tk_scope t,
      tg_depends_on = tk_depends_on t\<rparr>"

definition follow_change :: "task_id \<Rightarrow> seq \<Rightarrow> follow \<Rightarrow> status_changed" where
  "follow_change t cause fl =
     (case fl of
        Follow_Reset \<Rightarrow> status_to t Pending cause
      | Follow_Done commit \<Rightarrow> status_done t cause commit)"

text \<open>The events a registration writes, in order, given the position the log answers each write with.\<close>

fun registration_events :: "(nat \<Rightarrow> seq) \<Rightarrow> nat \<Rightarrow> (task \<times> follow option) list \<Rightarrow> (seq \<times> task_event) list" where
  "registration_events pos n [] = []"
| "registration_events pos n ((t, fl) # ps) =
     (pos n, Task_Registered (registration_of t))
     # (case fl of
          None \<Rightarrow> registration_events pos (Suc n) ps
        | Some fl \<Rightarrow>
            (pos (Suc n), StatusChanged (follow_change (tk_id t) (pos n) fl))
            # registration_events pos (Suc (Suc n)) ps)"

definition register ::
  "(nat \<Rightarrow> seq) \<Rightarrow> stored_event list \<Rightarrow> task_ledger \<Rightarrow> tasks_file \<Rightarrow> (task_id, commit_sha) omap \<Rightarrow>
     (seq \<times> task_event) list" where
  "register pos es L f carried =
     registration_events pos 0 (plan_registration f (prior_registrations es) L carried)"

text \<open>The ledger that reads them, each under the node the document entered through.\<close>

fun ledger_reads :: "node_id option \<Rightarrow> instant \<Rightarrow> (seq \<times> task_event) list \<Rightarrow> task_ledger \<Rightarrow> unknown_task + task_ledger" where
  "ledger_reads n now [] L = Inr L"
| "ledger_reads n now ((s, e) # es) L =
     (case tasks_apply L e \<lparr>m_seq = s, m_at = now, m_node = n\<rparr> of
        Inl u \<Rightarrow> Inl u
      | Inr L' \<Rightarrow> ledger_reads n now es L')"

section \<open>What another run leaves standing\<close>

record run_standing =
  std_done :: "(task_id, commit_sha option) omap"

definition places :: "stored_event \<Rightarrow> (task_id \<times> commit_sha option) option" where
  "places e =
     (case payload_of e of
        Some (Tasks_Payload (StatusChanged p)) \<Rightarrow>
          if sc_status p = Done then Some (sc_task p, sc_commit p) else None
      | _ \<Rightarrow> None)"

definition standing_of :: "stored_event list \<Rightarrow> run_state \<Rightarrow> string + run_standing" where
  "standing_of es st =
     (case rs_broken st of
        Some diagnostic \<Rightarrow> Inl diagnostic
      | None \<Rightarrow>
          (let placed = foldl (\<lambda>m (t, c). om_put t c m) [] (List.map_filter places es)
           in Inr \<lparr>std_done =
                map (\<lambda>(t, _). (t, Option.bind (om_get placed t) (\<lambda>c. c)))
                  (filter (\<lambda>(_, r). tr_status r = Done) (per_task (rs_tasks st)))\<rparr>))"

definition placed_in :: "run_standing \<Rightarrow> task \<Rightarrow> (task_id \<times> commit_sha) option" where
  "placed_in S t =
     (case om_get (std_done S) (tk_id t) of Some (Some commit) \<Rightarrow> Some (tk_id t, commit) | _ \<Rightarrow> None)"

fun carry :: "(commit_sha \<Rightarrow> 'e + bool) \<Rightarrow> (commit_sha, bool) omap \<Rightarrow> (task_id, commit_sha) omap \<Rightarrow>
    (task_id \<times> commit_sha) list \<Rightarrow> 'e + (task_id, commit_sha) omap" where
  "carry in_tree pos carried [] = Inr carried"
| "carry in_tree pos carried ((t, commit) # ps) =
     (case (case om_get pos commit of
              Some a \<Rightarrow> Inr (a, pos)
            | None \<Rightarrow>
                (case in_tree commit of
                   Inl e \<Rightarrow> Inl e
                 | Inr a \<Rightarrow> Inr (a, om_put commit a pos))) of
        Inl e \<Rightarrow> Inl e
      | Inr (a, known') \<Rightarrow>
          carry in_tree known' (if a then om_put t commit carried else carried) ps)"

definition has_commit ::
  "(commit_sha \<Rightarrow> 'e + string option) \<Rightarrow> (commit_sha \<Rightarrow> commit_sha \<Rightarrow> 'e + bool) \<Rightarrow>
     commit_sha \<Rightarrow> commit_sha \<Rightarrow> 'e + bool" where
  "has_commit verify ancestor head commit =
     (case verify commit of
        Inl e \<Rightarrow> Inl e
      | Inr None \<Rightarrow> Inr False
      | Inr (Some _) \<Rightarrow> ancestor commit head)"

definition carried_into ::
  "('e + commit_sha) \<Rightarrow> (commit_sha \<Rightarrow> 'e + string option) \<Rightarrow> (commit_sha \<Rightarrow> commit_sha \<Rightarrow> 'e + bool) \<Rightarrow>
     run_standing \<Rightarrow> tasks_file \<Rightarrow> 'e + (task_id, commit_sha) omap" where
  "carried_into head verify ancestor S f =
     (let placed = List.map_filter (placed_in S) (tf_tasks f)
      in if placed = [] then Inr []
         else case head of
           Inl e \<Rightarrow> Inl e
         | Inr head \<Rightarrow> carry (has_commit verify ancestor head) [] [] placed)"

section \<open>The tests owed again\<close>

definition respecifications_owed :: "run_state \<Rightarrow> (task_id \<times> respecified) list" where
  "respecifications_owed st =
     filter
       (\<lambda>(_, owed). is_none_or (latest_artifact (rs_artifacts st) (artifact_id.Interpreted Spec_Kind) (Some (rsp_by owed)))
          (\<lambda>w. af_seq w < rsp_at owed))
       (List.map_filter (\<lambda>(t, r). map_option (\<lambda>owed. (t, owed)) (tr_respecified r)) (per_task (rs_tasks st)))"

section \<open>What a ledger holds once a document is registered\<close>

text \<open>What registering one task leaves of its record.\<close>

definition registered_record :: "node_id option \<Rightarrow> seq \<Rightarrow> task_record \<Rightarrow> task_record" where
  "registered_record n s r =
     r\<lparr>tr_owner := or_else (tr_owner r) n, tr_registered_at := or_else (tr_registered_at r) (Some s)\<rparr>"

lemma reads_registered:
  "ledger_reads n now ((s, Task_Registered (registration_of t)) # es) L =
     ledger_reads n now es
       (L\<lparr>per_task := om_put (tk_id t) (registered_record n s (task_rec L (tk_id t))) (per_task L)\<rparr>)"
  by (simp add: registration_of_def om_entry_def registered_record_def task_rec_def task_get_def)

lemma reads_followed:
  "task_get L (tk_id t) = Some r \<Longrightarrow>
     ledger_reads n now ((s, StatusChanged (follow_change (tk_id t) cause fl)) # es) L =
     ledger_reads n now es
       (L\<lparr>per_task := om_put (tk_id t) (record_status r (follow_change (tk_id t) cause fl)
                          \<lparr>m_seq = s, m_at = now, m_node = n\<rparr>) (per_task L),
          tl_caused := os_insert cause (tl_caused L)\<rparr>)"
  by (cases fl) (simp_all add: task_status_changed_def task_get_def follow_change_def status_to_def status_done_def)

declare ledger_reads.simps(2) [simp del]

lemma get_put [simp]: "task_get (L\<lparr>per_task := om_put i r m\<rparr>) j = (if j = i then Some r else om_get m j)"
  by (simp add: task_get_def om_get_put)

lemma get_caused [simp]: "task_get (L\<lparr>tl_caused := c\<rparr>) j = task_get L j"
  by (simp add: task_get_def)

definition status_after :: "follow option \<Rightarrow> task_status option \<Rightarrow> task_status" where
  "status_after fl st =
     (case fl of
        None \<Rightarrow> unwrap_or st Pending
      | Some Follow_Reset \<Rightarrow> Pending
      | Some (Follow_Done _) \<Rightarrow> Done)"

text \<open>A later ledger holds what the plan settles of every task it names, and is otherwise the earlier one.\<close>

definition settled_by :: "task_ledger \<Rightarrow> (task \<times> follow option) list \<Rightarrow> task_ledger \<Rightarrow> bool" where
  "settled_by L ps L' \<longleftrightarrow>
     (\<forall>(t, fl) \<in> set ps. \<exists>r. task_get L' (tk_id t) = Some r
          \<and> tr_status r = status_after fl (task_status_of L (tk_id t))
          \<and> (\<forall>c. fl = Some (Follow_Done c) \<longrightarrow> tr_commit r = Some c))
     \<and> (\<forall>i. i \<notin> (\<lambda>p. tk_id (fst p)) ` set ps \<longrightarrow> task_get L' i = task_get L i)"

lemma settled_byD:
  assumes "settled_by L ps L'"
  shows "(t, fl) \<in> set ps \<Longrightarrow> \<exists>r. task_get L' (tk_id t) = Some r
          \<and> tr_status r = status_after fl (task_status_of L (tk_id t))
          \<and> (\<forall>c. fl = Some (Follow_Done c) \<longrightarrow> tr_commit r = Some c)"
    and "i \<notin> (\<lambda>p. tk_id (fst p)) ` set ps \<Longrightarrow> task_get L' i = task_get L i"
  using assms unfolding settled_by_def by blast+

lemma registration_settles:
  "distinct (map (\<lambda>p. tk_id (fst p)) ps) \<Longrightarrow>
   \<exists>L'. ledger_reads nd now (registration_events pos n ps) L = Inr L' \<and> settled_by L ps L'"
proof (induction pos n ps arbitrary: L rule: registration_events.induct)
  case (2 pos n t fl ps)
  let ?i = "tk_id t"
  let ?L1 = "L\<lparr>per_task := om_put ?i (registered_record nd (pos n) (task_rec L ?i)) (per_task L)\<rparr>"
  have later: "distinct (map (\<lambda>p. tk_id (fst p)) ps)" "?i \<notin> (\<lambda>p. tk_id (fst p)) ` set ps"
    using "2.prems" by simp_all
  have here: "task_status_of L ?i = None \<Longrightarrow> tr_status (task_rec L ?i) = Pending"
    "task_status_of L ?i = Some st \<Longrightarrow> tr_status (task_rec L ?i) = st" for st
    by (auto simp: task_status_of_def task_rec_def task_get_def task_record_default_def)
  obtain L2 m where step: "ledger_reads nd now (registration_events pos n ((t, fl) # ps)) L =
      ledger_reads nd now (registration_events pos m ps) L2"
    and m: "m = (case fl of None \<Rightarrow> Suc n | Some _ \<Rightarrow> Suc (Suc n))"
    and got: "\<exists>r. task_get L2 ?i = Some r \<and> tr_status r = status_after fl (task_status_of L ?i)
        \<and> (\<forall>c. fl = Some (Follow_Done c) \<longrightarrow> tr_commit r = Some c)"
    and others: "\<And>j. j \<noteq> ?i \<Longrightarrow> task_get L2 j = task_get L j"
  proof (cases fl)
    case None
    have "tr_status (task_rec L ?i) = unwrap_or (task_status_of L ?i) Pending"
      by (cases "task_status_of L ?i") (simp_all add: here)
    then show thesis
      by (intro that [of "Suc n" ?L1])
        (simp_all add: None reads_registered registered_record_def status_after_def, simp_all add: task_get_def om_get_put)
  next
    case (Some f)
    let ?p = "follow_change ?i (pos n) f" and ?m = "\<lparr>m_seq = pos (Suc n), m_at = now, m_node = nd\<rparr>"
    let ?r = "record_status (registered_record nd (pos n) (task_rec L ?i)) ?p ?m"
    let ?L2 = "?L1\<lparr>per_task := om_put ?i ?r (per_task ?L1), tl_caused := os_insert (pos n) (tl_caused ?L1)\<rparr>"
    have "ledger_reads nd now (registration_events pos n ((t, fl) # ps)) L =
        ledger_reads nd now (registration_events pos (Suc (Suc n)) ps) ?L2"
      using reads_followed [of ?L1 t "registered_record nd (pos n) (task_rec L ?i)"]
      by (simp add: Some reads_registered)
    moreover have "tr_status ?r = status_after fl (task_status_of L ?i)"
      "\<forall>c. fl = Some (Follow_Done c) \<longrightarrow> tr_commit ?r = Some c"
      by (cases f; simp add: Some record_status_def follow_change_def status_to_def status_done_def status_after_def)+
    ultimately show thesis
      by (intro that [of "Suc (Suc n)" ?L2]) (simp_all add: Some task_get_def om_get_put)
  qed
  have "\<exists>L'. ledger_reads nd now (registration_events pos m ps) L2 = Inr L' \<and> settled_by L2 ps L'"
  proof (cases fl)
    case None
    then show ?thesis using "2.IH"(1) [OF None later(1), of L2] m by simp
  next
    case (Some f)
    then show ?thesis using "2.IH"(2) [OF Some later(1), of L2] m by simp
  qed
  then obtain L' where L': "ledger_reads nd now (registration_events pos m ps) L2 = Inr L'" "settled_by L2 ps L'"
    by blast
  have same: "task_status_of L2 (tk_id u) = task_status_of L (tk_id u)" if "(u, g) \<in> set ps" for u g
    using others [of "tk_id u"] later(2) that by (force simp: task_status_of_def task_get_def)
  have "settled_by L ((t, fl) # ps) L'"
    unfolding settled_by_def
  proof (intro conjI ballI allI impI)
    fix entry assume "entry \<in> set ((t, fl) # ps)"
    then have "entry = (t, fl) \<or> entry \<in> set ps" by simp
    then consider "entry = (t, fl)" | u g where "entry = (u, g)" "(u, g) \<in> set ps" by (metis surj_pair)
    then show "case entry of (t, fl) \<Rightarrow> \<exists>r. task_get L' (tk_id t) = Some r
          \<and> tr_status r = status_after fl (task_status_of L (tk_id t))
          \<and> (\<forall>c. fl = Some (Follow_Done c) \<longrightarrow> tr_commit r = Some c)"
    proof cases
      case 1
      then show ?thesis using got settled_byD(2) [OF L'(2) later(2)] by simp
    next
      case 2
      then show ?thesis using settled_byD(1) [OF L'(2), of u g] same [of u g] by simp
    qed
  next
    fix i assume "i \<notin> (\<lambda>p. tk_id (fst p)) ` set ((t, fl) # ps)"
    then show "task_get L' i = task_get L i" using settled_byD(2) [OF L'(2), of i] others [of i] by simp
  qed
  moreover have "ledger_reads nd now (registration_events pos n ((t, fl) # ps)) L = Inr L'"
    using step L'(1) by simp
  ultimately show ?case by blast
qed (simp add: settled_by_def)

text \<open>The task the log registered under an id was cut another way.\<close>

definition recut :: "(task_id, task_identity) omap \<Rightarrow> task \<Rightarrow> bool" where
  "recut prior t \<longleftrightarrow> is_some_and (om_get prior (tk_id t)) (\<lambda>i. i \<noteq> identity_of t)"

lemma follow_of_cases:
  "follow_of prior L carried t =
     (if recut prior t then Some Follow_Reset
      else case om_get carried (tk_id t) of
        None \<Rightarrow> None
      | Some c \<Rightarrow> if task_status_of L (tk_id t) = Some Done then None else Some (Follow_Done c))"
  by (simp add: follow_of_def recut_def Let_def filter_opt_def split: option.split)

lemma register_reads:
  assumes "distinct (map tk_id (tf_tasks f))"
  obtains L' where "ledger_reads nd now (register pos es L f carried) L = Inr L'"
    "\<And>t. t \<in> set (tf_tasks f) \<Longrightarrow> \<exists>r. task_get L' (tk_id t) = Some r
       \<and> tr_status r = status_after (follow_of (prior_registrations es) L carried t) (task_status_of L (tk_id t))
       \<and> (\<forall>c. follow_of (prior_registrations es) L carried t = Some (Follow_Done c) \<longrightarrow> tr_commit r = Some c)"
    "\<And>i. i \<notin> tk_id ` set (tf_tasks f) \<Longrightarrow> task_get L' i = task_get L i"
proof -
  let ?ps = "plan_registration f (prior_registrations es) L carried"
  have ids: "map (\<lambda>p. tk_id (fst p)) ?ps = map tk_id (tf_tasks f)"
    by (simp add: plan_registration_def comp_def)
  then have "distinct (map (\<lambda>p. tk_id (fst p)) ?ps)" using assms by simp
  from registration_settles [OF this, of nd now pos 0 L] obtain L' where
    L': "ledger_reads nd now (register pos es L f carried) L = Inr L'" "settled_by L ?ps L'"
    by (auto simp: register_def)
  have ids: "(\<lambda>p. tk_id (fst p)) ` set ?ps = tk_id ` set (tf_tasks f)"
    by (simp add: plan_registration_def image_image)
  have planned: "(t, follow_of (prior_registrations es) L carried t) \<in> set ?ps" if "t \<in> set (tf_tasks f)" for t
    using that by (simp add: plan_registration_def)
  show thesis
    by (rule that [OF L'(1) settled_byD(1) [OF L'(2) planned] settled_byD(2) [OF L'(2)]]) (simp_all add: ids)
qed

text \<open>C31. Registering a document reads without an error, and leaves a task cut another way pending, one that
  crossed done, and every other at the status it had, pending when it had none; a task that is done and
  cut as registered stays done; no other task's record moves.\<close>

theorem registration_settles_every_task:
  assumes "distinct (map tk_id (tf_tasks f))"
  shows "\<exists>L'. ledger_reads nd now (register pos es L f carried) L = Inr L'
    \<and> (\<forall>t \<in> set (tf_tasks f).
         task_status_of L' (tk_id t) = Some
           (if recut (prior_registrations es) t then Pending
            else if om_get carried (tk_id t) \<noteq> None then Done
            else unwrap_or (task_status_of L (tk_id t)) Pending)
       \<and> (stays_done t (prior_registrations es) L \<longrightarrow> task_status_of L' (tk_id t) = Some Done))
    \<and> (\<forall>i. i \<notin> tk_id ` set (tf_tasks f) \<longrightarrow> task_get L' i = task_get L i)"
proof -
  obtain L' where L': "ledger_reads nd now (register pos es L f carried) L = Inr L'"
    "\<And>t. t \<in> set (tf_tasks f) \<Longrightarrow> \<exists>r. task_get L' (tk_id t) = Some r
       \<and> tr_status r = status_after (follow_of (prior_registrations es) L carried t) (task_status_of L (tk_id t))
       \<and> (\<forall>c. follow_of (prior_registrations es) L carried t = Some (Follow_Done c) \<longrightarrow> tr_commit r = Some c)"
    "\<And>i. i \<notin> tk_id ` set (tf_tasks f) \<Longrightarrow> task_get L' i = task_get L i"
    using register_reads [OF assms, of nd now pos es L carried] by blast
  have status: "task_status_of L' (tk_id t) = Some
      (if recut (prior_registrations es) t then Pending
       else if om_get carried (tk_id t) \<noteq> None then Done
       else unwrap_or (task_status_of L (tk_id t)) Pending)" if "t \<in> set (tf_tasks f)" for t
    using L'(2) [OF that]
    by (auto simp: task_status_of_def task_get_def follow_of_cases status_after_def split: option.splits if_splits)
  moreover have "task_status_of L' (tk_id t) = Some Done"
    if "t \<in> set (tf_tasks f)" "stays_done t (prior_registrations es) L" for t
    using status [OF that(1)] that(2) by (auto simp: stays_done_def recut_def is_some_and_iff)
  ultimately show ?thesis using L'(1,3) by blast
qed

section \<open>What crosses\<close>

definition answers_truly :: "(commit_sha \<Rightarrow> 'e + bool) \<Rightarrow> (commit_sha, bool) omap \<Rightarrow> bool" where
  "answers_truly in_tree known \<longleftrightarrow> (\<forall>c a. om_get known c = Some a \<longrightarrow> in_tree c = Inr a)"

text \<open>The answers git gave before change nothing: what crosses is what each commit answers.\<close>

lemma carry_all:
  "carry in_tree known carried ps = Inr m \<Longrightarrow> answers_truly in_tree known \<Longrightarrow>
     m = foldl (\<lambda>m (t, c). if in_tree c = Inr True then om_put t c m else m) carried ps"
proof (induction ps arbitrary: known carried)
  case (Cons p ps)
  obtain t c where p: "p = (t, c)" by (cases p)
  show ?case
  proof (cases "om_get known c")
    case (Some b)
    moreover from Some Cons.prems(2) have "in_tree c = Inr b" by (simp add: answers_truly_def)
    ultimately show ?thesis using Cons.prems Cons.IH [of known] by (simp add: p split: if_splits)
  next
    case None
    with Cons.prems(1) obtain b where b: "in_tree c = Inr b" by (cases "in_tree c") (auto simp: p)
    with Cons.prems(2) have "answers_truly in_tree (om_put c b known)"
      by (simp add: answers_truly_def om_get_put)
    with None b Cons.prems(1) Cons.IH [of "om_put c b known"] show ?thesis by (simp add: p split: if_splits)
  qed
qed simp

lemma fold_carried:
  "distinct (map fst ps) \<Longrightarrow>
     om_get (foldl (\<lambda>m (t, c). if P c then om_put t c m else m) m0 ps) t =
       (case map_of ps t of Some c \<Rightarrow> if P c then Some c else om_get m0 t | None \<Rightarrow> om_get m0 t)"
proof (induction ps arbitrary: m0)
  case (Cons p ps)
  then have "fst p \<notin> fst ` set ps" by simp
  then have "map_of ps (fst p) = None" by (simp add: map_of_eq_None_iff)
  with Cons show ?case by (cases p) (auto simp: om_get_put split: option.split)
qed simp

lemma placed_map_of:
  "distinct (map tk_id ts) \<Longrightarrow>
     map_of (List.map_filter (placed_in S) ts) i =
       (if i \<in> tk_id ` set ts then Option.bind (om_get (std_done S) i) (\<lambda>c. c) else None)"
  by (induction ts) (auto simp: List.map_filter_simps placed_in_def split: option.splits)

lemma placed_distinct: "distinct (map tk_id ts) \<Longrightarrow> distinct (map fst (List.map_filter (placed_in S) ts))"
  by (induction ts) (auto simp: map_filter_simps map_filter_def placed_in_def split: option.splits)

lemma carried_exact:
  assumes "carried_into head verify ancestor S f = Inr m" "distinct (map tk_id (tf_tasks f))"
  shows "om_get m i = Some c \<longleftrightarrow>
    i \<in> tk_id ` set (tf_tasks f) \<and> om_get (std_done S) i = Some (Some c)
    \<and> (\<exists>h. head = Inr h \<and> has_commit verify ancestor h c = Inr True)"
proof -
  let ?placed = "List.map_filter (placed_in S) (tf_tasks f)"
  note crossing = placed_map_of [OF assms(2), of S i]
  show ?thesis
  proof (cases "?placed = []")
    case True
    then have "m = []" using assms(1) by (simp add: carried_into_def)
    then show ?thesis using crossing True by (auto split: if_splits)
  next
    case False
    then obtain h where h: "head = Inr h" "carry (has_commit verify ancestor h) [] [] ?placed = Inr m"
      using assms(1) by (auto simp: carried_into_def Let_def split: sum.splits)
    have "m = foldl (\<lambda>m (t, c). if has_commit verify ancestor h c = Inr True then om_put t c m else m) [] ?placed"
      using h(2) by (rule carry_all) (simp add: answers_truly_def)
    then have "om_get m i = (case map_of ?placed i of
        Some c \<Rightarrow> if has_commit verify ancestor h c = Inr True then Some c else None | None \<Rightarrow> None)"
      using fold_carried [OF placed_distinct [OF assms(2)], of "\<lambda>c. has_commit verify ancestor h c = Inr True" "[]" S i]
      by (simp split: option.split)
    then show ?thesis using crossing h(1) by (auto split: option.splits if_splits bind_splits)
  qed
qed

text \<open>What the other run's log says of a task it left done: the commit its last \<open>done\<close> named, if it named one.\<close>

definition done_in :: "task_id \<Rightarrow> stored_event \<Rightarrow> commit_sha option option" where
  "done_in i e = (case places e of Some (t, c) \<Rightarrow> if t = i then Some c else None | None \<Rightarrow> None)"

definition left_done_at :: "stored_event list \<Rightarrow> task_id \<Rightarrow> commit_sha option" where
  "left_done_at other i =
     (if task_status_of (rs_tasks (derive other)) i = Some Done
      then unwrap_or (last_opt (List.map_filter (done_in i) other)) None else None)"

lemma tasks_apply_ok: "tasks_apply L e m = Inr L' \<Longrightarrow> om_ok (per_task L) \<Longrightarrow> om_ok (per_task L')"
  by (cases e) (auto simp: task_status_changed_def split: option.splits)

lemma tasks_session_ok: "om_ok (per_task L) \<Longrightarrow> om_ok (per_task (tasks_apply_session L e))"
  by (auto simp: tasks_apply_session_def split: session_event.split option.split)

lemma gate_tasks: "gate_transition st ge e m = Inr st' \<Longrightarrow> rs_tasks st' = rs_tasks st"
  by (auto simp: gate_transition_def questions_asked_at_def park_def unpark_def Let_def
      split: option.splits gate_event.splits if_splits)

lemma owners_tasks_ok:
  assumes "apply_owners st e m = Inr st'" "om_ok (per_task (rs_tasks st))"
  shows "om_ok (per_task (rs_tasks st'))"
proof (cases "payload_of e")
  case None
  with assms show ?thesis by (auto simp: apply_owners_def)
next
  case (Some p)
  with assms show ?thesis
    by (cases p)
      (auto simp: apply_owners_def frame_simps tasks_session_ok intro: tasks_apply_ok
        dest!: gate_tasks split: sum.splits unknown_task.splits)
qed

interpretation task_keys: event_fold run_state_default replay_apply "\<lambda>st. om_ok (per_task (rs_tasks st))"
proof
  show "om_ok (per_task (rs_tasks run_state_default))" by (simp add: run_state_default_def tasks_new_def)
  fix st e st' assume ok: "om_ok (per_task (rs_tasks st))" and "replay_apply st e = Inr st'"
  then obtain st2 where "apply_owners (book_event st e) e (meta_of e) = Inr st2"
    "st' = st2\<lparr>rs_activity := activity_apply (rs_activity st2) e, rs_tail_paused := is_pause e\<rparr>"
    by (auto elim: replay_apply_InrE)
  with owners_tasks_ok [of "book_event st e" e _ st2] ok show "om_ok (per_task (rs_tasks st'))"
    by (simp add: frame_simps)
qed

lemma derived_tasks_ok: "om_ok (per_task (rs_tasks (derive es)))"
  using task_keys.inv_fold [of es] by (auto simp: derive_def derive_from_fold split: prod.splits option.splits)

lemma fold_put_last:
  "om_get (foldl (\<lambda>m (t, c). om_put t c m) m0 (List.map_filter places es)) i =
     or_else (last_opt (List.map_filter (done_in i) es)) (om_get m0 i)"
proof (induction es arbitrary: m0)
  case (Cons e es)
  then show ?case
    by (cases "places e")
      (auto simp: List.map_filter_simps done_in_def last_opt_def om_get_put or_else_def split: option.split)
qed (simp add: List.map_filter_simps or_else_def)

lemma map_of_filtered:
  "distinct (map fst m) \<Longrightarrow>
     map_of (map (\<lambda>(t, _). (t, g t)) (filter (\<lambda>(_, r). P r) m)) i =
       (case map_of m i of Some r \<Rightarrow> if P r then Some (g i) else None | None \<Rightarrow> None)"
proof (induction m)
  case (Cons x m)
  then have "fst x \<notin> fst ` set m" by simp
  then have "map_of m (fst x) = None" by (simp add: map_of_eq_None_iff)
  with Cons show ?case by (cases x) auto
qed simp

lemma standing_exact:
  assumes "standing_of other (derive other) = Inr S"
  shows "om_get (std_done S) i = Some (Some c) \<longleftrightarrow> left_done_at other i = Some c"
proof -
  let ?placed = "foldl (\<lambda>m (t, c). om_put t c m) [] (List.map_filter places other)"
  have "std_done S = map (\<lambda>(t, _). (t, Option.bind (om_get ?placed t) (\<lambda>c. c)))
      (filter (\<lambda>(_, r). tr_status r = Done) (per_task (rs_tasks (derive other))))"
    using assms by (auto simp: standing_of_def Let_def split: option.splits)
  moreover have "Option.bind (om_get ?placed j) (\<lambda>c. c) = unwrap_or (last_opt (List.map_filter (done_in j) other)) None" for j
    using fold_put_last [of "[]" other j] by (simp add: or_else_def om_get_def [of "[]"] split: option.splits)
  ultimately have "om_get (std_done S) i =
      (case task_status_of (rs_tasks (derive other)) i of
         Some Done \<Rightarrow> Some (unwrap_or (last_opt (List.map_filter (done_in i) other)) None)
       | _ \<Rightarrow> None)"
    using map_of_filtered [OF om_ok_distinct [OF derived_tasks_ok [of other]],
        of "\<lambda>j. unwrap_or (last_opt (List.map_filter (done_in j) other)) None" "\<lambda>r. tr_status r = Done" i]
    by (simp add: task_status_of_def om_get_def split: option.split task_status.split)
  then show ?thesis by (auto simp: left_done_at_def split: option.splits task_status.splits)
qed

text \<open>C32. A document handed over by another run, into a run of any log: a task this run had registered cut
  another way is pending; a task the other run's log left done, at a commit that log names last for it and
  the receiving tree has, is done here, at that commit unless it was done already; every other task keeps
  the status it had here, pending when it had none.\<close>

theorem done_crosses_with_its_commit:
  assumes "standing_of other (derive other) = Inr S"
    and "carried_into head verify ancestor S f = Inr carried" "distinct (map tk_id (tf_tasks f))"
    and "ledger_reads nd now (register pos es L f carried) L = Inr L'" "t \<in> set (tf_tasks f)"
  shows "\<exists>r. task_get L' (tk_id t) = Some r
    \<and> (if recut (prior_registrations es) t then tr_status r = Pending
       else if \<exists>c h. left_done_at other (tk_id t) = Some c \<and> head = Inr h \<and> has_commit verify ancestor h c = Inr True
       then tr_status r = Done
         \<and> (task_status_of L (tk_id t) = Some Done \<or> tr_commit r = left_done_at other (tk_id t))
       else tr_status r = unwrap_or (task_status_of L (tk_id t)) Pending)"
proof -
  let ?fl = "follow_of (prior_registrations es) L carried t"
  have crossing: "om_get carried (tk_id t) = Some c \<longleftrightarrow>
      left_done_at other (tk_id t) = Some c \<and> (\<exists>h. head = Inr h \<and> has_commit verify ancestor h c = Inr True)" for c
    using carried_exact [OF assms(2,3), of "tk_id t"] standing_exact [OF assms(1), of "tk_id t"] assms(5) by simp
  obtain r where r: "task_get L' (tk_id t) = Some r" "tr_status r = status_after ?fl (task_status_of L (tk_id t))"
    "\<And>c. ?fl = Some (Follow_Done c) \<Longrightarrow> tr_commit r = Some c"
    using register_reads [OF assms(3), of nd now pos es L carried] assms(4,5) by (metis sum.inject(2))
  show ?thesis
  proof (cases "om_get carried (tk_id t)")
    case None
    with crossing have "\<not> (\<exists>c h. left_done_at other (tk_id t) = Some c \<and> head = Inr h
        \<and> has_commit verify ancestor h c = Inr True)"
      by auto
    then show ?thesis using r(1,2) None by (auto simp: follow_of_cases status_after_def split: if_splits)
  next
    case (Some c)
    with crossing have placed: "left_done_at other (tk_id t) = Some c"
      "\<exists>h. head = Inr h \<and> has_commit verify ancestor h c = Inr True"
      by blast+
    with r Some show ?thesis by (auto simp: follow_of_cases status_after_def split: if_splits)
  qed
qed

text \<open>Two tasks. Another run registered both and left them done at a commit; this one had registered the
  second with another scope.\<close>

definition two_tasks :: tasks_file where
  "two_tasks = tasks_file_of
     (map (\<lambda>i. \<lparr>tk_id = i, tk_title = i, tk_scope = [], tk_criteria = [], tk_depends_on = [], tk_notes = None,
        tk_description = None, tk_changes = [], tk_outcome = None, tk_uses = [], tk_invariants = []\<rparr>) [''a'', ''b''])"

definition task_logged :: "seq \<Rightarrow> task_event \<Rightarrow> stored_event" where
  "task_logged k e =
     \<lparr>ev_run_id = ''r'', ev_seq = k, ev_timestamp = 0, ev_node_id = Some ''n'', ev_body = Known (Tasks_Payload e)\<rparr>"

definition registered_with :: "scope_glob list \<Rightarrow> task_id \<Rightarrow> task_event" where
  "registered_with scope i =
     Task_Registered \<lparr>tg_task = i, tg_criteria = [], tg_scope = scope, tg_depends_on = []\<rparr>"

definition finished_run :: "stored_event list" where
  "finished_run =
     [task_logged 1 (registered_with [] ''a''), task_logged 2 (registered_with [] ''b''),
      task_logged 3 (StatusChanged (status_done ''a'' 1 ''c0'')),
      task_logged 4 (StatusChanged (status_done ''b'' 2 ''c0''))]"

definition other_cut :: "stored_event list" where
  "other_cut = [task_logged 1 (registered_with [''src/**''] ''b'')]"

lemma two_tasks_distinct: "distinct (map tk_id (tf_tasks two_tasks))"
  by (simp add: two_tasks_def tasks_file_of_def)

theorem registration_settles_every_task_witness:
  "\<exists>L'. ledger_reads None 7 (register of_nat [] tasks_new two_tasks [(''a'', ''c0'')]) tasks_new = Inr L'
     \<and> task_status_of L' ''a'' = Some Done \<and> task_status_of L' ''b'' = Some Pending
     \<and> task_get L' ''z'' = None"
proof -
  obtain L' where L': "ledger_reads None 7 (register of_nat [] tasks_new two_tasks [(''a'', ''c0'')]) tasks_new = Inr L'"
    and each: "\<forall>t \<in> set (tf_tasks two_tasks).
         task_status_of L' (tk_id t) = Some
           (if recut (prior_registrations []) t then Pending
            else if om_get [(''a'', ''c0'')] (tk_id t) \<noteq> None then Done
            else unwrap_or (task_status_of tasks_new (tk_id t)) Pending)
       \<and> (stays_done t (prior_registrations []) tasks_new \<longrightarrow> task_status_of L' (tk_id t) = Some Done)"
    and rest: "\<forall>i. i \<notin> tk_id ` set (tf_tasks two_tasks) \<longrightarrow> task_get L' i = task_get tasks_new i"
    using registration_settles_every_task [OF two_tasks_distinct, of None 7 of_nat "[]" tasks_new "[(''a'', ''c0'')]"]
    by blast
  have "om_get [] i = None" "task_status_of tasks_new i = None" for i :: task_id
    by (simp_all add: om_get_def task_status_of_def task_get_def tasks_new_def)
  then have "task_status_of L' ''a'' = Some Done" "task_status_of L' ''b'' = Some Pending"
    using each by (simp_all add: two_tasks_def tasks_file_of_def recut_def prior_registrations_def map_filter_simps om_get_def)
  moreover have "task_get L' ''z'' = None"
    using rest by (simp add: two_tasks_def tasks_file_of_def task_get_def tasks_new_def)
  ultimately show ?thesis using L' by blast
qed

theorem done_crosses_with_its_commit_witness:
  "\<exists>S carried L' r q. standing_of finished_run (derive finished_run) = Inr S
     \<and> carried_into (Inr ''h'' :: unit + string) (\<lambda>c. Inr (Some c)) (\<lambda>_ _. Inr True) S two_tasks = Inr carried
     \<and> ledger_reads None 7 (register of_nat other_cut tasks_new two_tasks carried) tasks_new = Inr L'
     \<and> task_get L' ''a'' = Some r \<and> tr_status r = Done \<and> tr_commit r = Some ''c0''
     \<and> task_get L' ''b'' = Some q \<and> tr_status q = Pending"
proof -
  let ?git = "\<lambda>c. Inr (Some c) :: unit + string option" and ?anc = "\<lambda>_ _. Inr True :: unit + bool"
  let ?a = "tf_tasks two_tasks ! 0" and ?b = "tf_tasks two_tasks ! 1"
  let ?S = "\<lparr>std_done = [(''a'', Some ''c0''), (''b'', Some ''c0'')]\<rparr>"
  have "standing_of finished_run (derive finished_run) = Inr ?S \<and> left_done_at finished_run ''a'' = Some ''c0''"
    by code_simp
  then have left: "standing_of finished_run (derive finished_run) = Inr ?S" "left_done_at finished_run ''a'' = Some ''c0''"
    by blast+
  have carried: "carried_into (Inr ''h'') ?git ?anc ?S two_tasks = Inr [(''a'', ''c0''), (''b'', ''c0'')]" by code_simp
  obtain L' where L': "ledger_reads None 7 (register of_nat other_cut tasks_new two_tasks [(''a'', ''c0''), (''b'', ''c0'')])
      tasks_new = Inr L'"
    by (rule register_reads [OF two_tasks_distinct,
          of None 7 of_nat other_cut tasks_new "[(''a'', ''c0''), (''b'', ''c0'')]"])
  have tasks: "?a \<in> set (tf_tasks two_tasks)" "?b \<in> set (tf_tasks two_tasks)" "tk_id ?a = ''a''" "tk_id ?b = ''b''"
    by (simp_all add: two_tasks_def tasks_file_of_def)
  have cut: "\<not> recut (prior_registrations other_cut) ?a" "recut (prior_registrations other_cut) ?b" by code_simp+
  have new: "task_status_of tasks_new ''a'' = None" by code_simp
  obtain r where r: "task_get L' ''a'' = Some r" "tr_status r = Done" "tr_commit r = Some ''c0''"
    using done_crosses_with_its_commit [OF left(1) carried two_tasks_distinct L' tasks(1)] cut(1) left(2) new
    unfolding tasks(3) by (auto simp: has_commit_def)
  obtain q where "task_get L' ''b'' = Some q" "tr_status q = Pending"
    using done_crosses_with_its_commit [OF left(1) carried two_tasks_distinct L' tasks(2)] cut(2)
    unfolding tasks(4) by auto
  with r left(1) carried L' show ?thesis by blast
qed

end
