(* ===== verification/Plan_Review.thy ===== *)
theory Plan_Review
  imports Judged Registration
begin

text \<open>
  What a tasks document is held to when it is handed over to a run (\<open>core/src/tasks/specified.rs\<close>) and when
  a person reviews it (\<open>core/src/tasks/rules.rs\<close>), and the plan as a person is shown it
  (\<open>engine/src/tasks/review.rs\<close>, \<open>core/src/shown.rs\<close>, \<open>engine/src/artifacts/shown.rs\<close>). The lemmas say which
  plans break none of these rules, that the review shows what the run judges, and what flaws a plan
  accepted with its spec can still have.
\<close>

section \<open>What a reviewed plan explains\<close>

definition said :: "string option \<Rightarrow> bool" where
  "said text = is_some_and text (\<lambda>t. trim t \<noteq> [])"

definition codeless :: "nat \<Rightarrow> task \<Rightarrow> shape list \<Rightarrow> diagnostic list" where
  "codeless index t shapes =
     map (\<lambda>c. broke_task index (tk_id t) (TF_ChangeWithoutCode (ch_at c)))
       (filter (\<lambda>c. shaped_there t c shapes = []) (filter (\<lambda>c. \<not> said (ch_code c)) (tk_changes t)))"

definition task_reviewed :: "nat \<Rightarrow> task \<Rightarrow> diagnostic list" where
  "task_reviewed index t =
     map (\<lambda>(_, fault). broke_task index (tk_id t) fault)
       (filter fst
         [(\<not> said (tk_description t), TF_NoTaskDescription), (\<not> said (tk_outcome t), TF_NoOutcome),
          (tk_changes t = [], TF_NoChanges)])
     @ concat (map
         (\<lambda>(at, c). if \<not> said (pc_proves c)
            then [broke_rule (Subj_Criterion (named_entry (tk_id t) index) at) (TF_UnexplainedCriterion (pc_cmd c))]
            else [])
         (enumerate 0 (tk_criteria t)))"

definition plan_explained :: "tasks_file \<Rightarrow> diagnostic list" where
  "plan_explained f =
     (if said (tf_summary f) then [] else [broke_document TF_NoSummary])
     @ (if said (tf_description f) then [] else [broke_document TF_NoPlanDescription])
     @ map (\<lambda>d. broke_document (TF_UnexplainedDecision (pd_id d) (pd_choice d)))
         (filter (\<lambda>d. \<not> said (pd_why d)) (tf_decisions f))
     @ concat (map
         (\<lambda>(index, t). task_reviewed index t @ codeless index t (tf_shapes f) @ unshown index t (tf_shapes f))
         (enumerate 0 (tf_tasks f)))"

section \<open>What a plan is held to in its run\<close>

text \<open>The diagnostic about the first criterion of a task whose command is \<open>cmd\<close>, or its first one.\<close>

definition criterion_at :: "nat \<Rightarrow> task \<Rightarrow> string \<Rightarrow> task_fault \<Rightarrow> diagnostic" where
  "criterion_at index t cmd fault =
     (let before = takeWhile (\<lambda>c. pc_cmd c \<noteq> cmd) (tk_criteria t);
          at = (if length before < length (tk_criteria t) then length before else 0)
      in broke_rule (Subj_Criterion (named_entry (tk_id t) index) at) fault)"

definition by_a_name :: "nat \<Rightarrow> task \<Rightarrow> diagnostic list" where
  "by_a_name index t =
     map (\<lambda>(cmd, file). criterion_at index t cmd (TF_CriterionChecksPresence cmd file)) (passes_by_a_name t)"

definition outside_the_suite :: "nat \<Rightarrow> task \<Rightarrow> suite \<Rightarrow> diagnostic list" where
  "outside_the_suite index t S =
     concat (map
       (\<lambda>c. map (\<lambda>command. criterion_at index t (pc_cmd c) (TF_OutsideTheSuite command (suite_command S)))
          (suite_outside S (pc_cmd c)))
       (tk_criteria t))"

definition own_shapes :: "nat \<Rightarrow> task \<Rightarrow> tasks_file \<Rightarrow> diagnostic list" where
  "own_shapes index t f =
     map (\<lambda>name. broke_task index (tk_id t) (TF_UsesItsOwnShape name))
       (filter (\<lambda>name. list_ex (\<lambda>s. shape.shp_name s = name \<and> shp_owner s = tk_id t) (tf_shapes f)) (tk_uses t))"

definition test_looking :: "path \<Rightarrow> bool" where
  "test_looking p =
     (let p = in_repo p;
          name = last_piece CHR ''/'' p
      in list_ex (\<lambda>part. part \<in> {''tests'', ''test'', ''__tests__'', ''spec''}) (split_at (\<lambda>c. c = CHR ''/'') p)
         \<or> starts_with name ''test_''
         \<or> list_ex (contains name) [''.test.'', ''.spec.'', ''_test.'', ''_spec.''])"

definition writes_its_test :: "nat \<Rightarrow> task \<Rightarrow> diagnostic list" where
  "writes_its_test index t =
     List.map_filter
       (\<lambda>c. case List.find (\<lambda>k. names_file (pc_cmd k) (change_file c))
                  (filter (\<lambda>k. \<not> criterion_is_guard k) (tk_criteria t)) of
              None \<Rightarrow> None
            | Some k \<Rightarrow> Some (broke_task index (tk_id t) (TF_TaskWritesItsTest (ch_at c) (pc_cmd k))))
       (filter (\<lambda>c. test_looking (change_file c)) (tk_changes t))"

text \<open>The criteria that judge work, in the plan's order, each with its task and the task's place.\<close>

definition judging :: "tasks_file \<Rightarrow> (nat \<times> task \<times> plan_criterion) list" where
  "judging f = concat (map
     (\<lambda>(index, t). map (\<lambda>c. (index, t, c)) (filter (\<lambda>c. \<not> criterion_is_guard c) (tk_criteria t)))
     (enumerate 0 (tf_tasks f)))"

fun shared_from :: "(nat \<times> task \<times> plan_criterion) list \<Rightarrow> (string \<times> task_id) list \<Rightarrow> diagnostic list" where
  "shared_from [] first = []"
| "shared_from ((index, t, c) # es) first =
     (let cmd = trim (pc_cmd c)
      in case List.find (\<lambda>(seen, owner). seen = cmd \<and> owner \<noteq> tk_id t) first of
           Some (_, owner) \<Rightarrow>
             criterion_at index t (pc_cmd c) (TF_SharedCriterion cmd owner) # shared_from es first
         | None \<Rightarrow> shared_from es (first @ [(cmd, tk_id t)]))"

definition shared :: "tasks_file \<Rightarrow> diagnostic list" where
  "shared f = shared_from (judging f) []"

definition plan_unspecifiable :: "tasks_file \<Rightarrow> bool \<Rightarrow> suite option \<Rightarrow> diagnostic list" where
  "plan_unspecifiable f spec_planned S =
     concat (map
       (\<lambda>(index, t).
          by_a_name index t
          @ (case S of None \<Rightarrow> [] | Some suite \<Rightarrow> outside_the_suite index t suite)
          @ own_shapes index t f
          @ (if spec_planned then writes_its_test index t else []))
       (enumerate 0 (tf_tasks f)))
     @ shared f"

text \<open>The spec that writes a file, the first to name it.\<close>

definition writer_of :: "spec_file \<Rightarrow> path \<Rightarrow> spec option" where
  "writer_of spec at = List.find (\<lambda>s. list_ex (\<lambda>file. file_in_repo file = at) (spc_files s)) (sf_specs spec)"

definition against_spec :: "tasks_file \<Rightarrow> spec_file \<Rightarrow> diagnostic list" where
  "against_spec f spec =
     concat (map
       (\<lambda>(index, t).
          List.map_filter
            (\<lambda>c. case writer_of spec (in_repo (change_file c)) of
                   None \<Rightarrow> None
                 | Some owner \<Rightarrow> Some (broke_task index (tk_id t) (TF_ChangesASpecTest (ch_at c) (spc_task owner))))
            (tk_changes t))
       (enumerate 0 (tf_tasks f)))"

definition plan_unanswered :: "tasks_file \<Rightarrow> question_id list \<Rightarrow> diagnostic list" where
  "plan_unanswered f known =
     List.map_filter
       (\<lambda>d. case pd_answers d of
              None \<Rightarrow> None
            | Some q \<Rightarrow>
                if List.member known q then None
                else Some (broke_document (TF_UnknownAnswer (pd_id d) q known)))
       (tf_decisions f)"

section \<open>The plan as a person is shown it\<close>

datatype held_to = To_Plan | To_Spec | To_AnotherTask task_id

record judged_criterion =
  jc_cmd :: string
  jc_proves :: "string option"
  jc_from :: held_to

record denied_change =
  dnc_at :: string
  dnc_owner :: task_id

record task_review =
  rv_task :: task_id
  rv_criteria :: "judged_criterion list"
  rv_denied :: "denied_change list"
  rv_guards :: "judged_criterion list"

record answered_question =
  aq_id :: question_id
  aq_question :: string
  aq_answer :: string

record plan_review =
  prv_plan :: tasks_file
  prv_departed :: "accepted_departure list"
  prv_spec :: "spec_file option"
  prv_spec_node :: "node_id option"
  prv_asked :: "string option"
  prv_held :: "string list"
  prv_tasks :: "task_review list"
  prv_handed_over :: "handed_over option"
  prv_answered :: "answered_question list"
  prv_shapes_read :: "shapes_read option"

definition held_to_of :: "task \<Rightarrow> string \<Rightarrow> spec_file option \<Rightarrow> held_to" where
  "held_to_of t cmd spec =
     (let cmd = trim cmd
      in case spec of
           None \<Rightarrow> To_Plan
         | Some f \<Rightarrow>
             (let runs_it = (\<lambda>s. list_ex (\<lambda>test. trim (stt_cmd test) = cmd) (spc_tests s))
              in if is_some_and (spec_of f (tk_id t)) runs_it then To_Spec
                 else case List.find runs_it (sf_specs f) of
                        Some other \<Rightarrow> To_AnotherTask (spc_task other)
                      | None \<Rightarrow> To_Plan))"

definition denied_changes :: "task \<Rightarrow> spec_file option \<Rightarrow> denied_change list" where
  "denied_changes t spec =
     (case spec of
        None \<Rightarrow> []
      | Some f \<Rightarrow>
          List.map_filter
            (\<lambda>c. map_option (\<lambda>owner. \<lparr>dnc_at = ch_at c, dnc_owner = spc_task owner\<rparr>)
               (writer_of f (in_repo (change_file c))))
            (tk_changes t))"

definition review_task :: "task \<Rightarrow> spec_file option \<Rightarrow> string list \<Rightarrow> accepted_departure list \<Rightarrow> task_review" where
  "review_task t spec green departed =
     (let judged = waived (specified t spec) departed green spec;
          reviewed = (\<lambda>c. \<lparr>jc_cmd = pc_cmd c, jc_proves = pc_proves c, jc_from = held_to_of t (pc_cmd c) spec\<rparr>);
          shown = filter (\<lambda>c. \<not> list_ex (\<lambda>command. trim command = trim (pc_cmd c)) green) (tk_criteria judged);
          (guards, criteria) = partition criterion_is_guard shown
      in \<lparr>rv_task = tk_id t, rv_criteria = map reviewed criteria, rv_denied = denied_changes t spec,
          rv_guards = map reviewed guards\<rparr>)"

definition review_plan ::
  "tasks_file \<Rightarrow> spec_file option \<Rightarrow> string list \<Rightarrow> accepted_departure list \<Rightarrow> plan_review" where
  "review_plan plan spec green departed =
     \<lparr>prv_plan = plan, prv_departed = departed, prv_spec = spec, prv_spec_node = None, prv_asked = None,
      prv_held = green, prv_tasks = map (\<lambda>t. review_task t spec green departed) (tf_tasks plan),
      prv_handed_over = None, prv_answered = [], prv_shapes_read = None\<rparr>"

definition departed_of :: "tasks_file \<Rightarrow> task_ledger \<Rightarrow> accepted_departure list" where
  "departed_of plan L = concat (map (\<lambda>t. accepted_of L (tk_id t)) (tf_tasks plan))"

definition plan_shown :: "shown \<Rightarrow> tasks_file \<Rightarrow> run_state \<Rightarrow> plan_review" where
  "plan_shown shown plan st =
     (review_plan plan None (held_of_run (rs_run st)) (departed_of plan (rs_tasks st)))
       \<lparr>prv_handed_over := Option.bind (shn_producer shown)
          (\<lambda>n. handed_over_of (rs_artifacts st) n Tasks_Kind),
        prv_shapes_read := om_get (tl_shapes (rs_tasks st)) (shn_hash shown)\<rparr>"

datatype flaw =
    Flaw_PassesByAName task_id string path
  | Flaw_HollowSpecTest task_id string
  | Flaw_UnrunSpecFile task_id path
  | Flaw_ChangesASpecTest task_id string task_id
  | Flaw_JudgedByAnotherTasksTest task_id string task_id

definition task_flaws :: "spec_file option \<Rightarrow> task \<Rightarrow> task_review \<Rightarrow> flaw list" where
  "task_flaws spec t rv =
     map (\<lambda>(cmd, file). Flaw_PassesByAName (tk_id t) cmd file) (passes_by_a_name t)
     @ (case Option.bind spec (\<lambda>f. spec_of f (tk_id t)) of
          None \<Rightarrow> []
        | Some s \<Rightarrow>
            map (\<lambda>test. Flaw_HollowSpecTest (tk_id t) (stt_cmd test)) (hollow_tests s)
            @ map (\<lambda>file. Flaw_UnrunSpecFile (tk_id t) (tfl_path file)) (unrun_files s))
     @ map (\<lambda>c. Flaw_ChangesASpecTest (tk_id t) (dnc_at c) (dnc_owner c)) (rv_denied rv)
     @ List.map_filter
         (\<lambda>c. case jc_from c of
                To_AnotherTask owner \<Rightarrow> Some (Flaw_JudgedByAnotherTasksTest (tk_id t) (jc_cmd c) owner)
              | _ \<Rightarrow> None)
         (rv_criteria rv)"

definition flaws :: "plan_review \<Rightarrow> flaw list" where
  "flaws r = concat (map (\<lambda>(t, rv). task_flaws (prv_spec r) t rv) (zip (tf_tasks (prv_plan r)) (prv_tasks r)))"

section \<open>Which plans break no rule of their run\<close>

text \<open>No command judges the work of two tasks.\<close>

definition judged_apart :: "task list \<Rightarrow> bool" where
  "judged_apart ts \<longleftrightarrow>
     (\<forall>t \<in> set ts. \<forall>u \<in> set ts. \<forall>c \<in> set (tk_criteria t). \<forall>d \<in> set (tk_criteria u).
        \<not> criterion_is_guard c \<longrightarrow> \<not> criterion_is_guard d \<longrightarrow> trim (pc_cmd c) = trim (pc_cmd d) \<longrightarrow>
        tk_id t = tk_id u)"

abbreviation judged_cmd :: "nat \<times> task \<times> plan_criterion \<Rightarrow> string" where
  "judged_cmd e \<equiv> trim (pc_cmd (snd (snd e)))"

abbreviation judged_id :: "nat \<times> task \<times> plan_criterion \<Rightarrow> task_id" where
  "judged_id e \<equiv> tk_id (fst (snd e))"

lemma shared_from_Nil:
  "shared_from es first = [] \<longleftrightarrow>
     (\<forall>e \<in> set es. \<forall>p \<in> set first. fst p = judged_cmd e \<longrightarrow> snd p = judged_id e)
   \<and> (\<forall>e \<in> set es. \<forall>e' \<in> set es. judged_cmd e = judged_cmd e' \<longrightarrow> judged_id e = judged_id e')"
proof (induction es first rule: shared_from.induct)
  case (2 index t c es first)
  let ?cmd = "trim (pc_cmd c)"
  show ?case
  proof (cases "List.find (\<lambda>(seen, owner). seen = ?cmd \<and> owner \<noteq> tk_id t) first")
    case None
    then have here: "\<forall>p \<in> set first. fst p = ?cmd \<longrightarrow> snd p = tk_id t"
      by (auto simp: find_None_iff)
    have "shared_from ((index, t, c) # es) first = [] \<longleftrightarrow> shared_from es (first @ [(?cmd, tk_id t)]) = []"
      using None by (simp add: Let_def)
    also have "\<dots> \<longleftrightarrow>
        (\<forall>e \<in> set es. \<forall>p \<in> set first. fst p = judged_cmd e \<longrightarrow> snd p = judged_id e)
      \<and> (\<forall>e \<in> set es. ?cmd = judged_cmd e \<longrightarrow> tk_id t = judged_id e)
      \<and> (\<forall>e \<in> set es. \<forall>e' \<in> set es. judged_cmd e = judged_cmd e' \<longrightarrow> judged_id e = judged_id e')"
      unfolding "2.IH"(1) [OF refl None] by auto
    finally have step: "shared_from ((index, t, c) # es) first = [] \<longleftrightarrow> \<dots>" .
    have swap: "(\<forall>e \<in> set es. judged_cmd e = ?cmd \<longrightarrow> judged_id e = tk_id t) \<longleftrightarrow>
        (\<forall>e \<in> set es. ?cmd = judged_cmd e \<longrightarrow> tk_id t = judged_id e)"
      by metis
    show ?thesis unfolding step using here by (simp add: ball_conj_distrib swap)
  next
    case (Some found)
    then have "\<not> (\<forall>p \<in> set first. fst p = ?cmd \<longrightarrow> snd p = tk_id t)"
      by (cases found) (auto simp: find_Some_iff intro!: bexI [OF _ nth_mem])
    moreover from Some have "shared_from ((index, t, c) # es) first \<noteq> []"
      by (cases found) (simp add: Let_def)
    ultimately show ?thesis by simp
  qed
qed simp

lemma judging_mem:
  "(i, t, c) \<in> set (judging f) \<longleftrightarrow>
     (i, t) \<in> set (enumerate 0 (tf_tasks f)) \<and> c \<in> set (tk_criteria t) \<and> \<not> criterion_is_guard c"
proof -
  have "set (judging f) = (\<Union>(i, t) \<in> set (enumerate 0 (tf_tasks f)).
      (\<lambda>c. (i, t, c)) ` {c \<in> set (tk_criteria t). \<not> criterion_is_guard c})"
    by (simp add: judging_def split_beta)
  then show ?thesis by blast
qed

lemma judging_iff:
  "(\<exists>i. (i, t, c) \<in> set (judging f)) \<longleftrightarrow>
     t \<in> set (tf_tasks f) \<and> c \<in> set (tk_criteria t) \<and> \<not> criterion_is_guard c"
proof -
  have "(\<exists>i. (i, t) \<in> X) \<longleftrightarrow> t \<in> snd ` X" for X :: "(nat \<times> task) set" by force
  moreover have "snd ` set (enumerate 0 (tf_tasks f)) = set (tf_tasks f)"
    by (simp only: set_map [symmetric] map_snd_enumerate)
  ultimately have "(\<exists>i. (i, t) \<in> set (enumerate 0 (tf_tasks f))) \<longleftrightarrow> t \<in> set (tf_tasks f)" by simp
  then show ?thesis unfolding judging_mem by blast
qed

lemma shared_Nil: "shared f = [] \<longleftrightarrow> judged_apart (tf_tasks f)"
proof -
  have "shared f = [] \<longleftrightarrow> (\<forall>t c u d. (\<exists>i. (i, t, c) \<in> set (judging f)) \<longrightarrow> (\<exists>j. (j, u, d) \<in> set (judging f)) \<longrightarrow>
      trim (pc_cmd c) = trim (pc_cmd d) \<longrightarrow> tk_id t = tk_id u)"
    unfolding shared_def shared_from_Nil
    by (simp only: Ball_def split_paired_All fst_conv snd_conv list.set empty_iff simp_thms) blast
  also have "\<dots> \<longleftrightarrow> judged_apart (tf_tasks f)"
    unfolding judging_iff judged_apart_def by blast
  finally show ?thesis .
qed

definition specifiable :: "tasks_file \<Rightarrow> bool \<Rightarrow> suite option \<Rightarrow> bool" where
  "specifiable f spec_planned S \<longleftrightarrow>
     (\<forall>t \<in> set (tf_tasks f).
        passes_by_a_name t = []
      \<and> (\<forall>suite c. S = Some suite \<longrightarrow> c \<in> set (tk_criteria t) \<longrightarrow> suite_outside suite (pc_cmd c) = [])
      \<and> (\<forall>s \<in> set (tf_shapes f). shape.shp_name s \<in> set (tk_uses t) \<longrightarrow> shp_owner s \<noteq> tk_id t)
      \<and> (spec_planned \<longrightarrow>
           (\<forall>c \<in> set (tk_changes t). test_looking (change_file c) \<longrightarrow>
              (\<forall>k \<in> set (tk_criteria t). names_file (pc_cmd k) (change_file c) \<longrightarrow> criterion_is_guard k))))
   \<and> judged_apart (tf_tasks f)"

lemma by_a_name_Nil: "by_a_name i t = [] \<longleftrightarrow> passes_by_a_name t = []"
  by (simp add: by_a_name_def)

lemma outside_Nil:
  "(case S of None \<Rightarrow> [] | Some suite \<Rightarrow> outside_the_suite i t suite) = [] \<longleftrightarrow>
     (\<forall>suite c. S = Some suite \<longrightarrow> c \<in> set (tk_criteria t) \<longrightarrow> suite_outside suite (pc_cmd c) = [])"
  by (auto simp: outside_the_suite_def split: option.split)

lemma own_shapes_Nil:
  "own_shapes i t f = [] \<longleftrightarrow>
     (\<forall>s \<in> set (tf_shapes f). shape.shp_name s \<in> set (tk_uses t) \<longrightarrow> shp_owner s \<noteq> tk_id t)"
  by (auto simp: own_shapes_def filter_empty_conv list_ex_iff)

lemma writes_its_test_Nil:
  "writes_its_test i t = [] \<longleftrightarrow>
     (\<forall>c \<in> set (tk_changes t). test_looking (change_file c) \<longrightarrow>
        (\<forall>k \<in> set (tk_criteria t). names_file (pc_cmd k) (change_file c) \<longrightarrow> criterion_is_guard k))"
proof -
  have unfound: "(case x of None \<Rightarrow> None | Some k \<Rightarrow> Some (g k)) = None \<longleftrightarrow> x = None" for x g
    by (cases x) simp_all
  show ?thesis by (auto simp: writes_its_test_def map_filter_Nil unfound find_None_iff)
qed

text \<open>A plan breaks none of the rules its run holds it to exactly when no criterion passes by a name
  alone, none runs the project's tests beside the suite, no task uses its own shape or changes the test a
  criterion of it runs, and no command judges the work of two tasks.\<close>

lemma unspecifiable_Nil: "plan_unspecifiable f spec_planned S = [] \<longleftrightarrow> specifiable f spec_planned S"
proof -
  let ?g = "\<lambda>i t. by_a_name i t @ (case S of None \<Rightarrow> [] | Some suite \<Rightarrow> outside_the_suite i t suite)
      @ own_shapes i t f @ (if spec_planned then writes_its_test i t else [])"
  let ?ok = "\<lambda>t. passes_by_a_name t = []
      \<and> (\<forall>suite c. S = Some suite \<longrightarrow> c \<in> set (tk_criteria t) \<longrightarrow> suite_outside suite (pc_cmd c) = [])
      \<and> (\<forall>s \<in> set (tf_shapes f). shape.shp_name s \<in> set (tk_uses t) \<longrightarrow> shp_owner s \<noteq> tk_id t)
      \<and> (spec_planned \<longrightarrow>
           (\<forall>c \<in> set (tk_changes t). test_looking (change_file c) \<longrightarrow>
              (\<forall>k \<in> set (tk_criteria t). names_file (pc_cmd k) (change_file c) \<longrightarrow> criterion_is_guard k)))"
  have "?g i t = [] \<longleftrightarrow> ?ok t" for i t
    unfolding append_is_Nil_conv by_a_name_Nil outside_Nil own_shapes_Nil
    by (simp only: writes_its_test_Nil split: if_split) simp
  note tasks = over_enumerate_all [of ?g ?ok, OF this]
  show ?thesis
    unfolding plan_unspecifiable_def append_is_Nil_conv shared_Nil specifiable_def tasks ..
qed

section \<open>The review shows what the run judges\<close>

definition shown_commands :: "task_review \<Rightarrow> string set" where
  "shown_commands rv = (\<lambda>c. trim (jc_cmd c)) ` set (rv_criteria rv @ rv_guards rv)"

lemma shown_commands_review:
  "shown_commands (review_task t spec green departed) =
     (set (commands_of (tk_criteria t)) - waivers departed \<union> set (tests_for spec (tk_id t))) - trim ` set green"
proof -
  let ?judged = "waived (specified t spec) departed green spec"
  have kept: "\<not> list_ex (\<lambda>command. trim command = trim (pc_cmd c)) green \<longleftrightarrow> trim (pc_cmd c) \<notin> trim ` set green" for c
    by (simp add: list_ex_image)
  have "shown_commands (review_task t spec green departed) =
      set (commands_of (tk_criteria ?judged)) - trim ` set green"
    unfolding review_task_def Let_def kept shown_commands_def commands_of_def
    by (simp add: image_Un image_image) (auto, (metis imageI)+)
  also have "\<dots> = (set (commands_of (tk_criteria t)) - waivers departed \<union> set (tests_for spec (tk_id t)))
      - trim ` set green"
    unfolding commands_waived commands_specified departed_commands_eq judged_ids by auto
  finally show ?thesis .
qed

text \<open>No departure accepted of another task names a command of this one.\<close>

definition departures_apart :: "tasks_file \<Rightarrow> task_ledger \<Rightarrow> bool" where
  "departures_apart plan L \<longleftrightarrow>
     (\<forall>t \<in> set (tf_tasks plan). \<forall>u \<in> set (tf_tasks plan).
        waivers (accepted_of L (tk_id u)) \<inter> set (commands_of (tk_criteria t)) \<subseteq> waivers (accepted_of L (tk_id t)))"

lemma waivers_departed:
  "waivers (departed_of plan L) = (\<Union>t \<in> set (tf_tasks plan). waivers (accepted_of L (tk_id t)))"
  by (auto simp: waivers_def departed_of_def)

text \<open>C34. A plan's review shows of each task exactly the commands the run judges it by, the measured ones
  aside, so long as no departure accepted of one task names a command of another.\<close>

theorem review_shows_what_judges:
  assumes "departures_apart plan L"
  shows "map shown_commands (prv_tasks (review_plan plan spec green (departed_of plan L))) =
    map (\<lambda>t. set (commands_of (tk_criteria t)) - trim ` set green) (tf_tasks (judged_plan plan green spec L))"
proof -
  have own: "set (commands_of (tk_criteria t)) - waivers (departed_of plan L) =
      set (commands_of (tk_criteria t)) - waivers (accepted_of L (tk_id t))" if "t \<in> set (tf_tasks plan)" for t
    using assms that unfolding departures_apart_def waivers_departed by blast
  have "map (\<lambda>t. set (commands_of (tk_criteria t)) - trim ` set green) (tf_tasks (judged_plan plan green spec L)) =
      map (\<lambda>s. s - trim ` set green)
        (map (\<lambda>t. set (commands_of (tk_criteria t))) (tf_tasks (judged_plan plan green spec L)))"
    by simp
  also have "\<dots> = map (\<lambda>t. ((set (commands_of (tk_criteria t)) - waivers (accepted_of L (tk_id t)))
      \<union> trim ` set green \<union> set (tests_for spec (tk_id t))) - trim ` set green) (tf_tasks plan)"
    unfolding judged_commands by simp
  finally show ?thesis
    by (auto simp: review_plan_def shown_commands_review own)
qed

text \<open>Two tasks that keep one guard: a person accepted that the first departs from it.\<close>

definition lint_guard :: plan_criterion where
  "lint_guard = \<lparr>pc_cmd = ''cargo clippy'', pc_type = Some Guard, pc_proves = None\<rparr>"

definition guarded_plan :: tasks_file where
  "guarded_plan = tasks_file_of
     (map (\<lambda>i. \<lparr>tk_id = i, tk_title = i, tk_scope = [], tk_criteria = [lint_guard], tk_depends_on = [], tk_notes = None,
        tk_description = None, tk_changes = [], tk_outcome = None, tk_uses = [], tk_invariants = []\<rparr>) [''a'', ''b''])"

definition a_departs :: task_ledger where
  "a_departs = tasks_new\<lparr>per_task := [(''a'', task_record_default\<lparr>tr_departures_accepted :=
     [\<lparr>ad_declared = \<lparr>dd_task = ''a'', dd_from = Criterion_Dep ''cargo clippy'', dd_planned = ''p'', dd_instead = ''i'',
         dd_why = ''w''\<rparr>, ad_said = None\<rparr>]\<rparr>)]\<rparr>"

text \<open>The run still judges \<open>b\<close> by the guard, and the review shows no criterion of \<open>b\<close>.\<close>

lemma review_hides_a_guard:
  "map (\<lambda>rv. (rv_task rv, rv_criteria rv, rv_guards rv))
     (prv_tasks (review_plan guarded_plan None [] (departed_of guarded_plan a_departs))) = [(''a'', [], []), (''b'', [], [])]"
  "map (\<lambda>t. (tk_id t, tk_criteria t)) (tf_tasks (judged_plan guarded_plan [] None a_departs)) =
     [(''a'', []), (''b'', [lint_guard])]"
proof -
  have "(map (\<lambda>rv. (rv_task rv, rv_criteria rv, rv_guards rv))
     (prv_tasks (review_plan guarded_plan None [] (departed_of guarded_plan a_departs))) = [(''a'', [], []), (''b'', [], [])])
    \<and> (map (\<lambda>t. (tk_id t, tk_criteria t)) (tf_tasks (judged_plan guarded_plan [] None a_departs)) =
     [(''a'', []), (''b'', [lint_guard])])"
    by code_simp
  then show
    "map (\<lambda>rv. (rv_task rv, rv_criteria rv, rv_guards rv))
     (prv_tasks (review_plan guarded_plan None [] (departed_of guarded_plan a_departs))) = [(''a'', [], []), (''b'', [], [])]"
    "map (\<lambda>t. (tk_id t, tk_criteria t)) (tf_tasks (judged_plan guarded_plan [] None a_departs)) =
     [(''a'', []), (''b'', [lint_guard])]"
    by blast+
qed

section \<open>The flaws a plan can have once it is accepted with its spec\<close>

lemma flaws_review:
  "flaws (review_plan plan spec green departed) =
     concat (map (\<lambda>t. task_flaws spec t (review_task t spec green departed)) (tf_tasks plan))"
proof -
  have "zip ts (map f ts) = map (\<lambda>t. (t, f t)) ts" for ts :: "task list" and f :: "task \<Rightarrow> task_review"
    by (induction ts) simp_all
  then show ?thesis by (simp add: flaws_def review_plan_def comp_def)
qed

lemma against_spec_Nil: "against_spec plan f = [] \<longleftrightarrow> (\<forall>t \<in> set (tf_tasks plan). denied_changes t (Some f) = [])"
  unfolding against_spec_def
  by (rule over_enumerate_all) (simp add: map_filter_Nil denied_changes_def split: option.split)

lemma spec_unspecifiable_Nil:
  assumes "spec_unspecifiable f S = []" "s \<in> set (sf_specs f)"
  shows "unrun_files s = []" "hollow_tests s = []"
proof -
  obtain i where "i < length (sf_specs f)" "sf_specs f ! i = s" using assms(2) by (auto simp: in_set_conv_nth)
  with assms(1) show "unrun_files s = []" "hollow_tests s = []"
    unfolding spec_unspecifiable_def over_enumerate_Nil by auto
qed

lemma spec_of_SomeD: "spec_of f t = Some s \<Longrightarrow> s \<in> set (sf_specs f) \<and> spc_task s = t"
  by (auto simp: spec_of_def find_Some_iff)

lemma specified_criteria:
  assumes "k \<in> set (tk_criteria (specified t spec))" "k \<notin> set (tk_criteria t)"
  shows "trim (pc_cmd k) \<in> set (tests_for spec (tk_id t))"
proof (cases "Option.bind spec (\<lambda>f. spec_of f (tk_id t))")
  case None
  then show ?thesis using assms by (simp add: specified_def)
next
  case (Some s)
  obtain added where "add_tests (spec_criteria s) (tk_criteria t) = tk_criteria t @ added" "set added \<subseteq> set (spec_criteria s)"
    using add_tests_extends by blast
  then have "k \<in> set (spec_criteria s)" using assms Some by (auto simp: specified_def)
  then show ?thesis by (auto simp: tests_for_def Some spec_criteria_def)
qed

text \<open>A criterion shown as another task's test is one the plan declares, and a test of that task's spec.\<close>

lemma judged_by_anothers:
  assumes "c \<in> set (rv_criteria (review_task t (Some f) green departed))" "jc_from c = To_AnotherTask owner"
  shows "\<exists>k \<in> set (tk_criteria t). \<exists>s \<in> set (sf_specs f). pc_cmd k = jc_cmd c \<and> \<not> criterion_is_guard k
    \<and> spc_task s = owner \<and> trim (pc_cmd k) \<in> trim ` stt_cmd ` set (spc_tests s)
    \<and> trim (pc_cmd k) \<notin> set (tests_for (Some f) (tk_id t))"
proof -
  from assms(1) obtain k where k: "k \<in> set (tk_criteria (specified t (Some f)))" "\<not> criterion_is_guard k"
    "c = \<lparr>jc_cmd = pc_cmd k, jc_proves = pc_proves k, jc_from = held_to_of t (pc_cmd k) (Some f)\<rparr>"
    by (auto simp: review_task_def Let_def waived_def)
  then have from_k: "held_to_of t (pc_cmd k) (Some f) = To_AnotherTask owner" using assms(2) by simp
  let ?runs = "\<lambda>s. list_ex (\<lambda>test. trim (stt_cmd test) = trim (pc_cmd k)) (spc_tests s)"
  from from_k have not_own: "\<not> is_some_and (spec_of f (tk_id t)) ?runs"
    and "\<exists>s. List.find ?runs (sf_specs f) = Some s \<and> spc_task s = owner"
    by (auto simp: held_to_of_def Let_def split: if_splits option.splits)
  then obtain s where "List.find ?runs (sf_specs f) = Some s" and owner: "spc_task s = owner" by blast
  then have s: "s \<in> set (sf_specs f)" "?runs s" "spc_task s = owner"
    using find_SomeD [of ?runs "sf_specs f" s] by simp_all
  have own: "trim (pc_cmd k) \<notin> set (tests_for (Some f) (tk_id t))"
    using not_own by (cases "spec_of f (tk_id t)") (auto simp: tests_for_def list_ex_iff)
  then have "k \<in> set (tk_criteria t)" using specified_criteria [OF k(1)] by blast
  moreover have "trim (pc_cmd k) \<in> trim ` stt_cmd ` set (spc_tests s)"
    using s(2) by (simp add: list_ex_image image_image)
  ultimately show ?thesis using k s own by auto
qed

text \<open>C35. A plan and a spec the run accepted together leave a reviewer one flaw to find: a task judged by the
  test the spec gives another.\<close>

theorem accepted_pair_flaws:
  assumes "plan_unspecifiable plan spec_planned S = []" "against_spec plan f = []"
    and "spec_unspecifiable f S = []" "check_spec f = []"
    and "fl \<in> set (flaws (review_plan plan (Some f) green departed))"
  shows "\<exists>t \<in> set (tf_tasks plan). \<exists>k \<in> set (tk_criteria t). \<exists>s \<in> set (sf_specs f).
    fl = Flaw_JudgedByAnotherTasksTest (tk_id t) (pc_cmd k) (spc_task s)
    \<and> \<not> criterion_is_guard k \<and> spc_task s \<noteq> tk_id t \<and> trim (pc_cmd k) \<in> set (tests_for (Some f) (spc_task s))"
proof -
  from assms(5) obtain t where t: "t \<in> set (tf_tasks plan)"
    and fl: "fl \<in> set (task_flaws (Some f) t (review_task t (Some f) green departed))"
    unfolding flaws_review by auto
  have clean: "passes_by_a_name t = []" "denied_changes t (Some f) = []"
    using assms(1,2) t unfolding unspecifiable_Nil specifiable_def against_spec_Nil by simp_all
  have spec_clean: "hollow_tests s = [] \<and> unrun_files s = []" if "spec_of f (tk_id t) = Some s" for s
    using spec_unspecifiable_Nil [OF assms(3)] spec_of_SomeD [OF that] by blast
  have "rv_denied (review_task t (Some f) green departed) = []"
    by (simp add: review_task_def Let_def clean(2))
  then obtain c where c: "c \<in> set (rv_criteria (review_task t (Some f) green departed))"
    "(case jc_from c of To_AnotherTask owner \<Rightarrow> Some (Flaw_JudgedByAnotherTasksTest (tk_id t) (jc_cmd c) owner)
        | _ \<Rightarrow> None) = Some fl"
    using fl spec_clean by (auto simp: task_flaws_def clean(1) set_map_filter split: option.splits)
  then obtain owner where c: "c \<in> set (rv_criteria (review_task t (Some f) green departed))"
    "jc_from c = To_AnotherTask owner" "fl = Flaw_JudgedByAnotherTasksTest (tk_id t) (jc_cmd c) owner"
    by (cases "jc_from c") auto
  then obtain k s where k: "k \<in> set (tk_criteria t)" "s \<in> set (sf_specs f)" "pc_cmd k = jc_cmd c"
    "\<not> criterion_is_guard k" "spc_task s = owner" "trim (pc_cmd k) \<in> trim ` stt_cmd ` set (spc_tests s)"
    "trim (pc_cmd k) \<notin> set (tests_for (Some f) (tk_id t))"
    using judged_by_anothers by metis
  have "distinct (map spc_task (sf_specs f))" using assms(4) by (simp add: check_spec_def check_specs_Nil)
  then have "spec_of f (spc_task s) = Some s"
    using k(2) by (auto simp: spec_of_def find_Some_iff in_set_conv_nth distinct_conv_nth)
  then have named: "trim (pc_cmd k) \<in> set (tests_for (Some f) (spc_task s))"
    using k(6) by (simp add: tests_for_def image_image)
  with k(7) have "spc_task s \<noteq> tk_id t" by auto
  with named k(3-5) c(3) show ?thesis
    by (intro bexI [OF _ t] bexI [OF _ k(1)] bexI [OF _ k(2)]) simp
qed

text \<open>A plan of two tasks, one of which its spec's other task's test judges.\<close>

definition pair_plan :: tasks_file where
  "pair_plan = tasks_file_of
     (map (\<lambda>(i, cmd). \<lparr>tk_id = i, tk_title = i, tk_scope = [],
        tk_criteria = [\<lparr>pc_cmd = cmd, pc_type = None, pc_proves = Some ''it works''\<rparr>], tk_depends_on = [],
        tk_notes = None, tk_description = None, tk_changes = [], tk_outcome = None, tk_uses = [], tk_invariants = []\<rparr>)
      [(''a'', ''make a''), (''b'', ''cargo test --test a'')])"

definition pair_spec :: spec_file where
  "pair_spec = \<lparr>sf_specs = [\<lparr>spc_task = ''a'', spc_files = [\<lparr>tfl_path = ''tests/a.rs'', tfl_content = []\<rparr>],
     spc_tests = [\<lparr>stt_cmd = ''cargo test --test a'', stt_proves = ''a works''\<rparr>]\<rparr>]\<rparr>"

lemma pair_accepted:
  "plan_unspecifiable pair_plan True (suite_of ''cargo test'') = []" "against_spec pair_plan pair_spec = []"
  "spec_unspecifiable pair_spec (suite_of ''cargo test'') = []" "check_spec pair_spec = []"
  "flaws (review_plan pair_plan (Some pair_spec) [] []) = [Flaw_JudgedByAnotherTasksTest ''b'' ''cargo test --test a'' ''a'']"
proof -
  have "(plan_unspecifiable pair_plan True (suite_of ''cargo test'') = [])
    \<and> (against_spec pair_plan pair_spec = [])
    \<and> (spec_unspecifiable pair_spec (suite_of ''cargo test'') = [])
    \<and> (check_spec pair_spec = [])
    \<and> (flaws (review_plan pair_plan (Some pair_spec) [] []) = [Flaw_JudgedByAnotherTasksTest ''b'' ''cargo test --test a'' ''a''])"
    by code_simp
  then show
    "plan_unspecifiable pair_plan True (suite_of ''cargo test'') = []" "against_spec pair_plan pair_spec = []"
    "spec_unspecifiable pair_spec (suite_of ''cargo test'') = []" "check_spec pair_spec = []"
    "flaws (review_plan pair_plan (Some pair_spec) [] []) = [Flaw_JudgedByAnotherTasksTest ''b'' ''cargo test --test a'' ''a'']"
    by blast+
qed

theorem accepted_pair_flaws_witness:
  "\<exists>t \<in> set (tf_tasks pair_plan). \<exists>k \<in> set (tk_criteria t). \<exists>s \<in> set (sf_specs pair_spec).
     Flaw_JudgedByAnotherTasksTest ''b'' ''cargo test --test a'' ''a''
       = Flaw_JudgedByAnotherTasksTest (tk_id t) (pc_cmd k) (spc_task s)
     \<and> \<not> criterion_is_guard k \<and> spc_task s \<noteq> tk_id t
     \<and> trim (pc_cmd k) \<in> set (tests_for (Some pair_spec) (spc_task s))"
  by (rule accepted_pair_flaws [OF pair_accepted(1-4), where green = "[]" and departed = "[]"])
    (simp add: pair_accepted(5))

text \<open>A person accepted departing from a command of its own task alone.\<close>

definition apart_departs :: task_ledger where
  "apart_departs = tasks_new\<lparr>per_task := [(''a'', task_record_default\<lparr>tr_departures_accepted :=
     [\<lparr>ad_declared = \<lparr>dd_task = ''a'', dd_from = Criterion_Dep ''make a'', dd_planned = ''p'', dd_instead = ''i'',
         dd_why = ''w''\<rparr>, ad_said = None\<rparr>]\<rparr>)]\<rparr>"

lemma pair_departs_apart: "departures_apart pair_plan apart_departs"
proof -
  have "accepted_of apart_departs ''b'' = []
    \<and> map (\<lambda>t. (tk_id t, commands_of (tk_criteria t))) (tf_tasks pair_plan) =
        [(''a'', [''make a'']), (''b'', [''cargo test --test a''])]
    \<and> accepted_of apart_departs ''a'' = [\<lparr>ad_declared = \<lparr>dd_task = ''a'', dd_from = Criterion_Dep ''make a'',
        dd_planned = ''p'', dd_instead = ''i'', dd_why = ''w''\<rparr>, ad_said = None\<rparr>]
    \<and> trim ''make a'' = ''make a''"
    by code_simp
  moreover from this have "waivers (accepted_of apart_departs ''a'') = {''make a''}" by (simp add: waivers_def)
  ultimately show ?thesis
    by (auto simp: departures_apart_def pair_plan_def tasks_file_of_def waivers_def)
qed

theorem review_shows_what_judges_witness:
  "map shown_commands (prv_tasks (review_plan pair_plan (Some pair_spec) [''cargo test''] (departed_of pair_plan apart_departs))) =
   map (\<lambda>t. set (commands_of (tk_criteria t)) - trim ` set [''cargo test''])
     (tf_tasks (judged_plan pair_plan [''cargo test''] (Some pair_spec) apart_departs))"
  by (rule review_shows_what_judges [OF pair_departs_apart])

end
