(* ===== verification/Template.thy ===== *)
theory Template
  imports Identifiers
begin

text \<open>
  The variables a template may name, how one is spelled and read, and the rendering of a template
  (\<open>core/src/template.rs\<close>). The lemmas say that a variable's spelling reads back, that rendering puts each
  value in place without reading it as a template, and that a template renders exactly when every variable
  a check finds in it is defined.
\<close>

section \<open>Variables\<close>

type_synonym input_name = string

datatype template_var =
    Var_RunDir
  | Var_Worktree
  | Var_RunBranch
  | Var_RunBase
  | Var_Staging
  | Var_NodeArtifacts
  | Var_NodeId
  | Var_RunnerName
  | Var_ProjectName
  | Var_ProjectBaseBranch
  | Var_ProjectBranchPrefix
  | Var_Input input_name

definition fixed_vars :: "template_var list" where
  "fixed_vars =
     [Var_RunDir, Var_Worktree, Var_RunBranch, Var_RunBase, Var_Staging, Var_NodeArtifacts, Var_NodeId,
      Var_RunnerName, Var_ProjectName, Var_ProjectBaseBranch, Var_ProjectBranchPrefix]"

definition inputs_prefix :: string where
  "inputs_prefix = ''inputs.''"

fun template_var_text :: "template_var \<Rightarrow> string" where
  "template_var_text Var_RunDir = ''run.dir''"
| "template_var_text Var_Worktree = ''run.worktree''"
| "template_var_text Var_RunBranch = ''run.branch''"
| "template_var_text Var_RunBase = ''run.base''"
| "template_var_text Var_Staging = ''run.staging''"
| "template_var_text Var_NodeArtifacts = ''node.artifacts''"
| "template_var_text Var_NodeId = ''node.id''"
| "template_var_text Var_RunnerName = ''runner.name''"
| "template_var_text Var_ProjectName = ''project.name''"
| "template_var_text Var_ProjectBaseBranch = ''project.base_branch''"
| "template_var_text Var_ProjectBranchPrefix = ''project.branch_prefix''"
| "template_var_text (Var_Input n) = inputs_prefix @ n"

definition braced :: "template_var \<Rightarrow> string" where
  "braced v = ''{{'' @ template_var_text v @ ''}}''"

record unknown_variable =
  uv_name :: string
  uv_known :: string

definition unknown_variable_of :: "string \<Rightarrow> unknown_variable" where
  "unknown_variable_of name =
     \<lparr>uv_name = name, uv_known = join_with '', '' (map (\<lambda>v. ''`'' @ template_var_text v @ ''`'') fixed_vars)\<rparr>"

definition template_var_of :: "string \<Rightarrow> unknown_variable + template_var" where
  "template_var_of t =
     (if starts_with t inputs_prefix
      then (let name = drop (length inputs_prefix) t
            in if is_name name then Inr (Var_Input name) else Inl (unknown_variable_of t))
      else case List.find (\<lambda>v. template_var_text v = t) fixed_vars of
             Some v \<Rightarrow> Inr v
           | None \<Rightarrow> Inl (unknown_variable_of t))"

datatype template_error =
    Template_Undefined template_var
  | Template_Unclosed nat
  | Template_Unknown unknown_variable

section \<open>Reading and rendering a template\<close>

datatype piece = Piece_Text string | Piece_Variable template_var

function parse_from :: "nat \<Rightarrow> string \<Rightarrow> template_error + piece list" where
  "parse_from offset s =
     (case split_once ''{{'' s of
        None \<Rightarrow> Inr (if s = [] then [] else [Piece_Text s])
      | Some (before, after_open) \<Rightarrow>
          (case split_once ''}}'' after_open of
             None \<Rightarrow> Inl (Template_Unclosed (offset + length before))
           | Some (name, rest) \<Rightarrow>
               (case template_var_of (trim name) of
                  Inl e \<Rightarrow> Inl (Template_Unknown e)
                | Inr v \<Rightarrow>
                    (case parse_from (offset + (length before + 2 + length name + 2)) rest of
                       Inl e \<Rightarrow> Inl e
                     | Inr pieces \<Rightarrow>
                         Inr ((if before = [] then [] else [Piece_Text before]) @ Piece_Variable v # pieces)))))"
  by pat_completeness auto
termination
  by (relation "measure (\<lambda>(_, s). length s)") (auto dest!: split_once_shorter)

declare parse_from.simps [simp del]

definition parse_template :: "string \<Rightarrow> template_error + piece list" where
  "parse_template s = parse_from 0 s"

fun render_pieces :: "(template_var \<Rightarrow> string option) \<Rightarrow> piece list \<Rightarrow> template_error + string" where
  "render_pieces vars [] = Inr []"
| "render_pieces vars (Piece_Text t # ps) =
     (case render_pieces vars ps of Inl e \<Rightarrow> Inl e | Inr out \<Rightarrow> Inr (t @ out))"
| "render_pieces vars (Piece_Variable v # ps) =
     (case vars v of
        None \<Rightarrow> Inl (Template_Undefined v)
      | Some val \<Rightarrow> (case render_pieces vars ps of Inl e \<Rightarrow> Inl e | Inr out \<Rightarrow> Inr (val @ out)))"

definition render_template :: "string \<Rightarrow> (template_var \<Rightarrow> string option) \<Rightarrow> template_error + string" where
  "render_template s vars = (case parse_template s of Inl e \<Rightarrow> Inl e | Inr ps \<Rightarrow> render_pieces vars ps)"

definition template_variables :: "string \<Rightarrow> template_error + template_var list" where
  "template_variables s =
     (case parse_template s of
        Inl e \<Rightarrow> Inl e
      | Inr ps \<Rightarrow> Inr (List.map_filter (\<lambda>p. case p of Piece_Variable v \<Rightarrow> Some v | Piece_Text _ \<Rightarrow> None) ps))"

section \<open>A variable's spelling\<close>

definition well_named :: "template_var \<Rightarrow> bool" where
  "well_named v \<longleftrightarrow> (case v of Var_Input n \<Rightarrow> is_name n | _ \<Rightarrow> True)"

lemma template_var_reads_back: "well_named v \<Longrightarrow> template_var_of (template_var_text v) = Inr v"
  by (cases v) (simp_all add: template_var_of_def inputs_prefix_def fixed_vars_def well_named_def
      starts_with_prefix)

lemma name_chars:
  "is_name n \<Longrightarrow> n \<noteq> [] \<and> (\<forall>c \<in> set n. is_ascii_alphanumeric c \<or> c = CHR ''_'' \<or> c = CHR ''-'')"
  by (cases n) (auto simp: is_name_def is_ascii_alphanumeric_def list_all_iff)

lemma name_char_idle:
  assumes "is_ascii_alphanumeric c \<or> c = CHR ''_'' \<or> c = CHR ''-''"
  shows "c \<noteq> CHR ''}'' \<and> \<not> is_whitespace c"
  using assms by (auto simp: is_ascii_alphanumeric_def is_ascii_alphabetic_def is_ascii_digit_def is_between_def is_whitespace_def)

lemma spelling_idle:
  assumes "well_named v"
  shows "CHR ''}'' \<notin> set (template_var_text v) \<and> trim (template_var_text v) = template_var_text v"
proof (cases "\<exists>n. v = Var_Input n")
  case True
  then obtain n where n: "v = Var_Input n" "is_name n" using assms by (auto simp: well_named_def)
  note idle = name_chars [OF n(2)]
  have "CHR ''}'' \<notin> set n" using idle name_char_idle by blast
  moreover have "\<not> is_whitespace (List.last (inputs_prefix @ n))"
    using idle name_char_idle [of "List.last n"] by simp
  moreover have "CHR ''}'' \<notin> set inputs_prefix" "\<not> is_whitespace (hd (inputs_prefix @ n))"
    by (simp_all add: inputs_prefix_def is_whitespace_def is_between_def)
  ultimately show ?thesis by (simp add: n(1) trim_idle)
next
  case False
  then show ?thesis
    by (cases v) (simp_all add: trim_idle is_whitespace_def is_between_def)
qed

section \<open>What rendering puts where\<close>

text \<open>Text a template writes as it is: every opening brace is followed by something else.\<close>

fun plain_text :: "string \<Rightarrow> bool" where
  "plain_text [] = True"
| "plain_text (c # cs) = ((c = CHR ''{'' \<longrightarrow> cs \<noteq> [] \<and> hd cs \<noteq> CHR ''{'') \<and> plain_text cs)"

lemma plain_append: "plain_text a \<Longrightarrow> plain_text b \<Longrightarrow> plain_text (a @ b)"
  by (induction a) (auto simp: hd_append)

lemma split_open_plain: "plain_text t \<Longrightarrow> split_once ''{{'' t = None"
  by (induction t) (auto simp: starts_with_prefix prefix_def)

lemma split_open: "plain_text t \<Longrightarrow> split_once ''{{'' (t @ ''{{'' @ s) = Some (t, s)"
proof (induction t)
  case (Cons c cs)
  then have "\<not> starts_with (c # cs @ ''{{'' @ s) ''{{''"
    by (cases cs) (auto simp: starts_with_prefix)
  with Cons show ?case by simp
qed simp

lemma split_close: "CHR ''}'' \<notin> set n \<Longrightarrow> split_once ''}}'' (n @ ''}}'' @ s) = Some (n, s)"
  by (induction n) auto

fun written_piece :: "piece \<Rightarrow> string" where
  "written_piece (Piece_Text t) = t"
| "written_piece (Piece_Variable v) = braced v"

definition written :: "piece list \<Rightarrow> string" where
  "written ps = concat (map written_piece ps)"

definition writable :: "piece \<Rightarrow> bool" where
  "writable p \<longleftrightarrow> (case p of Piece_Text t \<Rightarrow> plain_text t | Piece_Variable v \<Rightarrow> well_named v)"

lemma parse_written:
  "plain_text before \<Longrightarrow> list_all writable ps \<Longrightarrow>
     \<exists>qs. parse_from offset (before @ written ps) = Inr qs
       \<and> render_pieces vars qs = render_pieces vars (Piece_Text before # ps)"
proof (induction ps arbitrary: before offset)
  case Nil
  then show ?case
    by (subst parse_from.simps) (simp add: written_def split_open_plain)
next
  case (Cons p ps)
  show ?case
  proof (cases p)
    case (Piece_Text t)
    then have "plain_text (before @ t)" using Cons.prems by (simp add: writable_def plain_append)
    then obtain qs where "parse_from offset ((before @ t) @ written ps) = Inr qs"
      "render_pieces vars qs = render_pieces vars (Piece_Text (before @ t) # ps)"
      using Cons.IH [of "before @ t" offset] Cons.prems by auto
    then show ?thesis
      by (intro exI [of _ qs]) (simp add: Piece_Text written_def split: sum.split)
  next
    case (Piece_Variable v)
    then have v: "well_named v" using Cons.prems by (simp add: writable_def)
    let ?offset = "offset + (length before + 2 + length (template_var_text v) + 2)"
    obtain qs where qs: "parse_from ?offset ([] @ written ps) = Inr qs"
      "render_pieces vars qs = render_pieces vars (Piece_Text [] # ps)"
      using Cons.IH [of "[]" ?offset] Cons.prems by auto
    have "before @ written (p # ps) = before @ ''{{'' @ template_var_text v @ ''}}'' @ written ps"
      by (simp add: Piece_Variable written_def braced_def)
    then have "parse_from offset (before @ written (p # ps)) =
        Inr ((if before = [] then [] else [Piece_Text before]) @ Piece_Variable v # qs)"
      using qs(1) spelling_idle [OF v]
      by (subst parse_from.simps)
        (simp only: split_open [OF Cons.prems(1)] split_close template_var_reads_back [OF v]
          option.case prod.case sum.case append_Nil simp_thms)
    moreover have "render_pieces vars qs = render_pieces vars ps"
      using qs(2) by (simp split: sum.splits)
    ultimately show ?thesis
      by (auto simp: Piece_Variable split: option.split sum.split)
  qed
qed

text \<open>What a template is to say: its text, with each variable's value where the variable stood; and the first
  of its variables that has no value.\<close>

definition said :: "(template_var \<Rightarrow> string option) \<Rightarrow> piece \<Rightarrow> string" where
  "said vars p = (case p of Piece_Text t \<Rightarrow> t | Piece_Variable v \<Rightarrow> the (vars v))"

definition first_undefined :: "(template_var \<Rightarrow> string option) \<Rightarrow> piece list \<Rightarrow> template_var option" where
  "first_undefined vars ps =
     List.find (\<lambda>v. vars v = None)
       (List.map_filter (\<lambda>p. case p of Piece_Variable v \<Rightarrow> Some v | Piece_Text _ \<Rightarrow> None) ps)"

lemma render_pieces_says:
  "render_pieces vars ps =
     (case first_undefined vars ps of
        None \<Rightarrow> Inr (concat (map (said vars) ps))
      | Some v \<Rightarrow> Inl (Template_Undefined v))"
proof (induction ps)
  case Nil
  then show ?case by (simp add: first_undefined_def List.map_filter_simps)
next
  case (Cons p ps)
  then show ?case
    by (cases p) (auto simp: first_undefined_def List.map_filter_simps said_def [abs_def] split: option.splits)
qed

text \<open>C13. A template written of text and variables renders to that text with the value of each variable,
  character for character, where the variable stood, whatever the values hold: none is read as a template.
  When some variable has no value the first such one is the error and nothing is rendered.\<close>

theorem values_are_not_templates:
  assumes "list_all writable ps"
  shows "render_template (written ps) vars =
    (case first_undefined vars ps of
       None \<Rightarrow> Inr (concat (map (said vars) ps))
     | Some v \<Rightarrow> Inl (Template_Undefined v))"
proof -
  obtain qs where "parse_from 0 (written ps) = Inr qs" "render_pieces vars qs = render_pieces vars (Piece_Text [] # ps)"
    using parse_written [of "[]" ps] assms by auto
  then have "render_template (written ps) vars = render_pieces vars ps"
    by (simp add: render_template_def parse_template_def split: sum.split)
  then show ?thesis by (simp only: render_pieces_says)
qed

lemma render_pieces_ok:
  "(\<exists>out. render_pieces vars ps = Inr out) \<longleftrightarrow> (\<forall>v. Piece_Variable v \<in> set ps \<longrightarrow> vars v \<noteq> None)"
proof (induction ps)
  case (Cons p ps)
  then show ?case by (cases p) (auto split: option.splits sum.splits)
qed simp

text \<open>A template renders exactly when it reads and every variable a check finds in it is defined.\<close>

lemma checked_template_renders:
  "(\<exists>out. render_template s vars = Inr out) \<longleftrightarrow>
   (\<exists>vs. template_variables s = Inr vs \<and> (\<forall>v \<in> set vs. vars v \<noteq> None))"
proof (cases "parse_template s")
  case (Inr ps)
  have "(case p of Piece_Variable v \<Rightarrow> Some v | Piece_Text _ \<Rightarrow> None) = Some v \<longleftrightarrow> p = Piece_Variable v" for p v
    by (cases p) auto
  then have "set (List.map_filter (\<lambda>p. case p of Piece_Variable v \<Rightarrow> Some v | Piece_Text _ \<Rightarrow> None) ps) =
      {v. Piece_Variable v \<in> set ps}"
    by (auto simp: set_map_filter)
  then show ?thesis
    using render_pieces_ok [of vars ps] by (auto simp: render_template_def template_variables_def Inr)
qed (simp add: render_template_def template_variables_def)

text \<open>An input's value that looks like a template, and ends in blanks, is put in place as it is; a variable
  without a value is the error.\<close>

definition blank_goal :: "template_var \<Rightarrow> string option" where
  "blank_goal v = (if v = Var_Input ''goal'' then Some '' {{run.dir}} '' else None)"

theorem values_are_not_templates_witness:
  "render_template ''in {{inputs.goal}} { {{node.id}}'' (\<lambda>v. Some '' {{run.dir}} '') = Inr ''in  {{run.dir}}  {  {{run.dir}} ''
   \<and> render_template ''in {{inputs.goal}} { {{node.id}}'' blank_goal = Inl (Template_Undefined Var_NodeId)"
proof -
  let ?ps = "[Piece_Text ''in '', Piece_Variable (Var_Input ''goal''), Piece_Text '' { '', Piece_Variable Var_NodeId]"
  have "list_all writable ?ps"
    by (simp add: writable_def well_named_def is_name_def is_ascii_alphabetic_def is_ascii_alphanumeric_def
      is_ascii_digit_def is_between_def)
  from values_are_not_templates [OF this, of "\<lambda>v. Some '' {{run.dir}} ''"] values_are_not_templates [OF this, of blank_goal]
  show ?thesis
    by (simp add: written_def braced_def inputs_prefix_def said_def first_undefined_def blank_goal_def List.map_filter_simps)
qed

end
