(* ===== verification/Fence.thy ===== *)
theory Fence
  imports Spec_Document Workflow_Model
begin

text \<open>
  What a session may write: its confinement (\<open>core/src/confinement.rs\<close>), the fence its file tools are
  judged by (\<open>core/src/fence.rs\<close>), what the close of its work finds outside its ceiling and the breach that
  is reported of it (\<open>engine/src/scope.rs\<close>). A path is judged by its components and nothing is read from the
  disk; the temporary directory of the environment is a parameter. The properties relate the fence to the
  place a path leads to and to the close, and say when a breach is filed; two lemmas at the end show what a
  breach of a checkout under a temporary directory does not say, and places of a breach that do not read.
\<close>

section \<open>Paths\<close>

text \<open>\<open>Path::starts_with\<close> and \<open>strip_prefix\<close>, which compare whole components; \<open>PathBuf::push\<close> and \<open>pop\<close>
  on a path's components; \<open>Path::join\<close>.\<close>

definition path_text :: "string list \<Rightarrow> path" where
  "path_text cs = (case cs of c # rest \<Rightarrow> if c = ''/'' then ''/'' @ join_slash rest else join_slash cs | [] \<Rightarrow> [])"

definition path_starts_with :: "path \<Rightarrow> path \<Rightarrow> bool" where
  "path_starts_with p base \<longleftrightarrow> prefix (path_components base) (path_components p)"

definition strip_path_prefix :: "path \<Rightarrow> path \<Rightarrow> path option" where
  "strip_path_prefix p base =
     (if path_starts_with p base
      then Some (path_text (drop (length (path_components base)) (path_components p))) else None)"

definition same_path :: "path \<Rightarrow> path \<Rightarrow> bool" where
  "same_path p q \<longleftrightarrow> path_components p = path_components q"

definition is_absolute :: "path \<Rightarrow> bool" where
  "is_absolute p = starts_with p ''/''"

definition path_join :: "path \<Rightarrow> path \<Rightarrow> path" where
  "path_join base p =
     (if is_absolute p then p
      else if base = [] \<or> List.last base = CHR ''/'' then base @ p else base @ ''/'' @ p)"

definition push_component :: "string list \<Rightarrow> string \<Rightarrow> string list" where
  "push_component r c = (if c = ''/'' then [''/''] else r @ [c])"

definition pop_component :: "string list \<Rightarrow> string list" where
  "pop_component r = (if r = [''/''] then r else butlast r)"

definition resolve_component :: "string list \<Rightarrow> string \<Rightarrow> string list" where
  "resolve_component r c =
     (if c = ''.'' then r else if c = ''..'' then pop_component r else push_component r c)"

definition lexical_absolute :: "path \<Rightarrow> path \<Rightarrow> path" where
  "lexical_absolute base p =
     (let joined = (if is_absolute p then p else path_join base p)
      in path_text (foldl resolve_component [] (path_components joined)))"

section \<open>The confinement of a session\<close>

datatype edit_sandbox = Sandbox_WorkspaceWrite | Sandbox_ReadOnly | Sandbox_DangerFullAccess

datatype session_commands = Commands_Confined | Commands_Unconfined

definition commands_of_profile :: "permission_profile \<Rightarrow> edit_sandbox \<Rightarrow> session_commands" where
  "commands_of_profile profile edit =
     (case profile of
        Profile_Full \<Rightarrow> Commands_Unconfined
      | Profile_Edit \<Rightarrow> if edit = Sandbox_DangerFullAccess then Commands_Unconfined else Commands_Confined
      | Profile_ReadOnly \<Rightarrow> Commands_Confined)"

datatype session_worktree = Worktree_Nothing | Worktree_ExactFiles | Worktree_All

definition worktree_of_profile :: "permission_profile \<Rightarrow> edit_sandbox \<Rightarrow> bool \<Rightarrow> session_worktree" where
  "worktree_of_profile profile edit scoped =
     (let declared = (if scoped then Worktree_ExactFiles else Worktree_All)
      in case profile of
           Profile_ReadOnly \<Rightarrow> Worktree_Nothing
         | Profile_Full \<Rightarrow> Worktree_All
         | Profile_Edit \<Rightarrow> if edit = Sandbox_ReadOnly then Worktree_Nothing else declared)"

record confinement =
  cf_profile :: permission_profile
  cf_commands :: session_commands
  cf_worktree :: session_worktree
  cf_roots :: "path list"
  cf_network :: bool
  cf_protected :: protected
  cf_git_register :: "path option"

text \<open>\<open>temp_dirs\<close>, given the temporary directory of the environment.\<close>

definition temp_dirs :: "path \<Rightarrow> path list" where
  "temp_dirs env_temp = (if same_path env_temp ''/tmp'' then [env_temp] else [env_temp, ''/tmp''])"

record confinement_input =
  ci_profile :: permission_profile
  ci_edit :: edit_sandbox
  ci_scoped :: bool
  ci_network :: bool
  ci_checkout :: path
  ci_artifact_dir :: "path option"
  ci_shared_dirs :: "path list"
  ci_protected :: protected
  ci_git_register :: "path option"

datatype unbuildable = Hook_Unavailable | Network_Unclosable | Shared_Dir_In_Checkout path

definition confinement_of :: "confinement_input \<Rightarrow> unbuildable + confinement" where
  "confinement_of i =
     (let commands = commands_of_profile (ci_profile i) (ci_edit i);
          tree = worktree_of_profile (ci_profile i) (ci_edit i) (ci_scoped i)
      in if commands = Commands_Unconfined \<and> \<not> ci_network i then Inl Network_Unclosable
         else case List.find (\<lambda>dir. path_starts_with dir (ci_checkout i)) (ci_shared_dirs i) of
           Some dir \<Rightarrow> Inl (Shared_Dir_In_Checkout dir)
         | None \<Rightarrow>
             Inr \<lparr>cf_profile = ci_profile i, cf_commands = commands, cf_worktree = tree,
                  cf_roots = (case ci_artifact_dir i of None \<Rightarrow> [] | Some dir \<Rightarrow> [dir])
                    @ (if ci_profile i \<noteq> Profile_ReadOnly then ci_shared_dirs i else []),
                  cf_network = (ci_network i \<and> tree \<noteq> Worktree_Nothing),
                  cf_protected = ci_protected i, cf_git_register = ci_git_register i\<rparr>)"

definition writes_checkout :: "confinement \<Rightarrow> bool" where
  "writes_checkout C \<longleftrightarrow> cf_worktree C \<noteq> Worktree_Nothing"

datatype coverage = Coverage_Exact | Coverage_WidenedToRoots "path list" | Coverage_ToolsOnly

datatype fenced = Fenced_Exact | Fenced_Roots "path list"

definition fenced_roots :: "fenced \<Rightarrow> path list" where
  "fenced_roots f = (case f of Fenced_Exact \<Rightarrow> [] | Fenced_Roots rs \<Rightarrow> rs)"

definition merged_roots :: "fenced \<Rightarrow> fenced \<Rightarrow> path list" where
  "merged_roots tools others =
     foldl (\<lambda>roots r. if list_ex (same_path r) roots then roots else roots @ [r]) []
       (fenced_roots tools @ fenced_roots others)"

definition coverage_of :: "fenced \<Rightarrow> fenced option \<Rightarrow> coverage" where
  "coverage_of tools others =
     (case others of
        None \<Rightarrow> Coverage_ToolsOnly
      | Some others \<Rightarrow>
          if tools = Fenced_Exact \<and> others = Fenced_Exact then Coverage_Exact
          else Coverage_WidenedToRoots (merged_roots tools others))"

definition confinement_coverage :: "path \<Rightarrow> confinement \<Rightarrow> path \<Rightarrow> coverage" where
  "confinement_coverage env_temp C cwd =
     coverage_of Fenced_Exact
       (if cf_commands C = Commands_Confined
        then Some (Fenced_Roots ((if writes_checkout C then [cwd] else []) @ cf_roots C @ temp_dirs env_temp))
        else None)"

definition protected_trees :: "confinement \<Rightarrow> path \<Rightarrow> path list" where
  "protected_trees C cwd =
     (let trees = map (path_join cwd) (List.map_filter whole_tree (protected_every (cf_protected C)))
      in trees
         @ (case filter_opt (\<lambda>register. \<not> list_ex (same_path register) trees) (cf_git_register C) of
              None \<Rightarrow> []
            | Some register \<Rightarrow> [register]))"

definition command_may_write :: "path \<Rightarrow> confinement \<Rightarrow> path \<Rightarrow> path \<Rightarrow> bool" where
  "command_may_write env_temp C cwd target \<longleftrightarrow>
     (if cf_commands C = Commands_Unconfined then True
      else if list_ex (path_starts_with target) (protected_trees C cwd) then False
      else writes_checkout C \<and> path_starts_with target cwd
           \<or> list_ex (path_starts_with target) (cf_roots C @ temp_dirs env_temp))"

section \<open>The fence\<close>

datatype advice = Advice_RequestExpansion | Advice_ReportFinding

record fence =
  fe_allowed :: "scope_glob list option"
  fe_advice :: advice

record fence_refusal =
  rf_target :: path
  rf_worktree :: path
  rf_allowed :: "scope_glob list option"
  rf_roots :: "path list"
  rf_advice :: advice
  rf_protection :: "protection option"

datatype verdict = Verdict_Allowed | Verdict_Refused fence_refusal

definition fence_everything :: "advice \<Rightarrow> fence" where
  "fence_everything a = \<lparr>fe_allowed = None, fe_advice = a\<rparr>"

definition fence_for_session ::
  "permission_profile \<Rightarrow> scope_glob list option \<Rightarrow> scope_glob list \<Rightarrow> advice \<Rightarrow> fence" where
  "fence_for_session profile scope granted a =
     (if profile = Profile_ReadOnly then \<lparr>fe_allowed = Some [], fe_advice = a\<rparr>
      else case scope of
             None \<Rightarrow> fence_everything a
           | Some scope \<Rightarrow> \<lparr>fe_allowed = Some (scope @ granted), fe_advice = a\<rparr>)"

definition protection_of :: "(scope_glob \<Rightarrow> path \<Rightarrow> bool) \<Rightarrow> protected \<Rightarrow> path \<Rightarrow> protection option" where
  "protection_of matches P relative =
     or_else (reason_of matches P relative) (if is_register relative then Some GitRegister else None)"

definition fence_admits ::
  "(scope_glob \<Rightarrow> path \<Rightarrow> bool) \<Rightarrow> (scope_glob list \<Rightarrow> string option) \<Rightarrow> fence \<Rightarrow> confinement \<Rightarrow> path option \<Rightarrow> bool" where
  "fence_admits matches unbuilt F C within =
     (case within of
        None \<Rightarrow> False
      | Some relative \<Rightarrow>
          if \<not> writes_checkout C then False
          else case fe_allowed F of
                 None \<Rightarrow> True
               | Some gs \<Rightarrow>
                   (case scope_globset unbuilt gs of Inl _ \<Rightarrow> False | Inr S \<Rightarrow> set_is_match matches S relative))"

definition worktree_ceiling :: "fence \<Rightarrow> confinement \<Rightarrow> scope_glob list option" where
  "worktree_ceiling F C = (if writes_checkout C then fe_allowed F else Some [])"

definition judge ::
  "(scope_glob \<Rightarrow> path \<Rightarrow> bool) \<Rightarrow> (scope_glob list \<Rightarrow> string option) \<Rightarrow> fence \<Rightarrow> path \<Rightarrow> path \<Rightarrow> confinement \<Rightarrow> verdict" where
  "judge matches unbuilt F wt target C =
     (let target = lexical_absolute wt target;
          within = strip_path_prefix target wt;
          protection = Option.bind within (protection_of matches (cf_protected C));
          allowed = protection = None
            \<and> (list_ex (path_starts_with target) (cf_roots C) \<or> fence_admits matches unbuilt F C within)
      in if allowed then Verdict_Allowed
         else Verdict_Refused
           \<lparr>rf_target = target, rf_worktree = wt, rf_allowed = worktree_ceiling F C, rf_roots = cf_roots C,
            rf_advice = fe_advice F, rf_protection = protection\<rparr>)"

section \<open>The close of a unit of work\<close>

record scope_check_result =
  scr_diff :: "path list"
  scr_violations :: "path list"
  scr_denied :: "path list"
  scr_denied_by :: "protection list"




definition result_trespasses :: "scope_check_result \<Rightarrow> trespass list" where
  "result_trespasses r = map (\<lambda>(p, why). \<lparr>tr_path = p, tr_reason = why\<rparr>) (zip (scr_denied r) (scr_denied_by r))"

record confinement_record =
  cfr_profile :: permission_profile
  cfr_commands :: session_commands
  cfr_worktree :: session_worktree
  cfr_network :: bool

definition confinement_record_of :: "confinement \<Rightarrow> confinement_record" where
  "confinement_record_of C =
     \<lparr>cfr_profile = cf_profile C, cfr_commands = cf_commands C, cfr_worktree = cf_worktree C,
      cfr_network = cf_network C\<rparr>"

definition fences_the_checkout :: "confinement_record \<Rightarrow> bool" where
  "fences_the_checkout r \<longleftrightarrow> cfr_commands r = Commands_Confined \<and> cfr_worktree r = Worktree_Nothing"

definition fence_breach :: "coverage option \<Rightarrow> confinement_record option \<Rightarrow> scope_check_result \<Rightarrow> path list option" where
  "fence_breach coverage_said record_said r =
     (if scr_violations r = [] then None
      else case coverage_said of
             None \<Rightarrow> None
           | Some coverage \<Rightarrow>
               let files = (case coverage of
                       Coverage_Exact \<Rightarrow> True
                     | _ \<Rightarrow> is_some_and record_said fences_the_checkout)
               in if files then Some (scr_violations r) else None)"

definition breach_location :: "path list \<Rightarrow> location" where
  "breach_location ps =
     \<lparr>loc_root = Root_Work, loc_path = relative_path_join (take 1 ps), loc_range = None\<rparr>"

section \<open>The place a path leads to\<close>


fun walk :: "string list \<Rightarrow> string list \<Rightarrow> string list" where
  "walk at [] = at"
| "walk at (c # cs) =
     walk (if c = ''/'' then [] else if c = ''.'' then at else if c = ''..'' then butlast at else at @ [c]) cs"



lemma walk_dots: "walk at (filter (\<lambda>w. w \<noteq> [] \<and> w \<noteq> ''.'') cs) = walk at (filter (\<lambda>w. w \<noteq> []) cs)"
  by (induction cs arbitrary: at) simp_all


lemma split_slash_not_Nil [simp]: "split_slash s \<noteq> []"
  by (induction s) (auto split: list.split)


















section \<open>The fence judges the place\<close>


lemma components_Nil [simp]: "path_components [] = []"
  by (simp add: path_components_def)



lemma judge_allows:
  "judge matches unbuilt F wt target C = Verdict_Allowed \<longleftrightarrow>
     (let t = lexical_absolute wt target; w = strip_path_prefix t wt
      in Option.bind w (protection_of matches (cf_protected C)) = None
       \<and> (list_ex (path_starts_with t) (cf_roots C) \<or> fence_admits matches unbuilt F C w))"
  by (simp add: judge_def Let_def)






lemma coverage_never_exact: "confinement_coverage env_temp C cwd \<noteq> Coverage_Exact"
  by (simp add: confinement_coverage_def coverage_of_def)

lemma filed_iff:
  "fence_breach (Some (confinement_coverage env_temp C wt)) (Some (confinement_record_of C)) r = Some ps \<longleftrightarrow>
     ps = scr_violations r \<and> ps \<noteq> [] \<and> cf_commands C = Commands_Confined \<and> \<not> writes_checkout C"
  using coverage_never_exact [of env_temp C wt]
  by (auto simp: fence_breach_def Let_def fences_the_checkout_def confinement_record_of_def writes_checkout_def
      split: coverage.split)

text \<open>A path no writable root of the session and no temporary directory holds.\<close>

definition outside_roots :: "path \<Rightarrow> confinement \<Rightarrow> path \<Rightarrow> bool" where
  "outside_roots env_temp C t \<longleftrightarrow> \<not> list_ex (path_starts_with t) (cf_roots C @ temp_dirs env_temp)"

text \<open>C12. A breach is filed exactly when the work left its scope and the session had no door to its
  checkout: outside its roots and the temporary directories, its file tools could write no path whatever
  its fence declared, and neither could its commands. The checkout is to hold one unprotected path outside
  those directories; of a checkout within them the report says less (\<open>breach_under_temp\<close>).\<close>

theorem breach_filed_exactly:
  assumes "path_starts_with (lexical_absolute wt q) wt" "outside_roots env_temp C (lexical_absolute wt q)"
    and "\<not> list_ex (path_starts_with (lexical_absolute wt q)) (protected_trees C wt)"
  shows "fence_breach (Some (confinement_coverage env_temp C wt)) (Some (confinement_record_of C)) r = Some ps \<longleftrightarrow>
    ps = scr_violations r \<and> ps \<noteq> [] \<and>
    (\<forall>p. outside_roots env_temp C (lexical_absolute wt p) \<longrightarrow>
       \<not> command_may_write env_temp C wt (lexical_absolute wt p) \<and>
       (\<forall>F. judge matches unbuilt F wt p C \<noteq> Verdict_Allowed))"
proof -
  let ?shut = "\<lambda>p. \<not> command_may_write env_temp C wt (lexical_absolute wt p) \<and>
       (\<forall>F. judge matches unbuilt F wt p C \<noteq> Verdict_Allowed)"
  have fenced: "cf_commands C = Commands_Confined \<and> \<not> writes_checkout C" if "?shut q"
    using that assms by (auto simp: command_may_write_def outside_roots_def intro: session_commands.exhaust)
  have shut: "?shut p" if "cf_commands C = Commands_Confined" "\<not> writes_checkout C"
      "outside_roots env_temp C (lexical_absolute wt p)" for p
    using that
    by (auto simp: judge_allows Let_def fence_admits_def command_may_write_def outside_roots_def split: option.splits)
  show ?thesis unfolding filed_iff using fenced shut assms(2) by blast
qed

lemma read_only_writes_its_artifacts:
  assumes "confinement_of i = Inr C" "ci_profile i = Profile_ReadOnly"
    and "judge matches unbuilt F wt target C = Verdict_Allowed"
  shows "\<exists>dir. ci_artifact_dir i = Some dir \<and> path_starts_with (lexical_absolute wt target) dir"
proof -
  have "\<not> writes_checkout C" "cf_roots C = (case ci_artifact_dir i of None \<Rightarrow> [] | Some dir \<Rightarrow> [dir])"
    using assms(1,2)
    by (auto simp: confinement_of_def Let_def writes_checkout_def worktree_of_profile_def split: if_splits option.splits)
  then show ?thesis
    using assms(3) by (auto simp: judge_allows Let_def fence_admits_def split: option.splits)
qed

text \<open>A session that edits one file, and one that edits none.\<close>

definition plain_protected :: protected where
  "plain_protected = \<lparr>prot_entries = [], prot_granted = [], prot_every = [], prot_at_loop_close = [], prot_lifted = []\<rparr>"

definition session_of :: "permission_profile \<Rightarrow> confinement" where
  "session_of profile =
     \<lparr>cf_profile = profile, cf_commands = Commands_Confined,
      cf_worktree = worktree_of_profile profile Sandbox_WorkspaceWrite True, cf_roots = [''/out''], cf_network = False,
      cf_protected = plain_protected, cf_git_register = None\<rparr>"

definition same_text :: "scope_glob \<Rightarrow> path \<Rightarrow> bool" where
  "same_text g p \<longleftrightarrow> g = p"

definition always_builds :: "scope_glob list \<Rightarrow> string option" where
  "always_builds gs = None"



definition breached :: scope_check_result where
  "breached = \<lparr>scr_diff = [''src/a.rs''], scr_violations = [''src/a.rs''], scr_denied = [], scr_denied_by = []\<rparr>"

theorem breach_filed_exactly_witness:
  "fence_breach (Some (confinement_coverage ''/tmp'' (session_of Profile_ReadOnly) ''/w''))
     (Some (confinement_record_of (session_of Profile_ReadOnly))) breached = Some [''src/a.rs'']
   \<and> judge same_text always_builds (fence_everything Advice_ReportFinding) ''/w'' ''src/b.rs'' (session_of Profile_ReadOnly)
       \<noteq> Verdict_Allowed
   \<and> \<not> command_may_write ''/tmp'' (session_of Profile_ReadOnly) ''/w'' (lexical_absolute ''/w'' ''src/b.rs'')"
proof -
  let ?C = "session_of Profile_ReadOnly"
  have free: "path_starts_with (lexical_absolute ''/w'' ''src/a.rs'') ''/w''"
    "outside_roots ''/tmp'' ?C (lexical_absolute ''/w'' ''src/a.rs'')"
    "\<not> list_ex (path_starts_with (lexical_absolute ''/w'' ''src/a.rs'')) (protected_trees ?C ''/w'')"
    by code_simp+
  have filed: "fence_breach (Some (confinement_coverage ''/tmp'' ?C ''/w'')) (Some (confinement_record_of ?C)) breached
      = Some [''src/a.rs'']"
    by code_simp
  have "outside_roots ''/tmp'' ?C (lexical_absolute ''/w'' ''src/b.rs'')" by code_simp
  with filed breach_filed_exactly [OF free, of breached "[''src/a.rs'']" same_text always_builds]
  show ?thesis by blast
qed

text \<open>With the checkout under a temporary directory a breach is filed of a path the session's own commands
  may write.\<close>

lemma breach_under_temp:
  "fence_breach (Some (confinement_coverage ''/tmp'' (session_of Profile_ReadOnly) ''/tmp/w''))
     (Some (confinement_record_of (session_of Profile_ReadOnly))) breached = Some [''src/a.rs'']
   \<and> command_may_write ''/tmp'' (session_of Profile_ReadOnly) ''/tmp/w'' (lexical_absolute ''/tmp/w'' ''src/a.rs'')"
  by code_simp

text \<open>The place of a breach is composed from the names of its first path, and its text need not read as it: a
  file \<open>a:1\<close> is filed at the first line of \<open>a\<close>, a file \<open>run:x\<close> in the run's own register, and a file
  \<open>notes:2nd.md\<close> at a place that does not read.\<close>

lemma breach_location_misread:
  "location_of (location_text (breach_location [''a:1'']))
     = Inr \<lparr>loc_root = Root_Work, loc_path = ''a'', loc_range = Some \<lparr>lr_start = 1, lr_end = None\<rparr>\<rparr>
   \<and> location_of (location_text (breach_location [''run:x''])) = Inr \<lparr>loc_root = Root_Run, loc_path = ''x'', loc_range = None\<rparr>
   \<and> location_of (location_text (breach_location [''notes:2nd.md''])) = Inl (Location_NotARange ''2nd.md'')"
  by code_simp

end
