(* ===== verification/Spec2Isabelle.thy ===== *)
theory Spec2Isabelle
  imports Remedies Expansion Derivation Schedule_Samples Task_Loop Plan_Review Template Fence
begin

text \<open>
  The core of yunta, a deterministic workflow engine for code agents written in Rust.

  A run of yunta is its event log. Every decision the engine takes is taken on a state derived from the
  log, one event at a time, by ledgers that each read the events of their own domain
  (\<open>src/crates/core/src/events/\<close>); a state machine of the run (\<open>src/crates/engine/src/replay\<close>) drives
  them. A scheduler (\<open>src/crates/engine/src/run/schedule\<close>) then reads that state and the workflow, narrowed
  to the run's mode, and says what the run does next. The development models those ledgers, the state they
  add up to, the workflow with its modes, and the decisions that read both; the storage that keeps the log
  and the hash chain that says it was not altered; the plan a run builds, from the document's rules to the
  loop that works its tasks; and the fence that says which writes a session may make.

  \<^bold>\<open>The theories, and the code they model.\<close>

  \<^item> \<open>Prelude\<close>: fixed-width integers (\<open>u32\<close> and \<open>u64\<close> as words, whose addition wraps), ordered maps and
    sets (\<open>BTreeMap\<close> and \<open>BTreeSet\<close> as sorted lists with an invariant), and \<open>fold_until\<close>, the fold of a
    log that stops at the first event its step refuses. The locale \<open>event_fold\<close> is the contract of every
    ledger: an invariant of the empty ledger that every accepted event keeps. \<open>running_total\<close> and
    \<open>last_write\<close> are the contracts of a field that adds up what events carry, and of a field that holds
    what the last event to name it said; each ledger interprets them on its own step.
  \<^item> \<open>Accounting\<close>: token usage, spend and the time a host slept (\<open>events/session/usage.rs\<close>,
    \<open>events/spend.rs\<close>, \<open>events/run/suspensions.rs\<close>).
  \<^item> \<open>Failures\<close>, \<open>Remedies\<close>: the failure records (\<open>events/failure\<close>, \<open>events/tasks/stop.rs\<close>) and what can be
    done about each (\<open>events/failure/remedy.rs\<close>).
  \<^item> \<open>Globs\<close>, \<open>Scope_Policy\<close>, \<open>Expansion\<close>: what a task may write (\<open>glob.rs\<close>, \<open>policy.rs\<close>, \<open>protected.rs\<close>)
    and how a request to write more is decided (\<open>expansion.rs\<close>, \<open>engine/src/scope_expansion\<close>).
  \<^item> \<open>Grant_Ledger\<close>, \<open>Node_Ledger\<close> (with \<open>Node_Events\<close> and \<open>Rail_Timing\<close>), \<open>Gate_Ledger\<close>, \<open>Task_Ledger\<close>,
    \<open>Run_Ledger\<close>, \<open>Finding_Ledger\<close>, \<open>Artifact_Ledger\<close>, \<open>Child_Ledger\<close>: the payloads of one domain and the
    ledger that folds them (the directory of that name under \<open>events/\<close>).
  \<^item> \<open>Stored_Event\<close>: the envelope of an event and the kinds this binary knows (\<open>events/mod.rs\<close>,
    \<open>events/registry.rs\<close>).
  \<^item> \<open>Clock\<close>, \<open>Activity\<close>, \<open>Replay\<close>, \<open>Derivation\<close>: the run's clock, its counters, the state that holds every
    ledger and the derivation of it from a log (\<open>engine/src/replay.rs\<close> and \<open>engine/src/replay/\<close>).
  \<^item> \<open>Workflow_Model\<close>: a workflow as data, the iterators over its nodes and the predicates asked of a node
    (\<open>workflow/mod.rs\<close>, \<open>workflow/node.rs\<close>, \<open>workflow/node_kind.rs\<close> and the types they name).
  \<^item> \<open>Dependency_Graph\<close>: the three-colour search for a cycle (\<open>graph.rs\<close>, \<open>engine/src/check/graph.rs\<close>).
  \<^item> \<open>Modes\<close>: what a mode keeps of a workflow, what each kept node then waits on, and the correction
    nodes a failure reaches (\<open>engine/src/modes.rs\<close>, \<open>workflow/optional.rs\<close>).
  \<^item> \<open>Failure_Access\<close>, \<open>Decisions\<close>: what a failure hands its readers (\<open>events/failure/accessors.rs\<close>), what a
    person decided that nothing acted on yet, and whether the tree moved since a failure
    (\<open>engine/src/replay/decisions.rs\<close>, \<open>engine/src/replay/tree.rs\<close>).
  \<^item> \<open>Board\<close>, \<open>Schedule\<close>: the policy a run froze, the board the scheduler reads and the measurement a lineage
    owes; then every step of the decision, in the order \<open>decide\<close> asks them (\<open>engine/src/run/schedule.rs\<close>,
    \<open>engine/src/run/schedule/\<close>, \<open>engine/src/run/baseline.rs\<close>).
  \<^item> \<open>Progress\<close>, \<open>Schedule_Samples\<close>: what every decision keeps, and concrete runs it is read on.
  \<^item> \<open>Text\<close>, \<open>Shell\<close>: the operations of \<open>str\<close> and \<open>char\<close> the readers below call, and the scanner that reads a
    shell script into its commands and words (\<open>shell.rs\<close>, the quoting of \<open>adapters/src/session.rs\<close>).
  \<^item> \<open>Diagnostics\<close>, \<open>Tasks_Document\<close>, \<open>Plan_Rules\<close>, \<open>Plan_Order\<close>: rule codes and subjects (\<open>diagnostic/\<close>), the
    tasks document and the rules it is held to (\<open>tasks/mod.rs\<close>, \<open>tasks/rules.rs\<close>, \<open>tasks/owned.rs\<close>), which plans
    break none, and the steps an accepted plan runs in (\<open>tasks/order.rs\<close>).
  \<^item> \<open>Plan_Proofs\<close>, \<open>Spec_Document\<close>: what a plan's commands name, the suite a command runs and the code a
    change shows (\<open>tasks/proof.rs\<close>, \<open>tasks/suite.rs\<close>, \<open>tasks/code.rs\<close>); the spec that gives a plan's tasks their
    tests, and its rules (\<open>spec/\<close>).
  \<^item> \<open>Judged\<close>, \<open>Plan_Review\<close>: what the run holds each task to (\<open>engine/src/tasks/judged.rs\<close>); what a plan is held to
    when it is handed over (\<open>tasks/specified.rs\<close>, the review rules of \<open>tasks/rules.rs\<close>), the review a person is
    shown and its flaws (\<open>engine/src/tasks/review.rs\<close>, \<open>shown.rs\<close>).
  \<^item> \<open>Registration\<close>, \<open>Task_Loop\<close>: the events a document entails where it enters a run and what of another run's
    tasks crosses (\<open>engine/src/tasks/mod.rs\<close>, \<open>crossing.rs\<close>, \<open>respecified.rs\<close>); the loop that takes the plan's
    tasks in batches, and what an idle iteration ends on (\<open>engine/src/run/loop_exec/\<close>).
  \<^item> \<open>Identifiers\<close>, \<open>Storage_Chain\<close>, \<open>Locations\<close>: the rules of every identifier and the digests
    (\<open>ids.rs\<close>, \<open>ids/\<close>, \<open>hash.rs\<close>); appending to a stored log, reading it back and verifying its hash chain
    (\<open>storage/src/store.rs\<close>, \<open>storage/src/store/chain.rs\<close>); the place a finding names (\<open>findings/location.rs\<close>).
  \<^item> \<open>Template\<close>, \<open>Fence\<close>: the variables of a prompt and its rendering (\<open>template.rs\<close>); what a session may write,
    the judgement of its file tools and its commands, the verdict of the close and the breach it files
    (\<open>confinement.rs\<close>, \<open>fence.rs\<close>, \<open>engine/src/scope.rs\<close>).

  \<^bold>\<open>What the lemmas show.\<close> For each ledger, that a field of the state is a plain reading of the log: the
  last event that names it, a sum over the events, the first to claim it. Over those, what a reader relies
  on: that a tally kept event by event counts exactly the records, that nothing is in flight outside an
  attempt, that a departure is owed until answered, that a finding is settled only by evidence. For the
  decisions: that a request reaching a protected path is refused whole, that no engine grant selects a
  protected file, that a cap holds over every sequence of requests, that every failure leads somewhere. For
  the whole state: that an event is refused before anything moves, that derivation stops at the first
  refused event, that a node that asked comes back as it was, and that the clock's buckets add up to the
  run's awake time. For the graph and the modes: that a cycle is found exactly when there is one and is a
  real one, that a mode's dependencies are the declared ones seen through what the mode leaves out, and
  that they keep the workflow's order. For the scheduler: that no node starts before what it waits on, that
  an orphan whose work is uncertain is never started again, that a batch stays within the capacity, that
  finishing means every node is done, that a cap on reroutes holds, and that a run with no failure is never
  stuck; and that a gate reaches the execution of ordinary nodes only by a correction or past a reset it
  waited for (a lemma shows the second on a log). For the storage: that two logs that verify on one head and
  read back are one log unless the digest collides, that an append keeps the chain and reads back, and that
  a deleted tail is named. For a plan: which
  documents break no rule, that an accepted one orders its tasks after what they wait on and keeps their
  files apart, that the loop's batch shares no file and the loop stalls only behind a lost task; what a
  ledger holds once a document is registered and which tasks of another run's log cross done; that a task is judged by exactly
  its own commands, the measured ones and its tests less what was departed from, that the review shows the
  same, and what flaw an accepted plan can still have. For a session: that the fence and the close agree on
  every file of the checkout however its path is spelled, when exactly a breach is filed, which locations
  read back from their text, and that a template's values stand in it as they are.

  \<^bold>\<open>Conventions.\<close> A struct is a record, an enum a datatype with the source's constructors, a fallible
  operation a sum whose left side is its error. \<open>instant\<close> and \<open>duration\<close> count nanoseconds. Text that an
  operation only carries (a JSON value, a report) is \<open>json\<close>, a string. An identifier is a string. A
  regular loop is a structural recursion or a fold. Three searches carry fuel. \<open>find_cycle\<close> is given the number
  of keys of the graph, and each nested visit paints one more key gray; \<open>effective_dependencies\<close> is given one
  more than the number of nodes, and each nested call opens a node not yet on its path. Theorems
  \<open>find_cycle_decides_acyclicity\<close> and \<open>mode_dependencies_return\<close> show that this is enough on every graph and
  on every workflow, cyclic or not. \<open>plan_steps\<close> gives \<open>step_of\<close> one more than the number of tasks, enough on
  every accepted plan (\<open>accepted_plan_runs_in_order\<close>). What is not under \<open>src\<close> is a
  parameter: \<open>builds\<close>, \<open>unbuilt\<close> and \<open>matches\<close> for globset (what the overlap test needs of it is
  \<open>reads_globs\<close>, met by the executable reading \<open>globset_matches\<close> of its documented syntax), \<open>read_known\<close> and the texts of a payload for serde,
  the digest for SHA-256 (32 bytes; a collision is stated where a property needs there to be none), git's
  answers for the crossing of tasks, the diff of an audit, the environment's temporary directory. Text is
  ASCII; a path is compared by its components. SQLite is the rows and heads the queries read.

  \<^bold>\<open>Not modelled.\<close> The command line and its pages, the adapters of agents and forges, git, worktrees and
  processes, and the YAML and schema layers are I/O or presentation. Carrying out what the scheduler decided
  (\<open>engine/src/run\<close> outside \<open>schedule\<close> and the decisions of \<open>loop_exec\<close>) is an asynchronous shell around those.
  Configuration and packs are documents read and merged through serde; the checks of a workflow's source
  (\<open>engine/src/check\<close> outside its graph) place their faults in a text the parser keeps. The sentences a
  reader is shown (\<open>happening.rs\<close>, the clauses of a fault, a refusal or a flaw) are left out, as are the
  serialized forms serde derives.
\<close>

end
